theory Spec2Isabelle
  imports Main "HOL-Library.Word"
begin

unbundle bit_operations_syntax

section \<open>Operation codes and instructions of the SX virtual machine\<close>

text \<open>
  The operation code of an instruction or of a node.  The four structural codes are the
  ones the sources switch on by name; every built-in arithmetic operation is either
  unary or binary and is identified by a number.
\<close>

datatype opcode = OP_CONST | OP_PARAMETER | OP_INPUT | OP_OUTPUT | OP_UNARY nat | OP_BINARY nat

text \<open>
  Modelled from the spec: \<^verbatim>\<open>casadi_math<double>::ndeps\<close> is declared in
  casadi_math.hpp, which is not among the sources.  The number of operands of each
  operation code is the one the callers rely on: constants, symbols and input markers
  have none (their \<^verbatim>\<open>arg\<close> holds no slot index), an output marker reads one slot,
  a unary operation one and a binary operation two
  (\<^verbatim>\<open>ndeps==1 && it->op!=OP_OUTPUT\<close> in \<^verbatim>\<open>SXFunctionInternal::init\<close>,
  the two switch statements of \<^verbatim>\<open>sx_tools.cpp\<close>).
\<close>

fun ndeps :: "opcode \<Rightarrow> nat" where
  "ndeps OP_CONST = 0"
| "ndeps OP_PARAMETER = 0"
| "ndeps OP_INPUT = 0"
| "ndeps OP_OUTPUT = 1"
| "ndeps (OP_UNARY k) = 1"
| "ndeps (OP_BINARY k) = 2"

text \<open>
  \<^verbatim>\<open>struct SXAlgEl\<close> (sx_function.hpp).  The C union \<^verbatim>\<open>arg\<close> holds either the
  constant \<^verbatim>\<open>d\<close> or the two integers \<^verbatim>\<open>i[0]\<close>, \<^verbatim>\<open>i[1]\<close>; the model keeps
  them as separate fields, and an instruction only ever reads the member it has written.
\<close>

record 'a SXAlgEl =
  op :: opcode
  res :: nat
  arg_d :: 'a
  arg_i0 :: nat
  arg_i1 :: nat

definition arg_i :: "'a SXAlgEl \<Rightarrow> nat \<Rightarrow> nat" where
  "arg_i e c = (if c = 0 then arg_i0 e else arg_i1 e)"

definition set_arg_i :: "nat \<Rightarrow> nat \<Rightarrow> 'a SXAlgEl \<Rightarrow> 'a SXAlgEl" where
  "set_arg_i c v e = (if c = 0 then e\<lparr>arg_i0 := v\<rparr> else e\<lparr>arg_i1 := v\<rparr>)"

section \<open>The node graph\<close>

text \<open>
  Modelled from the spec: the node classes (\<^verbatim>\<open>SXNode\<close> and its subclasses) are not
  among the sources.  A node is a constant, a symbol, or an operation with one or two
  operand references; the graph is an arena of nodes and a node reference is an index
  into it.  \<^verbatim>\<open>dep(i)\<close> of a node with one operand returns that operand for every
  \<^verbatim>\<open>i\<close>; the only such read in the sources (\<^verbatim>\<open>n->dep(1)\<close> in \<^verbatim>\<open>init\<close>) is
  overwritten before it is used.
\<close>

datatype 'a SXNode =
  ConstantSX 'a
| SymbolicSX string
| UnarySX nat nat
| BinarySX nat nat nat

type_synonym 'a graph = "'a SXNode list"

fun getOp :: "'a SXNode \<Rightarrow> opcode" where
  "getOp (ConstantSX v) = OP_CONST"
| "getOp (SymbolicSX x) = OP_PARAMETER"
| "getOp (UnarySX k a) = OP_UNARY k"
| "getOp (BinarySX k a b) = OP_BINARY k"

fun ndep :: "'a SXNode \<Rightarrow> nat" where
  "ndep (ConstantSX v) = 0"
| "ndep (SymbolicSX x) = 0"
| "ndep (UnarySX k a) = 1"
| "ndep (BinarySX k a b) = 2"

fun dep :: "'a SXNode \<Rightarrow> nat \<Rightarrow> nat" where
  "dep (ConstantSX v) i = 0"
| "dep (SymbolicSX x) i = 0"
| "dep (UnarySX k a) i = a"
| "dep (BinarySX k a b) i = (if i = 0 then a else b)"

fun getValue :: "'a::zero SXNode \<Rightarrow> 'a" where
  "getValue (ConstantSX v) = v"
| "getValue n = 0"

fun isConstant :: "'a SXNode \<Rightarrow> bool" where
  "isConstant (ConstantSX v) = True"
| "isConstant n = False"

fun isSymbolic :: "'a SXNode \<Rightarrow> bool" where
  "isSymbolic (SymbolicSX x) = True"
| "isSymbolic n = False"

text \<open>
  Nodes are created after their operands and never mutated, so the graph has no cycle:
  every operand reference points to a node created earlier.
\<close>

definition wf_graph :: "'a graph \<Rightarrow> bool" where
  "wf_graph g =
     list_all (\<lambda>n. list_all (\<lambda>i. dep (g ! n) i < n) [0 ..< ndep (g ! n)]) [0 ..< length g]"

section \<open>Depth-first topological sorting\<close>

text \<open>
  \<^verbatim>\<open>XFunctionInternal::sort_depth_first\<close> (x_function_internal.hpp).  A node pointer is
  \<open>Some n\<close>, the null pointer is \<open>None\<close>; \<open>temp\<close> is the scratch field of the nodes.
  The inner loop looks for the not yet added operand with the greatest \<^verbatim>\<open>ndep()\<close>;
  it carries \<^verbatim>\<open>max_deps\<close> and \<^verbatim>\<open>dep_with_max_deps\<close>, both starting at -1.
\<close>

definition find_dep_step :: "'a graph \<Rightarrow> (nat \<Rightarrow> int) \<Rightarrow> nat \<Rightarrow> nat \<Rightarrow> int \<times> int \<Rightarrow> int \<times> int" where
  "find_dep_step g temp t i md =
     (if temp (dep (g ! t) i) = 0 then
        (let ndep_i = int (ndep (g ! dep (g ! t) i)) in
         if ndep_i > fst md then (ndep_i, int i) else md)
      else md)"

definition find_dep :: "'a graph \<Rightarrow> (nat \<Rightarrow> int) \<Rightarrow> nat \<Rightarrow> int" where
  "find_dep g temp t = snd (fold (find_dep_step g temp t) [0 ..< ndep (g ! t)] (-1, -1))"

partial_function (option) sort_depth_first ::
  "'a graph \<Rightarrow> nat option list \<Rightarrow> nat option list \<Rightarrow> (nat \<Rightarrow> int)
     \<Rightarrow> (nat option list \<times> (nat \<Rightarrow> int)) option" where
  "sort_depth_first g s nodes temp =
     (case s of
        [] \<Rightarrow> Some (nodes, temp)
      | t # s' \<Rightarrow>
          (case t of
             None \<Rightarrow> sort_depth_first g s' nodes temp
           | Some n \<Rightarrow>
               if temp n = 0 then
                 (let dep_with_max_deps = find_dep g temp n in
                  if dep_with_max_deps \<ge> 0 then
                    sort_depth_first g (Some (dep (g ! n) (nat dep_with_max_deps)) # s) nodes temp
                  else
                    sort_depth_first g s' (nodes @ [Some n]) (temp(n := 1)))
               else sort_depth_first g s' nodes temp))"

declare sort_depth_first.simps [code]

section \<open>Linearisation: \<^verbatim>\<open>SXFunctionInternal::init\<close>\<close>

text \<open>
  The function object holds the input and output expressions; a matrix of expressions is
  the list of its nonzero entries (node references).  \<^verbatim>\<open>init\<close> works on the record
  below: the sorted node list (a null pointer stands for an output instruction), the
  scratch fields, the algorithm, and the bookkeeping of the slot allocation.
\<close>

text \<open>
  The first loop: every output entry is pushed on the (empty) stack and sorted, then a
  null pointer is appended for its output instruction.
\<close>

fun sort_outputs ::
  "'a graph \<Rightarrow> nat list \<Rightarrow> nat option list \<Rightarrow> (nat \<Rightarrow> int)
     \<Rightarrow> (nat option list \<times> (nat \<Rightarrow> int)) option" where
  "sort_outputs g [] nodes temp = Some (nodes, temp)"
| "sort_outputs g (x # xs) nodes temp =
     (case sort_depth_first g [Some x] nodes temp of
        None \<Rightarrow> None
      | Some (nodes', temp') \<Rightarrow> sort_outputs g xs (nodes' @ [None]) temp')"

text \<open>The second loop: inputs that were not reached are appended (their scratch field is not set).\<close>

fun add_inputs :: "(nat \<Rightarrow> int) \<Rightarrow> nat list \<Rightarrow> nat option list \<Rightarrow> nat option list" where
  "add_inputs temp [] nodes = nodes"
| "add_inputs temp (x # xs) nodes =
     add_inputs temp xs (if temp x = 0 then nodes @ [Some x] else nodes)"

text \<open>\<^verbatim>\<open>nodes[i]->temp = i\<close> for every non-null entry, in increasing order of \<open>i\<close>.\<close>

fun set_temp_index :: "nat option list \<Rightarrow> nat \<Rightarrow> (nat \<Rightarrow> int) \<Rightarrow> (nat \<Rightarrow> int)" where
  "set_temp_index [] i temp = temp"
| "set_temp_index (None # ns) i temp = set_temp_index ns (Suc i) temp"
| "set_temp_index (Some n # ns) i temp = set_temp_index ns (Suc i) (temp(n := int i))"

fun reset_temp :: "nat option list \<Rightarrow> (nat \<Rightarrow> int) \<Rightarrow> (nat \<Rightarrow> int)" where
  "reset_temp [] temp = temp"
| "reset_temp (None # ns) temp = reset_temp ns temp"
| "reset_temp (Some n # ns) temp = reset_temp ns (temp(n := 0))"

text \<open>
  Stepping the output cursor: \<^verbatim>\<open>curr_oind\<close> skips the outputs without nonzeros.
\<close>

function skip_empty_from :: "nat list list \<Rightarrow> nat \<Rightarrow> nat" where
  "skip_empty_from outputv curr_oind =
     (if curr_oind < length outputv then
        (if length (outputv ! curr_oind) \<noteq> 0 then curr_oind
         else skip_empty_from outputv (Suc curr_oind))
      else curr_oind)"
  by pat_completeness auto
termination
  by (relation "measure (\<lambda>(outputv, curr_oind). length outputv - curr_oind)") auto

declare skip_empty_from.simps [simp del]

text \<open>
  The loop that emits one instruction per entry of the node list.  \<^verbatim>\<open>AlgEl ae\<close> is
  not initialised in the source, so the members an instruction does not write are
  indeterminate; the model writes 0 there.  \<^verbatim>\<open>outputv_[curr_oind].at(curr_nz)\<close>
  outside the output expressions is an error (\<open>None\<close>).
\<close>

record 'a build_state =
  bs_algorithm :: "'a SXAlgEl list"
  bs_symb_loc :: "(nat \<times> nat) list"
  bs_curr_oind :: nat
  bs_curr_nz :: nat
  bs_refcount :: "int list"

definition inc_refcount :: "'a SXAlgEl \<Rightarrow> int list \<Rightarrow> int list" where
  "inc_refcount ae refcount =
     fold (\<lambda>c rc. rc[arg_i ae c := rc ! arg_i ae c + 1]) [0 ..< ndeps (op ae)] refcount"

definition push_instr :: "'a SXAlgEl \<Rightarrow> 'a build_state \<Rightarrow> 'a build_state" where
  "push_instr ae bs =
     bs\<lparr>bs_refcount := inc_refcount ae (bs_refcount bs),
        bs_algorithm := bs_algorithm bs @ [ae]\<rparr>"

definition build_step ::
  "'a::zero graph \<Rightarrow> nat list list \<Rightarrow> (nat \<Rightarrow> int) \<Rightarrow> nat option \<Rightarrow> 'a build_state
     \<Rightarrow> 'a build_state option" where
  "build_step g outputv temp n bs =
     (case n of
        None \<Rightarrow>
          (let curr_oind = bs_curr_oind bs; curr_nz = bs_curr_nz bs in
           if curr_oind < length outputv \<and> curr_nz < length (outputv ! curr_oind) then
             (let ae = \<lparr>op = OP_OUTPUT, res = curr_oind, arg_d = 0,
                        arg_i0 = nat (temp (outputv ! curr_oind ! curr_nz)), arg_i1 = curr_nz\<rparr>;
                  bs' = (if Suc curr_nz \<ge> length (outputv ! curr_oind)
                         then bs\<lparr>bs_curr_nz := 0,
                                 bs_curr_oind := skip_empty_from outputv (Suc curr_oind)\<rparr>
                         else bs\<lparr>bs_curr_nz := Suc curr_nz\<rparr>)
              in Some (push_instr ae bs'))
           else None)
      | Some n \<Rightarrow>
          (case getOp (g ! n) of
             OP_CONST \<Rightarrow>
               Some (push_instr \<lparr>op = OP_CONST, res = nat (temp n), arg_d = getValue (g ! n),
                                 arg_i0 = 0, arg_i1 = 0\<rparr> bs)
           | OP_PARAMETER \<Rightarrow>
               Some (push_instr \<lparr>op = OP_PARAMETER, res = nat (temp n), arg_d = 0,
                                 arg_i0 = 0, arg_i1 = 0\<rparr>
                       (bs\<lparr>bs_symb_loc := bs_symb_loc bs @ [(length (bs_algorithm bs), n)]\<rparr>))
           | opc \<Rightarrow>
               Some (push_instr \<lparr>op = opc, res = nat (temp n), arg_d = 0,
                                 arg_i0 = nat (temp (dep (g ! n) 0)),
                                 arg_i1 = nat (temp (dep (g ! n) 1))\<rparr> bs)))"

fun build_loop ::
  "'a::zero graph \<Rightarrow> nat list list \<Rightarrow> (nat \<Rightarrow> int) \<Rightarrow> nat option list \<Rightarrow> 'a build_state
     \<Rightarrow> 'a build_state option" where
  "build_loop g outputv temp [] bs = Some bs"
| "build_loop g outputv temp (n # ns) bs =
     (case build_step g outputv temp n bs of
        None \<Rightarrow> None
      | Some bs' \<Rightarrow> build_loop g outputv temp ns bs')"

text \<open>
  Slot allocation.  \<open>unused\<close> is the stack of free work vector entries (its head is the
  top), \<open>place\<close> the entry given to each node.  The operands are released in the order
  \<^verbatim>\<open>c = ndeps-1, ..., 0\<close>.
\<close>

record alloc_state =
  as_refcount :: "int list"
  as_place :: "nat list"
  as_unused :: "nat list"
  as_worksize :: nat

definition release_child :: "'a SXAlgEl \<Rightarrow> nat \<Rightarrow> alloc_state \<Rightarrow> alloc_state" where
  "release_child e c st =
     (let ch_ind = arg_i e c;
          remaining = as_refcount st ! ch_ind - 1;
          st' = st\<lparr>as_refcount := (as_refcount st)[ch_ind := remaining]\<rparr>
      in if remaining = 0 then st'\<lparr>as_unused := as_place st ! ch_ind # as_unused st\<rparr> else st')"

definition release_children :: "'a SXAlgEl \<Rightarrow> alloc_state \<Rightarrow> alloc_state" where
  "release_children e st = fold (release_child e) (rev [0 ..< ndeps (op e)]) st"

definition find_place :: "bool \<Rightarrow> 'a SXAlgEl \<Rightarrow> alloc_state \<Rightarrow> 'a SXAlgEl \<times> alloc_state" where
  "find_place live_variables e st =
     (if op e \<noteq> OP_OUTPUT then
        (if live_variables \<and> as_unused st \<noteq> [] then
           (e\<lparr>res := hd (as_unused st)\<rparr>,
            st\<lparr>as_place := (as_place st)[res e := hd (as_unused st)],
               as_unused := tl (as_unused st)\<rparr>)
         else
           (e\<lparr>res := as_worksize st\<rparr>,
            st\<lparr>as_place := (as_place st)[res e := as_worksize st],
               as_worksize := Suc (as_worksize st)\<rparr>))
      else (e, st))"

definition save_children :: "nat list \<Rightarrow> 'a SXAlgEl \<Rightarrow> 'a SXAlgEl" where
  "save_children place e =
     fold (\<lambda>c e'. set_arg_i c (place ! arg_i e' c) e') [0 ..< ndeps (op e)] e"

definition make_binary :: "'a SXAlgEl \<Rightarrow> 'a SXAlgEl" where
  "make_binary e =
     (if ndeps (op e) = 1 \<and> op e \<noteq> OP_OUTPUT then e\<lparr>arg_i1 := arg_i0 e\<rparr> else e)"

definition alloc_step :: "bool \<Rightarrow> 'a SXAlgEl \<Rightarrow> alloc_state \<Rightarrow> 'a SXAlgEl \<times> alloc_state" where
  "alloc_step live_variables e st =
     (let st1 = release_children e st;
          (e1, st2) = find_place live_variables e st1
      in (make_binary (save_children (as_place st2) e1), st2))"

fun alloc_loop ::
  "bool \<Rightarrow> 'a SXAlgEl list \<Rightarrow> alloc_state \<Rightarrow> 'a SXAlgEl list \<times> alloc_state" where
  "alloc_loop live_variables [] st = ([], st)"
| "alloc_loop live_variables (e # es) st =
     (let (e', st') = alloc_step live_variables e st;
          (es', st'') = alloc_loop live_variables es st'
      in (e' # es', st''))"

text \<open>
  Marking the inputs: the scratch field of every symbol of the algorithm is set to its
  position plus one, the declared inputs turn their instruction into an input
  instruction and clear the mark, and the symbols still marked are the free variables.
\<close>

definition mark_symb_loc :: "(nat \<times> nat) list \<Rightarrow> (nat \<Rightarrow> int) \<Rightarrow> (nat \<Rightarrow> int)" where
  "mark_symb_loc symb_loc temp = fold (\<lambda>(i, n) t. t(n := int i + 1)) symb_loc temp"

fun input_row ::
  "nat \<Rightarrow> nat \<Rightarrow> nat list \<Rightarrow> 'a SXAlgEl list \<times> (nat \<Rightarrow> int) \<Rightarrow> 'a SXAlgEl list \<times> (nat \<Rightarrow> int)" where
  "input_row ind nz [] st = st"
| "input_row ind nz (n # ns) (alg, temp) =
     input_row ind (Suc nz) ns
       (let i = temp n - 1 in
        if i \<ge> 0 then
          (alg[nat i := (alg ! nat i)\<lparr>op := OP_INPUT, arg_i0 := ind, arg_i1 := nz\<rparr>], temp(n := 0))
        else (alg, temp))"

fun input_instructions ::
  "nat \<Rightarrow> nat list list \<Rightarrow> 'a SXAlgEl list \<times> (nat \<Rightarrow> int) \<Rightarrow> 'a SXAlgEl list \<times> (nat \<Rightarrow> int)" where
  "input_instructions ind [] st = st"
| "input_instructions ind (row # rows) st =
     input_instructions (Suc ind) rows (input_row ind 0 row st)"

fun locate_free ::
  "(nat \<times> nat) list \<Rightarrow> nat list \<times> (nat \<Rightarrow> int) \<Rightarrow> nat list \<times> (nat \<Rightarrow> int)" where
  "locate_free [] st = st"
| "locate_free ((i, n) # sl) (free_vars, temp) =
     locate_free sl (if temp n \<noteq> 0 then (free_vars @ [n], temp(n := 0)) else (free_vars, temp))"

text \<open>The function object after \<^verbatim>\<open>init\<close>, as far as the evaluator uses it.\<close>

record 'a SXFunctionInternal =
  algorithm :: "'a SXAlgEl list"
  worksize :: nat
  free_vars :: "nat list"
  constants :: "nat list"
  operations :: "nat list"
  temp_after :: "nat \<Rightarrow> int"

definition nodes_of :: "nat option list \<Rightarrow> nat list" where
  "nodes_of nodes = concat (map (\<lambda>t. case t of None \<Rightarrow> [] | Some n \<Rightarrow> [n]) nodes)"

definition init ::
  "'a::zero graph \<Rightarrow> nat list list \<Rightarrow> nat list list \<Rightarrow> bool \<Rightarrow> (nat \<Rightarrow> int)
     \<Rightarrow> 'a SXFunctionInternal option" where
  "init g inputv outputv live_variables temp0 =
     (case sort_outputs g (concat outputv) [] temp0 of
        None \<Rightarrow> None
      | Some (nodes0, temp1) \<Rightarrow>
          (let nodes = add_inputs temp1 (concat inputv) nodes0;
               temp2 = set_temp_index nodes 0 temp1
           in case build_loop g outputv temp2 nodes
                  \<lparr>bs_algorithm = [], bs_symb_loc = [],
                   bs_curr_oind = skip_empty_from outputv 0, bs_curr_nz = 0,
                   bs_refcount = replicate (length nodes) 0\<rparr> of
                None \<Rightarrow> None
              | Some bs \<Rightarrow>
                  (let (alg1, st) =
                         alloc_loop live_variables (bs_algorithm bs)
                           \<lparr>as_refcount = bs_refcount bs,
                            as_place = replicate (length nodes) 0,
                            as_unused = [], as_worksize = 0\<rparr>;
                       temp3 = mark_symb_loc (bs_symb_loc bs) (reset_temp nodes temp2);
                       (alg2, temp4) = input_instructions 0 inputv (alg1, temp3);
                       (fv, temp5) = locate_free (bs_symb_loc bs) ([], temp4)
                   in Some \<lparr>algorithm = alg2, worksize = as_worksize st, free_vars = fv,
                            constants = filter (\<lambda>n. isConstant (g ! n)) (nodes_of nodes),
                            operations = filter (\<lambda>n. \<not> isConstant (g ! n) \<and> \<not> isSymbolic (g ! n))
                                           (nodes_of nodes),
                            temp_after = temp5\<rparr>)))"

section \<open>The sweep evaluator: \<^verbatim>\<open>SXFunctionInternal::evaluateGen\<close>\<close>

text \<open>
  The buffers of the function object.  \<open>input_data st ! ind ! nz\<close> is
  \<^verbatim>\<open>inputNoCheck(ind).data()[nz]\<close>; the seed and sensitivity bundles are indexed by
  direction first: \<open>fwdSeed st ! dir ! ind ! nz\<close> is
  \<^verbatim>\<open>fwdSeedNoCheck(ind,dir).data()[nz]\<close>.  \<open>pdwork\<close> is the tape of local
  partial derivatives (\<^verbatim>\<open>TapeEl<double>::d[2]\<close>).  The entries are of an arbitrary
  type with the arithmetic the sweeps use.
\<close>

record 'a FXState =
  work :: "'a list"
  pdwork :: "('a \<times> 'a) list"
  input_data :: "'a list list"
  output_data :: "'a list list"
  fwdSeed :: "'a list list list"
  fwdSens :: "'a list list list"
  adjSeed :: "'a list list list"
  adjSens :: "'a list list list"

definition upd2 :: "'a list list \<Rightarrow> nat \<Rightarrow> nat \<Rightarrow> 'a \<Rightarrow> 'a list list" where
  "upd2 m i j v = m[i := (m ! i)[j := v]]"

definition upd3 :: "'a list list list \<Rightarrow> nat \<Rightarrow> nat \<Rightarrow> nat \<Rightarrow> 'a \<Rightarrow> 'a list list list" where
  "upd3 b dir i j v = b[dir := upd2 (b ! dir) i j v]"

text \<open>
  The built-in operations (\<^verbatim>\<open>CASADI_MATH_FUN_BUILTIN\<close>, \<^verbatim>\<open>CASADI_MATH_DERF_BUILTIN\<close>
  of casadi_math.hpp) are not among the sources; the value pass takes them as
  parameters: \<open>fcn o x y\<close> is the value of operation \<open>o\<close>, \<open>der o x y\<close> its two
  partial derivatives.
\<close>

type_synonym 'a math_fun = "opcode \<Rightarrow> 'a \<Rightarrow> 'a \<Rightarrow> 'a"
type_synonym 'a math_der = "opcode \<Rightarrow> 'a \<Rightarrow> 'a \<Rightarrow> 'a \<times> 'a"

fun is_builtin :: "opcode \<Rightarrow> bool" where
  "is_builtin (OP_UNARY k) = True"
| "is_builtin (OP_BINARY k) = True"
| "is_builtin opc = False"

text \<open>The value pass without taping.\<close>

definition eval_step :: "'a math_fun \<Rightarrow> 'a SXAlgEl \<Rightarrow> 'a FXState \<Rightarrow> 'a FXState" where
  "eval_step fcn it st =
     (case op it of
        OP_CONST \<Rightarrow> st\<lparr>work := (work st)[res it := arg_d it]\<rparr>
      | OP_INPUT \<Rightarrow> st\<lparr>work := (work st)[res it := input_data st ! arg_i0 it ! arg_i1 it]\<rparr>
      | OP_OUTPUT \<Rightarrow> st\<lparr>output_data := upd2 (output_data st) (res it) (arg_i1 it) (work st ! arg_i0 it)\<rparr>
      | OP_PARAMETER \<Rightarrow> st
      | opc \<Rightarrow> st\<lparr>work := (work st)[res it :=
                         fcn opc (work st ! arg_i0 it) (work st ! arg_i1 it)]\<rparr>)"

text \<open>The value pass with taping; \<open>it1\<close> is the position in the tape.\<close>

definition tape_step ::
  "'a math_fun \<Rightarrow> 'a math_der \<Rightarrow> 'a SXAlgEl \<Rightarrow> 'a FXState \<times> nat \<Rightarrow> 'a FXState \<times> nat" where
  "tape_step fcn der it sti =
     (let st = fst sti; it1 = snd sti in
      if is_builtin (op it) then
        (st\<lparr>work := (work st)[res it := fcn (op it) (work st ! arg_i0 it) (work st ! arg_i1 it)],
            pdwork := (pdwork st)[it1 := der (op it) (work st ! arg_i0 it) (work st ! arg_i1 it)]\<rparr>,
         Suc it1)
      else (eval_step fcn it st, it1))"

text \<open>One instruction of a forward sweep; \<open>it2\<close> is the position in the tape.\<close>

definition fwd_step ::
  "nat \<Rightarrow> 'a::{zero,plus,times} SXAlgEl \<Rightarrow> 'a FXState \<times> nat \<Rightarrow> 'a FXState \<times> nat" where
  "fwd_step dir it sti =
     (let st = fst sti; it2 = snd sti in
      case op it of
        OP_CONST \<Rightarrow> (st\<lparr>work := (work st)[res it := 0]\<rparr>, it2)
      | OP_INPUT \<Rightarrow>
          (st\<lparr>work := (work st)[res it := fwdSeed st ! dir ! arg_i0 it ! arg_i1 it]\<rparr>, it2)
      | OP_OUTPUT \<Rightarrow>
          (st\<lparr>fwdSens := upd3 (fwdSens st) dir (res it) (arg_i1 it) (work st ! arg_i0 it)\<rparr>, it2)
      | opc \<Rightarrow>
          (st\<lparr>work := (work st)[res it :=
                  fst (pdwork st ! it2) * (work st ! arg_i0 it)
                  + snd (pdwork st ! it2) * (work st ! arg_i1 it)]\<rparr>, Suc it2))"

definition fwd_sweep :: "'a::{zero,plus,times} SXAlgEl list \<Rightarrow> nat \<Rightarrow> 'a FXState \<Rightarrow> 'a FXState" where
  "fwd_sweep alg dir st = fst (fold (fwd_step dir) alg (st, 0))"

text \<open>
  One instruction of an adjoint sweep.  The tape is read through a reverse iterator:
  \<open>it2\<close> counts the entries already consumed, from the back.
\<close>

definition adj_step ::
  "nat \<Rightarrow> 'a::{zero,plus,times} SXAlgEl \<Rightarrow> 'a FXState \<times> nat \<Rightarrow> 'a FXState \<times> nat" where
  "adj_step dir it sti =
     (let st = fst sti; it2 = snd sti in
      case op it of
        OP_CONST \<Rightarrow> (st\<lparr>work := (work st)[res it := 0]\<rparr>, it2)
      | OP_INPUT \<Rightarrow>
          (st\<lparr>adjSens := upd3 (adjSens st) dir (arg_i0 it) (arg_i1 it) (work st ! res it),
              work := (work st)[res it := 0]\<rparr>, it2)
      | OP_OUTPUT \<Rightarrow>
          (st\<lparr>work := (work st)[arg_i0 it :=
                  work st ! arg_i0 it + adjSeed st ! dir ! res it ! arg_i1 it]\<rparr>, it2)
      | opc \<Rightarrow>
          (let seed = work st ! res it;
               w0 = (work st)[res it := 0];
               w1 = w0[arg_i0 it := w0 ! arg_i0 it + fst (rev (pdwork st) ! it2) * seed];
               w2 = w1[arg_i1 it := w1 ! arg_i1 it + snd (rev (pdwork st) ! it2) * seed]
           in (st\<lparr>work := w2\<rparr>, Suc it2)))"

definition adj_sweep :: "'a::{zero,plus,times} SXAlgEl list \<Rightarrow> nat \<Rightarrow> 'a FXState \<Rightarrow> 'a FXState" where
  "adj_sweep alg dir st = fst (fold (adj_step dir) (rev alg) (st, 0))"

datatype error = FreeVariables "nat list"

definition evaluate ::
  "'a math_fun \<Rightarrow> 'a math_der \<Rightarrow> 'a::{zero,plus,times} SXFunctionInternal \<Rightarrow> nat \<Rightarrow> nat
     \<Rightarrow> 'a FXState \<Rightarrow> error + 'a FXState" where
  "evaluate fcn der f nfdir nadir st =
     (if free_vars f \<noteq> [] then Inl (FreeVariables (free_vars f))
      else
        (let taping = (nfdir > 0 \<or> nadir > 0) in
         if \<not> taping then Inr (fold (eval_step fcn) (algorithm f) st)
         else
           (let st1 = fst (fold (tape_step fcn der) (algorithm f) (st, 0));
                st2 = fold (fwd_sweep (algorithm f)) [0 ..< nfdir] st1;
                st3 = (if nadir > 0 then st2\<lparr>work := replicate (length (work st2)) 0\<rparr> else st2)
            in Inr (fold (adj_sweep (algorithm f)) [0 ..< nadir] st3))))"

section \<open>Sparsity propagation: \<^verbatim>\<open>SXFunctionInternal::spEvaluate\<close>\<close>

text \<open>
  \<^verbatim>\<open>bvec_t\<close> is a 64 bit unsigned integer; the work vector and the input and output
  buffers are read as arrays of such bit vectors.
\<close>

type_synonym bvec_t = "64 word"

record sp_state =
  iwork :: "bvec_t list"
  sp_input :: "bvec_t list list"
  sp_output :: "bvec_t list list"

definition sp_fwd_step :: "'a SXAlgEl \<Rightarrow> sp_state \<Rightarrow> sp_state" where
  "sp_fwd_step it st =
     (case op it of
        OP_CONST \<Rightarrow> st\<lparr>iwork := (iwork st)[res it := 0]\<rparr>
      | OP_PARAMETER \<Rightarrow> st\<lparr>iwork := (iwork st)[res it := 0]\<rparr>
      | OP_INPUT \<Rightarrow> st\<lparr>iwork := (iwork st)[res it := sp_input st ! arg_i0 it ! arg_i1 it]\<rparr>
      | OP_OUTPUT \<Rightarrow>
          st\<lparr>sp_output := upd2 (sp_output st) (res it) (arg_i1 it) (iwork st ! arg_i0 it)\<rparr>
      | opc \<Rightarrow> st\<lparr>iwork := (iwork st)[res it := iwork st ! arg_i0 it OR iwork st ! arg_i1 it]\<rparr>)"

definition sp_adj_step :: "'a SXAlgEl \<Rightarrow> sp_state \<Rightarrow> sp_state" where
  "sp_adj_step it st =
     (case op it of
        OP_CONST \<Rightarrow> st\<lparr>iwork := (iwork st)[res it := 0]\<rparr>
      | OP_PARAMETER \<Rightarrow> st\<lparr>iwork := (iwork st)[res it := 0]\<rparr>
      | OP_INPUT \<Rightarrow>
          st\<lparr>sp_input := upd2 (sp_input st) (arg_i0 it) (arg_i1 it) (iwork st ! res it),
             iwork := (iwork st)[res it := 0]\<rparr>
      | OP_OUTPUT \<Rightarrow>
          st\<lparr>iwork := (iwork st)[arg_i0 it :=
                 iwork st ! arg_i0 it OR sp_output st ! res it ! arg_i1 it]\<rparr>
      | opc \<Rightarrow>
          (let seed = iwork st ! res it;
               w0 = (iwork st)[res it := 0];
               w1 = w0[arg_i0 it := w0 ! arg_i0 it OR seed];
               w2 = w1[arg_i1 it := w1 ! arg_i1 it OR seed]
           in st\<lparr>iwork := w2\<rparr>))"

definition spEvaluate :: "'a SXAlgEl list \<Rightarrow> bool \<Rightarrow> sp_state \<Rightarrow> sp_state" where
  "spEvaluate alg fwd st =
     (if fwd then fold sp_fwd_step alg st else fold sp_adj_step (rev alg) st)"

section \<open>Compression of zero seed directions: \<^verbatim>\<open>FXInternal::evaluateCompressed\<close>\<close>

definition getNumInputs :: "'a FXState \<Rightarrow> nat" where
  "getNumInputs st = length (input_data st)"

definition getNumOutputs :: "'a FXState \<Rightarrow> nat" where
  "getNumOutputs st = length (output_data st)"

text \<open>"Look out for nonzeros": a direction is compressed when every entry of its seeds is zero.\<close>

definition all_zero :: "nat \<Rightarrow> 'a::zero list list \<Rightarrow> bool" where
  "all_zero n seeds = list_all (\<lambda>v. list_all (\<lambda>x. x = 0) v) (take n seeds)"

text \<open>\<^verbatim>\<open>copy(v_old.begin(),v_old.end(),v_new.begin())\<close>.\<close>

definition copy_data :: "'a list \<Rightarrow> 'a list \<Rightarrow> 'a list" where
  "copy_data v_old v_new = v_old @ drop (length v_old) v_new"

definition move_dir :: "nat \<Rightarrow> nat \<Rightarrow> nat \<Rightarrow> 'a list list list \<Rightarrow> 'a list list list" where
  "move_dir n src dst b =
     fold (\<lambda>ind b'. b'[dst := (b' ! dst)[ind := copy_data (b' ! src ! ind) (b' ! dst ! ind)]])
       [0 ..< n] b"

definition set_zero_dir :: "nat \<Rightarrow> nat \<Rightarrow> 'a::zero list list list \<Rightarrow> 'a list list list" where
  "set_zero_dir n dir b =
     fold (\<lambda>ind b'. b'[dir := (b' ! dir)[ind := replicate (length (b' ! dir ! ind)) 0]])
       [0 ..< n] b"

definition compress_step ::
  "nat \<Rightarrow> nat \<Rightarrow> 'a::zero list list list \<times> nat \<times> bool list
     \<Rightarrow> 'a list list list \<times> nat \<times> bool list" where
  "compress_step n dir s =
     (case s of (b, ndir_compressed, compressed) \<Rightarrow>
        (let z = all_zero n (b ! dir); compressed' = compressed[dir := z] in
         if z then (b, ndir_compressed, compressed')
         else ((if dir \<noteq> ndir_compressed then move_dir n dir ndir_compressed b else b),
               Suc ndir_compressed, compressed')))"

definition decompress_step ::
  "nat \<Rightarrow> bool list \<Rightarrow> nat \<Rightarrow> 'a::zero list list list \<times> nat \<Rightarrow> 'a list list list \<times> nat" where
  "decompress_step n compressed dir s =
     (case s of (b, ndir_compressed) \<Rightarrow>
        if compressed ! dir then (set_zero_dir n dir b, ndir_compressed)
        else (let k = ndir_compressed - 1 in
              ((if k \<noteq> dir then move_dir n k dir b else b), k)))"

text \<open>
  \<^verbatim>\<open>evaluate\<close> is a virtual member function; the model takes it as a parameter.
\<close>

definition evaluateCompressed ::
  "(nat \<Rightarrow> nat \<Rightarrow> 'a::zero FXState \<Rightarrow> error + 'a FXState) \<Rightarrow> nat \<Rightarrow> nat \<Rightarrow> 'a FXState
     \<Rightarrow> error + 'a FXState" where
  "evaluateCompressed evaluate_fun nfdir nadir st =
     (case fold (compress_step (getNumInputs st)) [0 ..< nfdir]
             (fwdSeed st, 0, replicate nfdir False) of
        (fseed, nfdir_compressed, compressed_fwd) \<Rightarrow>
     (case fold (compress_step (getNumOutputs st)) [0 ..< nadir]
             (adjSeed st, 0, replicate nadir False) of
        (aseed, nadir_compressed, compressed_adj) \<Rightarrow>
     (case evaluate_fun nfdir_compressed nadir_compressed
             (st\<lparr>fwdSeed := fseed, adjSeed := aseed\<rparr>) of
        Inl e \<Rightarrow> Inl e
      | Inr st' \<Rightarrow>
          Inr (st'\<lparr>fwdSens := fst (fold (decompress_step (getNumOutputs st') compressed_fwd)
                                    (rev [0 ..< nfdir]) (fwdSens st', nfdir_compressed)),
                   adjSens := fst (fold (decompress_step (getNumInputs st') compressed_adj)
                                    (rev [0 ..< nadir]) (adjSens st', nadir_compressed))\<rparr>))))"

section \<open>Adjoint seeds of the Jacobian generator: \<^verbatim>\<open>XFunctionInternal::jacGen\<close>\<close>

text \<open>
  A sparsity pattern in compressed row storage: row offsets and column indices.  Row
  \<open>dir\<close> of the partition \<open>D2\<close> lists the output nonzeros seeded in direction \<open>dir\<close>.
  \<^verbatim>\<open>at(c)\<close> is a checked access.
\<close>

record CRSSparsity =
  rowind :: "nat list"
  col :: "nat list"

definition at_put :: "'a list \<Rightarrow> nat \<Rightarrow> 'a \<Rightarrow> 'a list option" where
  "at_put v c x = (if c < length v then Some (v[c := x]) else None)"

fun aseed_els :: "CRSSparsity \<Rightarrow> nat list \<Rightarrow> 'a::one list \<Rightarrow> 'a list option" where
  "aseed_els D2 [] v = Some v"
| "aseed_els D2 (el # els) v =
     (case at_put v (col D2 ! el) 1 of
        None \<Rightarrow> None
      | Some v' \<Rightarrow> aseed_els D2 els v')"

text \<open>
  The adjoint seeds of direction \<open>dir\<close>: one zero matrix per output (given by the numbers
  of nonzeros of the outputs), then the entries of output \<open>oind\<close> named by the partition.
\<close>

definition aseed_dir ::
  "CRSSparsity \<Rightarrow> nat list \<Rightarrow> nat \<Rightarrow> nat \<Rightarrow> 'a::{zero,one} list list option" where
  "aseed_dir D2 output_sizes oind dir =
     (let aseed = map (\<lambda>n. replicate n 0) output_sizes in
      case aseed_els D2 [rowind D2 ! dir ..< rowind D2 ! Suc dir] (aseed ! oind) of
        None \<Rightarrow> None
      | Some v \<Rightarrow> Some (aseed[oind := v]))"

text \<open>
  The seeding the comment at the assignment asks for
  (\<^verbatim>\<open>// NOTE: should be +=, right?\<close>): every named entry adds one to the seed.
\<close>

fun aseed_els_accumulate :: "CRSSparsity \<Rightarrow> nat list \<Rightarrow> 'a::{one,plus} list \<Rightarrow> 'a list option" where
  "aseed_els_accumulate D2 [] v = Some v"
| "aseed_els_accumulate D2 (el # els) v =
     (if col D2 ! el < length v
      then aseed_els_accumulate D2 els (v[col D2 ! el := v ! (col D2 ! el) + 1])
      else None)"


section \<open>Predicates on algorithms and example graphs\<close>

text \<open>
  An instruction with one operand that is not an output instruction names that operand
  in both operand positions.
\<close>

definition unary_ok :: "'a SXAlgEl \<Rightarrow> bool" where
  "unary_ok e = (ndeps (op e) = 1 \<and> op e \<noteq> OP_OUTPUT \<longrightarrow> arg_i1 e = arg_i0 e)"

text \<open>
  The graph of \<open>x * y + sin x\<close>: nodes 0 and 1 are the symbols \<open>x\<close> and \<open>y\<close>, node
  2 is their product, node 3 a unary operation on \<open>x\<close>, node 4 the sum of 2 and 3.
\<close>

definition graph_xy :: "int graph" where
  "graph_xy = [SymbolicSX ''x'', SymbolicSX ''y'', BinarySX 1 0 1, UnarySX 7 0, BinarySX 0 2 3]"

text \<open>
  The words of the specification for the depth-first order: the number of transitive
  dependencies of a node is the number of distinct nodes that can be reached from it
  through operand references.  In a graph without cycles a path visits fewer nodes than
  the graph has, so following the references \<open>length g\<close> times reaches them all.
\<close>

fun deps_upto :: "'a graph \<Rightarrow> nat \<Rightarrow> nat \<Rightarrow> nat list" where
  "deps_upto g 0 n = []"
| "deps_upto g (Suc k) n =
     concat (map (\<lambda>i. dep (g ! n) i # deps_upto g k (dep (g ! n) i)) [0 ..< ndep (g ! n)])"

definition transitive_deps :: "'a graph \<Rightarrow> nat \<Rightarrow> nat" where
  "transitive_deps g n = length (remdups (deps_upto g (length g) n))"

text \<open>
  A graph whose root (node 7) has two operands: node 2, the sum of two symbols, and
  node 6, a unary operation on the sum (node 5) of two other symbols.
\<close>

definition graph_two_branches :: "int graph" where
  "graph_two_branches =
     [SymbolicSX ''x'', SymbolicSX ''y'', BinarySX 0 0 1,
      SymbolicSX ''p'', SymbolicSX ''q'', BinarySX 0 3 4, UnarySX 7 5,
      BinarySX 0 2 6]"

text \<open>
  The algorithm of a unary operation applied to an input, with the result stored in the
  slot of its operand, as \<^verbatim>\<open>init\<close> produces it with live variables.
\<close>

definition graph_unary :: "int graph" where
  "graph_unary = [SymbolicSX ''x'', UnarySX 7 0]"

definition alg_unary :: "int SXAlgEl list" where
  "alg_unary =
     [\<lparr>op = OP_INPUT, res = 0, arg_d = 0, arg_i0 = 0, arg_i1 = 0\<rparr>,
      \<lparr>op = OP_UNARY 7, res = 0, arg_d = 0, arg_i0 = 0, arg_i1 = 0\<rparr>,
      \<lparr>op = OP_OUTPUT, res = 0, arg_d = 0, arg_i0 = 0, arg_i1 = 0\<rparr>]"

text \<open>
  The invariant of the inner loop of \<^verbatim>\<open>sort_depth_first\<close> after \<open>k\<close> operands:
  either no operand seen so far is unscheduled, or \<open>dep_with_max_deps\<close> is the first
  unscheduled operand with the greatest operand count.
\<close>

definition find_dep_inv :: "'a graph \<Rightarrow> (nat \<Rightarrow> int) \<Rightarrow> nat \<Rightarrow> nat \<Rightarrow> int \<times> int \<Rightarrow> bool" where
  "find_dep_inv g temp t k md =
     ((md = (-1, -1) \<and> (\<forall>j < k. temp (dep (g ! t) j) \<noteq> 0))
      \<or> (0 \<le> snd md \<and> nat (snd md) < k \<and> temp (dep (g ! t) (nat (snd md))) = 0
          \<and> fst md = int (ndep (g ! dep (g ! t) (nat (snd md))))
          \<and> (\<forall>j < k. temp (dep (g ! t) j) = 0
                 \<longrightarrow> ndep (g ! dep (g ! t) j) \<le> ndep (g ! dep (g ! t) (nat (snd md))))
          \<and> (\<forall>j < nat (snd md). temp (dep (g ! t) j) = 0
                 \<longrightarrow> ndep (g ! dep (g ! t) j) < ndep (g ! dep (g ! t) (nat (snd md))))))"

section \<open>Invariants of the linearisation\<close>

text \<open>
  The node list during sorting: a node is in the list exactly when its scratch field is
  set, no node is listed twice, and every operand of a listed node is listed before it.
\<close>

definition stack_ok :: "'a graph \<Rightarrow> nat option list \<Rightarrow> bool" where
  "stack_ok g s = (\<forall>n. Some n \<in> set s \<longrightarrow> n < length g)"

definition sorted_inv :: "'a graph \<Rightarrow> nat option list \<Rightarrow> (nat \<Rightarrow> int) \<Rightarrow> bool" where
  "sorted_inv g nodes temp =
     ((\<forall>n < length g. temp n \<noteq> 0 \<longleftrightarrow> Some n \<in> set nodes)
      \<and> (\<forall>n. Some n \<in> set nodes \<longrightarrow> n < length g)
      \<and> distinct (nodes_of nodes)
      \<and> (\<forall>p < length nodes. \<forall>n. nodes ! p = Some n \<longrightarrow>
            (\<forall>i < ndep (g ! n). \<exists>q < p. nodes ! q = Some (dep (g ! n) i))))"

text \<open>The two components of the termination measure of \<^verbatim>\<open>sort_depth_first\<close>.\<close>

definition unscheduled :: "'a graph \<Rightarrow> (nat \<Rightarrow> int) \<Rightarrow> nat" where
  "unscheduled g temp = card {n. n < length g \<and> temp n = 0}"

fun stack_measure :: "'a graph \<Rightarrow> (nat \<Rightarrow> int) \<Rightarrow> nat option list \<Rightarrow> nat" where
  "stack_measure g temp [] = 0"
| "stack_measure g temp (None # s) = length g + 2 + length s"
| "stack_measure g temp (Some n # s) = (if temp n = 0 then n else length g + 2 + length s)"

text \<open>What a call of \<^verbatim>\<open>sort_depth_first\<close> has done when it returns.\<close>

definition sort_post ::
  "'a graph \<Rightarrow> nat option list \<Rightarrow> nat option list \<Rightarrow> (nat \<Rightarrow> int)
     \<Rightarrow> nat option list \<Rightarrow> (nat \<Rightarrow> int) \<Rightarrow> bool" where
  "sort_post g s nodes temp nodes' temp' =
     (sorted_inv g nodes' temp'
      \<and> (\<exists>extra. nodes' = nodes @ map Some extra)
      \<and> (\<forall>n. Some n \<in> set s \<longrightarrow> temp' n \<noteq> 0))"

text \<open>
  The declared function: the graph has no cycle, the inputs are distinct symbols of the
  graph (the constructor rejects anything else) and the outputs are nodes of the graph.
\<close>

definition function_ok :: "'a graph \<Rightarrow> nat list list \<Rightarrow> nat list list \<Rightarrow> bool" where
  "function_ok g inputv outputv =
     (wf_graph g
      \<and> list_all (\<lambda>x. x < length g \<and> isSymbolic (g ! x)) (concat inputv)
      \<and> distinct (concat inputv)
      \<and> list_all (\<lambda>x. x < length g) (concat outputv))"

definition count_null :: "nat option list \<Rightarrow> nat" where
  "count_null ns = length (filter (\<lambda>t. t = None) ns)"

text \<open>
  The null pointers of the node list stand for the output entries in their order, and
  the node of an output entry is listed before its null pointer.
\<close>

definition outputs_placed :: "nat option list \<Rightarrow> nat list \<Rightarrow> bool" where
  "outputs_placed nodes outs =
     (count_null nodes = length outs
      \<and> (\<forall>p < length nodes. nodes ! p = None \<longrightarrow>
            (\<exists>q < p. nodes ! q = Some (outs ! count_null (take p nodes)))))"

definition nodes_ok :: "'a graph \<Rightarrow> nat option list \<Rightarrow> bool" where
  "nodes_ok g nodes =
     ((\<forall>n. Some n \<in> set nodes \<longrightarrow> n < length g)
      \<and> distinct (nodes_of nodes)
      \<and> (\<forall>p < length nodes. \<forall>n. nodes ! p = Some n \<longrightarrow>
            (\<forall>i < ndep (g ! n). \<exists>q < p. nodes ! q = Some (dep (g ! n) i))))"

text \<open>
  The output cursor \<^verbatim>\<open>(curr_oind, curr_nz)\<close> stands before the \<open>k\<close>-th output entry,
  counted over all outputs in order.
\<close>

definition cursor_ok :: "nat list list \<Rightarrow> nat \<Rightarrow> nat \<Rightarrow> nat \<Rightarrow> bool" where
  "cursor_ok outputv oind nz k =
     (oind \<le> length outputv
      \<and> k = length (concat (take oind outputv)) + nz
      \<and> (if oind < length outputv then nz < length (outputv ! oind) else nz = 0))"

text \<open>
  The instruction emitted for position \<open>p\<close> of the node list, before slot allocation:
  results and operands are named by their position in the list.
\<close>

definition instr_ok :: "'a::zero graph \<Rightarrow> nat list list \<Rightarrow> nat option list \<Rightarrow> nat \<Rightarrow> 'a SXAlgEl \<Rightarrow> bool" where
  "instr_ok g outputv nodes p e =
     (case nodes ! p of
        Some n \<Rightarrow>
          op e = getOp (g ! n) \<and> res e = p
          \<and> (\<forall>c < ndep (g ! n). arg_i e c < p \<and> nodes ! arg_i e c = Some (dep (g ! n) c))
      | None \<Rightarrow>
          op e = OP_OUTPUT \<and> arg_i0 e < p
          \<and> nodes ! arg_i0 e = Some (concat outputv ! count_null (take p nodes))
          \<and> res e < length outputv
          \<and> cursor_ok outputv (res e) (arg_i1 e) (count_null (take p nodes)))"

definition temp_pos :: "nat option list \<Rightarrow> (nat \<Rightarrow> int) \<Rightarrow> bool" where
  "temp_pos nodes temp = (\<forall>p < length nodes. \<forall>n. nodes ! p = Some n \<longrightarrow> temp n = int p)"

definition build_inv ::
  "'a::zero graph \<Rightarrow> nat list list \<Rightarrow> nat option list \<Rightarrow> nat option list \<Rightarrow> 'a build_state \<Rightarrow> bool" where
  "build_inv g outputv nodes done bs =
     (length (bs_algorithm bs) = length done
      \<and> cursor_ok outputv (bs_curr_oind bs) (bs_curr_nz bs) (count_null done)
      \<and> (\<forall>p < length done. instr_ok g outputv nodes p (bs_algorithm bs ! p))
      \<and> (\<forall>i n. (i, n) \<in> set (bs_symb_loc bs)
            \<longrightarrow> i < length done \<and> nodes ! i = Some n \<and> isSymbolic (g ! n))
      \<and> (\<forall>p < length done. \<forall>n. nodes ! p = Some n \<and> isSymbolic (g ! n)
            \<longrightarrow> (p, n) \<in> set (bs_symb_loc bs))
      \<and> distinct (map snd (bs_symb_loc bs)))"

text \<open>
  Before slot allocation every result is named by the position of its instruction and
  every operand by the position of an earlier instruction that is not an output
  instruction.
\<close>

definition pos_ok :: "'a SXAlgEl list \<Rightarrow> bool" where
  "pos_ok alg0 =
     (\<forall>p < length alg0.
        (op (alg0 ! p) \<noteq> OP_OUTPUT \<longrightarrow> res (alg0 ! p) = p)
        \<and> (\<forall>c < ndeps (op (alg0 ! p)).
              arg_i (alg0 ! p) c < p \<and> op (alg0 ! arg_i (alg0 ! p) c) \<noteq> OP_OUTPUT))"

text \<open>
  The slot allocation after \<open>k\<close> instructions: \<open>xs\<close> are the instructions already
  rewritten, \<open>st\<close> is the state of the allocation.
\<close>

definition alloc_inv :: "'a SXAlgEl list \<Rightarrow> nat \<Rightarrow> 'a SXAlgEl list \<Rightarrow> alloc_state \<Rightarrow> bool" where
  "alloc_inv alg0 k xs st =
     (length xs = k \<and> length alg0 \<le> length (as_place st)
      \<and> (\<forall>q < k. op (xs ! q) = op (alg0 ! q))
      \<and> (\<forall>q < k. op (alg0 ! q) \<noteq> OP_OUTPUT \<longrightarrow>
            as_place st ! q = res (xs ! q) \<and> res (xs ! q) < as_worksize st)
      \<and> (\<forall>q < k. op (alg0 ! q) = OP_OUTPUT \<longrightarrow>
            res (xs ! q) = res (alg0 ! q) \<and> arg_i1 (xs ! q) = arg_i1 (alg0 ! q))
      \<and> (\<forall>q < k. \<forall>c < ndeps (op (alg0 ! q)). arg_i (xs ! q) c = res (xs ! arg_i (alg0 ! q) c))
      \<and> (\<forall>q < k. unary_ok (xs ! q))
      \<and> (\<forall>s \<in> set (as_unused st). s < as_worksize st)
      \<and> (\<forall>s < as_worksize st. \<exists>q < k. op (alg0 ! q) \<noteq> OP_OUTPUT \<and> res (xs ! q) = s))"

text \<open>
  Marking the inputs: \<open>alg1\<close> is the algorithm after slot allocation, \<open>sl\<close> the list
  of symbols with their positions, \<open>N\<close> the number of nodes of the graph.  An instruction is either unchanged or a symbol
  turned into an input instruction with the same result slot; a symbol whose scratch
  field is still set has not been turned into an input, and a symbol of the list whose
  scratch field is cleared has.
\<close>

definition mark_inv ::
  "nat \<Rightarrow> (nat \<times> nat) list \<Rightarrow> 'a SXAlgEl list \<Rightarrow> 'a SXAlgEl list \<Rightarrow> (nat \<Rightarrow> int) \<Rightarrow> bool" where
  "mark_inv N sl alg1 alg temp =
     (length alg = length alg1
      \<and> (\<forall>p < length alg1. alg ! p = alg1 ! p
            \<or> (op (alg1 ! p) = OP_PARAMETER \<and> op (alg ! p) = OP_INPUT
                \<and> res (alg ! p) = res (alg1 ! p)))
      \<and> (\<forall>n < N. temp n \<noteq> 0 \<longrightarrow> (\<exists>i. (i, n) \<in> set sl \<and> temp n = int i + 1 \<and> alg ! i = alg1 ! i))
      \<and> (\<forall>i n. (i, n) \<in> set sl \<and> temp n = 0 \<longrightarrow> op (alg ! i) = OP_INPUT))"

text \<open>The list of symbols names every symbol instruction once.\<close>

definition symb_loc_ok :: "(nat \<times> nat) list \<Rightarrow> 'a SXAlgEl list \<Rightarrow> bool" where
  "symb_loc_ok sl alg1 =
     (distinct (map snd sl)
      \<and> (\<forall>i n m. (i, n) \<in> set sl \<and> (i, m) \<in> set sl \<longrightarrow> n = m)
      \<and> (\<forall>i n. (i, n) \<in> set sl \<longrightarrow> i < length alg1 \<and> op (alg1 ! i) = OP_PARAMETER)
      \<and> (\<forall>p < length alg1. op (alg1 ! p) = OP_PARAMETER \<longrightarrow> (\<exists>n. (p, n) \<in> set sl)))"

text \<open>
  The nodes that can be reached from the outputs through operand references.
\<close>

inductive_set reachable :: "'a graph \<Rightarrow> nat list \<Rightarrow> nat set" for g :: "'a graph" and roots :: "nat list" where
  root: "x \<in> set roots \<Longrightarrow> x \<in> reachable g roots"
| operand: "n \<in> reachable g roots \<Longrightarrow> i < ndep (g ! n) \<Longrightarrow> dep (g ! n) i \<in> reachable g roots"

text \<open>
  Well-formed algorithms: every operand slot of an instruction is the result slot of a
  strictly earlier instruction that is not an output instruction, unary instructions
  repeat their operand, and the work vector consists exactly of the result slots.
\<close>

definition alg_wf :: "'a SXAlgEl list \<Rightarrow> nat \<Rightarrow> bool" where
  "alg_wf alg ws =
     ((\<forall>p < length alg. \<forall>c < ndeps (op (alg ! p)).
         \<exists>q < p. op (alg ! q) \<noteq> OP_OUTPUT \<and> res (alg ! q) = arg_i (alg ! p) c)
      \<and> (\<forall>p < length alg. unary_ok (alg ! p))
      \<and> (\<forall>p < length alg. op (alg ! p) \<noteq> OP_OUTPUT \<longrightarrow> res (alg ! p) < ws)
      \<and> (\<forall>s < ws. \<exists>q < length alg. op (alg ! q) \<noteq> OP_OUTPUT \<and> res (alg ! q) = s))"

text \<open>
  Buffers for the function \<open>x * y + sin x\<close> of \<open>graph_xy\<close>: inputs \<open>x = 2\<close>,
  \<open>y = 3\<close>, a tape of three entries, and room for two forward and two adjoint
  directions.  The work vector holds values left over from an earlier pass.
\<close>

definition state_xy :: "int FXState" where
  "state_xy =
     \<lparr>work = [7, 9], pdwork = [(3, 2), (5, 0), (1, 1)],
      input_data = [[2], [3]], output_data = [[0]],
      fwdSeed = [[[1], [0]], [[0], [0]]], fwdSens = [[[0]], [[0]]],
      adjSeed = [[[1]], [[0]]], adjSens = [[[0], [0]], [[0], [0]]]\<rparr>"

text \<open>
  The instructions of \<open>graph_unary\<close> before slot allocation (results and operands
  named by position), and the allocation state at the start of the loop: use counts
  1, 1, 0.
\<close>

definition alg0_unary :: "int SXAlgEl list" where
  "alg0_unary =
     [\<lparr>op = OP_PARAMETER, res = 0, arg_d = 0, arg_i0 = 0, arg_i1 = 0\<rparr>,
      \<lparr>op = OP_UNARY 7, res = 1, arg_d = 0, arg_i0 = 0, arg_i1 = 0\<rparr>,
      \<lparr>op = OP_OUTPUT, res = 0, arg_d = 0, arg_i0 = 1, arg_i1 = 0\<rparr>]"

definition alloc0_unary :: alloc_state where
  "alloc0_unary = \<lparr>as_refcount = [1, 1, 0], as_place = [0, 0, 0], as_unused = [], as_worksize = 0\<rparr>"

text \<open>
  Output and input instructions against the shapes of the function (the numbers of
  nonzeros of each output, of each input): every output instruction names an entry of
  an output, no two name the same entry, and every entry is named; likewise for the
  input instructions.
\<close>

definition outputs_ok :: "'a SXAlgEl list \<Rightarrow> nat list \<Rightarrow> bool" where
  "outputs_ok alg osz =
     ((\<forall>p < length alg. op (alg ! p) = OP_OUTPUT \<longrightarrow>
         res (alg ! p) < length osz \<and> arg_i1 (alg ! p) < osz ! res (alg ! p))
      \<and> (\<forall>p < length alg. \<forall>q < length alg.
            op (alg ! p) = OP_OUTPUT \<and> op (alg ! q) = OP_OUTPUT
            \<and> res (alg ! p) = res (alg ! q) \<and> arg_i1 (alg ! p) = arg_i1 (alg ! q) \<longrightarrow> p = q)
      \<and> (\<forall>oind < length osz. \<forall>nz < osz ! oind.
            \<exists>p < length alg. op (alg ! p) = OP_OUTPUT \<and> res (alg ! p) = oind \<and> arg_i1 (alg ! p) = nz))"

definition inputs_ok :: "'a SXAlgEl list \<Rightarrow> nat list \<Rightarrow> bool" where
  "inputs_ok alg isz =
     ((\<forall>p < length alg. op (alg ! p) = OP_INPUT \<longrightarrow>
         arg_i0 (alg ! p) < length isz \<and> arg_i1 (alg ! p) < isz ! arg_i0 (alg ! p))
      \<and> (\<forall>p < length alg. \<forall>q < length alg.
            op (alg ! p) = OP_INPUT \<and> op (alg ! q) = OP_INPUT
            \<and> arg_i0 (alg ! p) = arg_i0 (alg ! q) \<and> arg_i1 (alg ! p) = arg_i1 (alg ! q) \<longrightarrow> p = q)
      \<and> (\<forall>ind < length isz. \<forall>nz < isz ! ind.
            \<exists>p < length alg. op (alg ! p) = OP_INPUT \<and> arg_i0 (alg ! p) = ind \<and> arg_i1 (alg ! p) = nz))"

text \<open>
  The input loop of \<^verbatim>\<open>init\<close> as one pass over the inputs with their locations
  (input index, nonzero index, node).
\<close>

definition input_step ::
  "nat \<times> nat \<times> nat \<Rightarrow> 'a SXAlgEl list \<times> (nat \<Rightarrow> int) \<Rightarrow> 'a SXAlgEl list \<times> (nat \<Rightarrow> int)" where
  "input_step l st =
     (case l of (ind, nz, n) \<Rightarrow>
        (let i = snd st n - 1 in
         if i \<ge> 0 then
           ((fst st)[nat i := (fst st ! nat i)\<lparr>op := OP_INPUT, arg_i0 := ind, arg_i1 := nz\<rparr>],
            (snd st)(n := 0))
         else st))"

definition located_row :: "nat \<Rightarrow> nat \<Rightarrow> nat list \<Rightarrow> (nat \<times> nat \<times> nat) list" where
  "located_row ind nz ns = map (\<lambda>(j, n). (ind, j, n)) (zip [nz ..< nz + length ns] ns)"

fun located :: "nat \<Rightarrow> nat list list \<Rightarrow> (nat \<times> nat \<times> nat) list" where
  "located ind [] = []"
| "located ind (row # rows) = located_row ind 0 row @ located (Suc ind) rows"

text \<open>
  One sweep of one direction, as a function of the tape, the seeds of the direction and
  the triple (work vector, sensitivities of the direction, position in the tape).
  \<open>fwd_step\<close> and \<open>adj_step\<close> act on the buffers of the function in exactly this way.
\<close>

definition fwd_dir_step ::
  "('a \<times> 'a) list \<Rightarrow> 'a list list \<Rightarrow> 'a::{zero,plus,times} SXAlgEl
     \<Rightarrow> 'a list \<times> 'a list list \<times> nat \<Rightarrow> 'a list \<times> 'a list list \<times> nat" where
  "fwd_dir_step tape seed it s =
     (case s of (w, sens, it2) \<Rightarrow>
        (case op it of
           OP_CONST \<Rightarrow> (w[res it := 0], sens, it2)
         | OP_INPUT \<Rightarrow> (w[res it := seed ! arg_i0 it ! arg_i1 it], sens, it2)
         | OP_OUTPUT \<Rightarrow> (w, upd2 sens (res it) (arg_i1 it) (w ! arg_i0 it), it2)
         | opc \<Rightarrow>
             (w[res it := fst (tape ! it2) * (w ! arg_i0 it) + snd (tape ! it2) * (w ! arg_i1 it)],
              sens, Suc it2)))"

definition adj_dir_step ::
  "('a \<times> 'a) list \<Rightarrow> 'a list list \<Rightarrow> 'a::{zero,plus,times} SXAlgEl
     \<Rightarrow> 'a list \<times> 'a list list \<times> nat \<Rightarrow> 'a list \<times> 'a list list \<times> nat" where
  "adj_dir_step tape seed it s =
     (case s of (w, sens, it2) \<Rightarrow>
        (case op it of
           OP_CONST \<Rightarrow> (w[res it := 0], sens, it2)
         | OP_INPUT \<Rightarrow> (w[res it := 0], upd2 sens (arg_i0 it) (arg_i1 it) (w ! res it), it2)
         | OP_OUTPUT \<Rightarrow> (w[arg_i0 it := w ! arg_i0 it + seed ! res it ! arg_i1 it], sens, it2)
         | opc \<Rightarrow>
             (let sd = w ! res it;
                  w0 = w[res it := 0];
                  w1 = w0[arg_i0 it := w0 ! arg_i0 it + fst (rev tape ! it2) * sd];
                  w2 = w1[arg_i1 it := w1 ! arg_i1 it + snd (rev tape ! it2) * sd]
              in (w2, sens, Suc it2))))"

text \<open>The bundle of zeros of a given shape (the number of nonzeros of each matrix).\<close>

definition zero_bundle :: "nat list \<Rightarrow> 'a::zero list list" where
  "zero_bundle sz = map (\<lambda>n. replicate n 0) sz"

text \<open>
  The sensitivities a forward and an adjoint sweep compute from a tape and the seeds of
  one direction, started from cleared buffers.
\<close>

definition fwd_sens_of ::
  "'a::{zero,plus,times} SXAlgEl list \<Rightarrow> nat \<Rightarrow> nat list \<Rightarrow> ('a \<times> 'a) list \<Rightarrow> 'a list list
     \<Rightarrow> 'a list list" where
  "fwd_sens_of alg ws osz tape seed =
     fst (snd (fold (fwd_dir_step tape seed) alg (replicate ws 0, zero_bundle osz, 0)))"

definition adj_sens_of ::
  "'a::{zero,plus,times} SXAlgEl list \<Rightarrow> nat \<Rightarrow> nat list \<Rightarrow> ('a \<times> 'a) list \<Rightarrow> 'a list list
     \<Rightarrow> 'a list list" where
  "adj_sens_of alg ws isz tape seed =
     fst (snd (fold (adj_dir_step tape seed) (rev alg) (replicate ws 0, zero_bundle isz, 0)))"

text \<open>
  The buffers of a function with inputs of shape \<open>isz\<close>, outputs of shape \<open>osz\<close> and a
  work vector of \<open>ws\<close> entries, allocated for at least \<open>nfdir\<close> forward and \<open>nadir\<close>
  adjoint directions.
\<close>

definition buffers_ok :: "nat list \<Rightarrow> nat list \<Rightarrow> nat \<Rightarrow> nat \<Rightarrow> nat \<Rightarrow> 'a FXState \<Rightarrow> bool" where
  "buffers_ok isz osz ws nfdir nadir st =
     (length (work st) = ws
      \<and> length (input_data st) = length isz \<and> length (output_data st) = length osz
      \<and> nfdir \<le> length (fwdSeed st) \<and> nfdir \<le> length (fwdSens st)
      \<and> nadir \<le> length (adjSeed st) \<and> nadir \<le> length (adjSens st)
      \<and> list_all (\<lambda>b. map length b = isz) (take nfdir (fwdSeed st))
      \<and> list_all (\<lambda>b. map length b = osz) (take nfdir (fwdSens st))
      \<and> list_all (\<lambda>b. map length b = osz) (take nadir (adjSeed st))
      \<and> list_all (\<lambda>b. map length b = isz) (take nadir (adjSens st)))"

text \<open>
  The inner product of two bundles of the same shape, and the number of instructions
  that consume an entry of the tape.
\<close>

definition dot :: "'a::{zero,plus,times} list \<Rightarrow> 'a list \<Rightarrow> 'a" where
  "dot xs ys = foldr (\<lambda>p acc. fst p * snd p + acc) (zip xs ys) 0"

definition dot2 :: "'a::{zero,plus,times} list list \<Rightarrow> 'a list list \<Rightarrow> 'a" where
  "dot2 a b = foldr (\<lambda>p acc. dot (fst p) (snd p) + acc) (zip a b) 0"

definition n_builtin :: "'a SXAlgEl list \<Rightarrow> nat" where
  "n_builtin alg = length (filter (\<lambda>e. is_builtin (op e)) alg)"

text \<open>
  For the proof of the duality: the inner product of two work vectors, the entries of a
  shape, the output entries written and the input entries read by a list of
  instructions, and the inner product of two bundles over a set of entries.
\<close>

definition vdot :: "nat \<Rightarrow> 'a::semiring_0 list \<Rightarrow> 'a list \<Rightarrow> 'a" where
  "vdot ws a w = (\<Sum>s < ws. a ! s * w ! s)"

definition entries :: "nat list \<Rightarrow> (nat \<times> nat) set" where
  "entries sz = (SIGMA i : {..< length sz}. {..< sz ! i})"

definition out_entries :: "'a SXAlgEl list \<Rightarrow> (nat \<times> nat) set" where
  "out_entries L = (\<lambda>e. (res e, arg_i1 e)) ` {e \<in> set L. op e = OP_OUTPUT}"

definition in_entries :: "'a SXAlgEl list \<Rightarrow> (nat \<times> nat) set" where
  "in_entries L = (\<lambda>e. (arg_i0 e, arg_i1 e)) ` {e \<in> set L. op e = OP_INPUT}"

definition bsum :: "(nat \<times> nat) set \<Rightarrow> 'a::semiring_0 list list \<Rightarrow> 'a list list \<Rightarrow> 'a" where
  "bsum S a b = (\<Sum>p \<in> S. a ! fst p ! snd p * b ! fst p ! snd p)"

text \<open>
  The instructions of \<open>graph_xy\<close> before slot allocation, and the allocation state at
  the start of the loop: \<open>x\<close> is used twice, every other node once.
\<close>

definition alg0_xy :: "int SXAlgEl list" where
  "alg0_xy =
     [\<lparr>op = OP_PARAMETER, res = 0, arg_d = 0, arg_i0 = 0, arg_i1 = 0\<rparr>,
      \<lparr>op = OP_PARAMETER, res = 1, arg_d = 0, arg_i0 = 0, arg_i1 = 0\<rparr>,
      \<lparr>op = OP_BINARY 1, res = 2, arg_d = 0, arg_i0 = 0, arg_i1 = 1\<rparr>,
      \<lparr>op = OP_UNARY 7, res = 3, arg_d = 0, arg_i0 = 0, arg_i1 = 0\<rparr>,
      \<lparr>op = OP_BINARY 0, res = 4, arg_d = 0, arg_i0 = 2, arg_i1 = 3\<rparr>,
      \<lparr>op = OP_OUTPUT, res = 0, arg_d = 0, arg_i0 = 4, arg_i1 = 0\<rparr>]"

definition alloc0_xy :: alloc_state where
  "alloc0_xy = \<lparr>as_refcount = [2, 1, 1, 1, 1, 0], as_place = [0, 0, 0, 0, 0, 0],
                as_unused = [], as_worksize = 0\<rparr>"

section \<open>Entries with the special values of IEEE 754\<close>

text \<open>
  The entries of the buffers are \<^verbatim>\<open>double\<close>s.  The type \<open>ieee\<close> keeps what matters
  where a zero seed meets a local partial that is not finite: finite values (exact
  integers here; rounding is not modelled), the two infinities and NaN, with the sums
  and products IEEE 754 gives them; in particular \<open>0 * \<infinity>\<close> is NaN.
\<close>

datatype ieee = Fin int | PInf | NInf | NaN

instantiation ieee :: "{zero, plus, times}"
begin

definition zero_ieee :: ieee where
  "zero_ieee = Fin 0"

fun plus_ieee :: "ieee \<Rightarrow> ieee \<Rightarrow> ieee" where
  "plus_ieee NaN y = NaN"
| "plus_ieee x NaN = NaN"
| "plus_ieee PInf NInf = NaN"
| "plus_ieee NInf PInf = NaN"
| "plus_ieee PInf y = PInf"
| "plus_ieee x PInf = PInf"
| "plus_ieee NInf y = NInf"
| "plus_ieee x NInf = NInf"
| "plus_ieee (Fin a) (Fin b) = Fin (a + b)"

fun times_ieee :: "ieee \<Rightarrow> ieee \<Rightarrow> ieee" where
  "times_ieee NaN y = NaN"
| "times_ieee x NaN = NaN"
| "times_ieee (Fin a) (Fin b) = Fin (a * b)"
| "times_ieee (Fin a) PInf = (if a = 0 then NaN else if 0 < a then PInf else NInf)"
| "times_ieee (Fin a) NInf = (if a = 0 then NaN else if 0 < a then NInf else PInf)"
| "times_ieee PInf (Fin b) = (if b = 0 then NaN else if 0 < b then PInf else NInf)"
| "times_ieee NInf (Fin b) = (if b = 0 then NaN else if 0 < b then NInf else PInf)"
| "times_ieee PInf PInf = PInf"
| "times_ieee PInf NInf = NInf"
| "times_ieee NInf PInf = NInf"
| "times_ieee NInf NInf = PInf"

instance ..

end

text \<open>
  The function \<open>x * y\<close> with entries of type \<open>ieee\<close>, and its buffers for the input
  \<open>x = 2\<close> and a given \<open>y\<close>: a tape of one entry, two forward directions, of which the
  second has all-zero seeds, and one adjoint direction with all-zero seeds.
\<close>

definition graph_prod :: "ieee graph" where
  "graph_prod = [SymbolicSX ''x'', SymbolicSX ''y'', BinarySX 1 0 1]"

definition state_prod :: "ieee \<Rightarrow> ieee FXState" where
  "state_prod y =
     \<lparr>work = [0, 0], pdwork = [(0, 0)],
      input_data = [[Fin 2], [y]], output_data = [[0]],
      fwdSeed = [[[Fin 1], [0]], [[0], [0]]], fwdSens = [[[0]], [[0]]],
      adjSeed = [[[0]]], adjSens = [[[0], [0]]]\<rparr>"

text \<open>
  The product as a built-in operation: its value and its two partial derivatives.
\<close>

definition fcn_prod :: "ieee math_fun" where
  "fcn_prod opc x y = x * y"

definition der_prod :: "ieee math_der" where
  "der_prod opc x y = (y, x)"


text \<open>
  The function \<open>(x1 * x2) * z\<close> with entries of type \<open>ieee\<close>, and its buffers for
  the inputs \<open>x1 = -1\<close>, \<open>x2 = 2\<close> and a given \<open>z\<close>: a tape of two entries, one forward
  direction with the seeds \<open>(1, 1, 0)\<close> and one adjoint direction with the seed \<open>1\<close>.
\<close>

definition graph_prod3 :: "ieee graph" where
  "graph_prod3 =
     [SymbolicSX ''x1'', SymbolicSX ''x2'', SymbolicSX ''z'', BinarySX 1 0 1, BinarySX 1 3 2]"

definition state_prod3 :: "ieee \<Rightarrow> ieee FXState" where
  "state_prod3 z =
     \<lparr>work = [0, 0], pdwork = [(0, 0), (0, 0)],
      input_data = [[Fin (- 1)], [Fin 2], [z]], output_data = [[0]],
      fwdSeed = [[[Fin 1], [Fin 1], [0]]], fwdSens = [[[0]]],
      adjSeed = [[[Fin 1]]], adjSens = [[[0], [0], [0]]]\<rparr>"

(* PROOFS *)

section \<open>The second operand of unary instructions\<close>

lemma op_save_children [simp]: "op (save_children place e) = op e"
proof -
  have "\<And>e'. op (fold (\<lambda>c e'. set_arg_i c (place ! arg_i e' c) e') cs e') = op e'" for cs
    by (induction cs) (auto simp: set_arg_i_def)
  then show ?thesis by (simp add: save_children_def)
qed

lemma op_find_place [simp]: "op (fst (find_place live e st)) = op e"
  by (simp add: find_place_def)

lemma unary_ok_make_binary: "unary_ok (make_binary e)"
  by (auto simp: unary_ok_def make_binary_def)

lemma unary_ok_alloc_step: "unary_ok (fst (alloc_step live e st))"
  by (simp add: alloc_step_def Let_def split: prod.splits) (simp add: unary_ok_make_binary)

lemma unary_ok_alloc_loop: "\<forall>e \<in> set (fst (alloc_loop live es st)). unary_ok e"
proof (induction es arbitrary: st)
  case Nil
  then show ?case by simp
next
  case (Cons e es)
  obtain e' st' where s: "alloc_step live e st = (e', st')" by (cases "alloc_step live e st")
  obtain es' st'' where l: "alloc_loop live es st' = (es', st'')" by (cases "alloc_loop live es st'")
  have "unary_ok e'" using unary_ok_alloc_step [of live e st] s by simp
  moreover have "\<forall>x \<in> set es'. unary_ok x" using Cons.IH [of st'] l by simp
  ultimately show ?case using s l by simp
qed

lemma unary_ok_input_row:
  "\<forall>e \<in> set (fst st). unary_ok e \<Longrightarrow> \<forall>e \<in> set (fst (input_row ind nz ns st)). unary_ok e"
proof (induction ns arbitrary: nz st)
  case Nil
  then show ?case by simp
next
  case (Cons n ns)
  obtain alg temp where st: "st = (alg, temp)" by (cases st)
  have a: "\<forall>e \<in> set alg. unary_ok e" using Cons.prems st by simp
  have "\<forall>e \<in> set (alg[k := (alg ! k)\<lparr>op := OP_INPUT, arg_i0 := ind, arg_i1 := nz\<rparr>]). unary_ok e" for k
  proof
    fix e assume "e \<in> set (alg[k := (alg ! k)\<lparr>op := OP_INPUT, arg_i0 := ind, arg_i1 := nz\<rparr>])"
    then have "e \<in> insert ((alg ! k)\<lparr>op := OP_INPUT, arg_i0 := ind, arg_i1 := nz\<rparr>) (set alg)"
      using set_update_subset_insert by fastforce
    then show "unary_ok e" using a by (auto simp: unary_ok_def)
  qed
  then show ?case using a st by (auto simp: Let_def intro!: Cons.IH)
qed

lemma unary_ok_input_instructions:
  "\<forall>e \<in> set (fst st). unary_ok e \<Longrightarrow> \<forall>e \<in> set (fst (input_instructions ind rows st)). unary_ok e"
proof (induction rows arbitrary: ind st)
  case Nil
  then show ?case by simp
next
  case (Cons row rows)
  have "\<forall>e \<in> set (fst (input_row ind 0 row st)). unary_ok e"
    using Cons.prems by (rule unary_ok_input_row)
  then show ?case using Cons.IH by simp
qed

lemma init_algorithm_eq:
  "init g inputv outputv live temp0 = Some f \<Longrightarrow>
   \<exists>es st temp. algorithm f = fst (input_instructions 0 inputv (fst (alloc_loop live es st), temp))"
  unfolding init_def
  by (auto simp: Let_def split: option.splits prod.splits) (metis fst_conv)

text \<open>
  Claim C10.  After \<^verbatim>\<open>init\<close>, every instruction of the algorithm whose operation has
  exactly one operand and that is not an output instruction has its second operand slot
  equal to its first; the forward sweep, which computes
  \<^verbatim>\<open>d[0]*work[arg[0]] + d[1]*work[arg[1]]\<close> for every such instruction, therefore reads
  the one operand of a unary operation in both places.
\<close>

theorem init_unary_second_operand:
  assumes "init g inputv outputv live_variables temp0 = Some f"
      and "e \<in> set (algorithm f)" and "ndeps (op e) = 1" and "op e \<noteq> OP_OUTPUT"
  shows "arg_i1 e = arg_i0 e \<and>
         work (fst (fwd_step dir e (st, it2))) =
           (work st)[res e := fst (pdwork st ! it2) * (work st ! arg_i0 e)
                              + snd (pdwork st ! it2) * (work st ! arg_i0 e)]"
proof -
  obtain es ast temp where
    a: "algorithm f = fst (input_instructions 0 inputv (fst (alloc_loop live_variables es ast), temp))"
    using init_algorithm_eq [OF assms(1)] by blast
  have "\<forall>x \<in> set (algorithm f). unary_ok x"
    unfolding a by (rule unary_ok_input_instructions) (simp add: unary_ok_alloc_loop)
  then have eq: "arg_i1 e = arg_i0 e" using assms(2-4) by (auto simp: unary_ok_def)
  have "work (fst (fwd_step dir e (st, it2))) =
           (work st)[res e := fst (pdwork st ! it2) * (work st ! arg_i0 e)
                              + snd (pdwork st ! it2) * (work st ! arg_i0 e)]"
    using assms(3,4) eq by (cases "op e") (auto simp: fwd_step_def)
  with eq show ?thesis by simp
qed

lemma init_graph_xy_algorithm:
  "map_option algorithm (init graph_xy [[0], [1]] [[4]] True (\<lambda>n. 0)) = Some
    [\<lparr>op = OP_INPUT, res = 0, arg_d = 0, arg_i0 = 0, arg_i1 = 0\<rparr>,
     \<lparr>op = OP_INPUT, res = 1, arg_d = 0, arg_i0 = 1, arg_i1 = 0\<rparr>,
     \<lparr>op = OP_BINARY 1, res = 1, arg_d = 0, arg_i0 = 0, arg_i1 = 1\<rparr>,
     \<lparr>op = OP_UNARY 7, res = 0, arg_d = 0, arg_i0 = 0, arg_i1 = 0\<rparr>,
     \<lparr>op = OP_BINARY 0, res = 1, arg_d = 0, arg_i0 = 1, arg_i1 = 0\<rparr>,
     \<lparr>op = OP_OUTPUT, res = 0, arg_d = 0, arg_i0 = 1, arg_i1 = 0\<rparr>]"
  by code_simp

theorem init_unary_second_operand_witness:
  "\<exists>f. init graph_xy [[0], [1]] [[4]] True (\<lambda>n. 0) = Some f
     \<and> \<lparr>op = OP_UNARY 7, res = 0, arg_d = 0, arg_i0 = 0, arg_i1 = 0\<rparr> \<in> set (algorithm f)
     \<and> ndeps (OP_UNARY 7) = 1 \<and> OP_UNARY 7 \<noteq> OP_OUTPUT
     \<and> arg_i1 (\<lparr>op = OP_UNARY 7, res = 0, arg_d = 0, arg_i0 = 0, arg_i1 = 0\<rparr> :: int SXAlgEl) = 0"
proof -
  obtain f where f: "init graph_xy [[0], [1]] [[4]] True (\<lambda>n. 0) = Some f"
    using init_graph_xy_algorithm by (cases "init graph_xy [[0], [1]] [[4]] True (\<lambda>n. 0)") auto
  let ?e = "\<lparr>op = OP_UNARY 7, res = 0, arg_d = 0, arg_i0 = 0, arg_i1 = 0\<rparr> :: int SXAlgEl"
  have m: "?e \<in> set (algorithm f)" using init_graph_xy_algorithm f by simp
  have "arg_i1 ?e = arg_i0 ?e"
    using init_unary_second_operand [OF f m] by simp
  then show ?thesis using f m by simp
qed

section \<open>The choice of the operand to descend into\<close>

lemma find_dep_inv_step:
  assumes "find_dep_inv g temp t k md"
  shows "find_dep_inv g temp t (Suc k) (find_dep_step g temp t k md)"
proof (cases "temp (dep (g ! t) k) = 0")
  case False
  then show ?thesis using assms
    by (auto simp: find_dep_inv_def find_dep_step_def less_Suc_eq)
next
  case True
  show ?thesis
  proof (cases "int (ndep (g ! dep (g ! t) k)) > fst md")
    case gt: True
    have "find_dep_step g temp t k md = (int (ndep (g ! dep (g ! t) k)), int k)"
      using True gt by (simp add: find_dep_step_def)
    moreover have "find_dep_inv g temp t (Suc k) (int (ndep (g ! dep (g ! t) k)), int k)"
      using assms True gt unfolding find_dep_inv_def
      by (auto simp: less_Suc_eq)
    ultimately show ?thesis by simp
  next
    case le: False
    have "find_dep_step g temp t k md = md"
      using True le by (simp add: find_dep_step_def)
    moreover have "find_dep_inv g temp t (Suc k) md"
      using assms True le unfolding find_dep_inv_def
      by (auto simp: less_Suc_eq)
    ultimately show ?thesis by simp
  qed
qed

lemma find_dep_inv_fold:
  "find_dep_inv g temp t k (fold (find_dep_step g temp t) [0 ..< k] (-1, -1))"
proof (induction k)
  case 0
  show ?case by (simp add: find_dep_inv_def)
next
  case (Suc k)
  then show ?case using find_dep_inv_step by simp
qed

lemma find_dep_none:
  "find_dep g temp t < 0 \<longleftrightarrow> (\<forall>j < ndep (g ! t). temp (dep (g ! t) j) \<noteq> 0)"
  using find_dep_inv_fold [of g temp t "ndep (g ! t)"]
  unfolding find_dep_def find_dep_inv_def by auto

lemma find_dep_some:
  assumes "find_dep g temp t \<ge> 0"
  shows "nat (find_dep g temp t) < ndep (g ! t)"
    and "temp (dep (g ! t) (nat (find_dep g temp t))) = 0"
    and "\<forall>j < ndep (g ! t). temp (dep (g ! t) j) = 0
           \<longrightarrow> ndep (g ! dep (g ! t) j) \<le> ndep (g ! dep (g ! t) (nat (find_dep g temp t)))"
    and "\<forall>j < nat (find_dep g temp t). temp (dep (g ! t) j) = 0
           \<longrightarrow> ndep (g ! dep (g ! t) j) < ndep (g ! dep (g ! t) (nat (find_dep g temp t)))"
  using find_dep_inv_fold [of g temp t "ndep (g ! t)"] assms
  unfolding find_dep_def find_dep_inv_def by auto

lemma sort_depth_first_descend:
  assumes "temp n = 0" and "find_dep g temp n \<ge> 0"
  shows "sort_depth_first g (Some n # s) nodes temp
         = sort_depth_first g (Some (dep (g ! n) (nat (find_dep g temp n))) # Some n # s) nodes temp"
  using assms by (subst sort_depth_first.simps) simp

lemma sort_depth_first_add:
  assumes "temp n = 0" and "find_dep g temp n < 0"
  shows "sort_depth_first g (Some n # s) nodes temp
         = sort_depth_first g s (nodes @ [Some n]) (temp(n := 1))"
  using assms by (subst sort_depth_first.simps) simp

lemma sort_depth_first_skip:
  assumes "temp n \<noteq> 0"
  shows "sort_depth_first g (Some n # s) nodes temp = sort_depth_first g s nodes temp"
  using assms by (subst sort_depth_first.simps) simp

lemma sort_depth_first_null:
  "sort_depth_first g (None # s) nodes temp = sort_depth_first g s nodes temp"
  by (subst sort_depth_first.simps) simp

lemma sort_depth_first_empty:
  "sort_depth_first g [] nodes temp = Some (nodes, temp)"
  by (subst sort_depth_first.simps) simp

text \<open>
  Claim C6 (as amended).  Whenever the traversal is at a node that is not yet added and
  has at least one operand that is not yet added, it pushes (descends into) the first
  not yet added operand whose own number of operands \<^verbatim>\<open>ndep()\<close> is greatest among
  the not yet added operands; so an operand that is a constant or a symbol is taken only
  when no not yet added operand has operands of its own.  The number of transitive
  dependencies plays no role.
\<close>

theorem sort_depth_first_descends_most_operands:
  assumes "temp n = 0" and "j < ndep (g ! n)" and "temp (dep (g ! n) j) = 0"
  shows "\<exists>i < ndep (g ! n).
           temp (dep (g ! n) i) = 0
           \<and> (\<forall>k < ndep (g ! n). temp (dep (g ! n) k) = 0
                  \<longrightarrow> ndep (g ! dep (g ! n) k) \<le> ndep (g ! dep (g ! n) i))
           \<and> (\<forall>k < i. temp (dep (g ! n) k) = 0
                  \<longrightarrow> ndep (g ! dep (g ! n) k) < ndep (g ! dep (g ! n) i))
           \<and> sort_depth_first g (Some n # s) nodes temp
               = sort_depth_first g (Some (dep (g ! n) i) # Some n # s) nodes temp"
proof -
  have ge: "find_dep g temp n \<ge> 0"
    using find_dep_none [of g temp n] assms(2,3) by fastforce
  let ?i = "nat (find_dep g temp n)"
  have "?i < ndep (g ! n)" using find_dep_some(1) [OF ge] .
  moreover have "temp (dep (g ! n) ?i) = 0" using find_dep_some(2) [OF ge] .
  moreover note find_dep_some(3) [OF ge] find_dep_some(4) [OF ge]
    sort_depth_first_descend [OF assms(1) ge, of s nodes]
  ultimately show ?thesis by blast
qed

theorem sort_depth_first_descends_most_operands_witness:
  "(\<lambda>n. 0 :: int) 7 = 0 \<and> 0 < ndep (graph_two_branches ! 7)
   \<and> (\<lambda>n. 0 :: int) (dep (graph_two_branches ! 7) 0) = 0
   \<and> (\<exists>i < ndep (graph_two_branches ! 7).
          (\<lambda>n. 0 :: int) (dep (graph_two_branches ! 7) i) = 0
          \<and> (\<forall>k < ndep (graph_two_branches ! 7). (\<lambda>n. 0 :: int) (dep (graph_two_branches ! 7) k) = 0
                 \<longrightarrow> ndep (graph_two_branches ! dep (graph_two_branches ! 7) k)
                       \<le> ndep (graph_two_branches ! dep (graph_two_branches ! 7) i))
          \<and> (\<forall>k < i. (\<lambda>n. 0 :: int) (dep (graph_two_branches ! 7) k) = 0
                 \<longrightarrow> ndep (graph_two_branches ! dep (graph_two_branches ! 7) k)
                       < ndep (graph_two_branches ! dep (graph_two_branches ! 7) i))
          \<and> sort_depth_first graph_two_branches [Some 7] [] (\<lambda>n. 0)
              = sort_depth_first graph_two_branches [Some (dep (graph_two_branches ! 7) i), Some 7] []
                  (\<lambda>n. 0))"
proof -
  have h1: "(\<lambda>n. 0 :: int) 7 = 0" by simp
  have h2: "0 < ndep (graph_two_branches ! 7)" by code_simp
  have h3: "(\<lambda>n. 0 :: int) (dep (graph_two_branches ! 7) 0) = 0" by simp
  show ?thesis
    using h2 sort_depth_first_descends_most_operands [OF h1 h2 h3, of "[]" "[]"] by simp
qed

text \<open>
  Claim C6 as stated fails.  At the root of \<open>graph_two_branches\<close> nothing is added
  yet; operand 0 (node 2) has two operands and two transitive dependencies, operand 1
  (node 6) has one operand and three transitive dependencies.  The traversal descends
  into node 2, and node 6 with its dependencies comes last in the order.
\<close>

theorem sort_depth_first_not_most_transitive:
  "find_dep graph_two_branches (\<lambda>n. 0) 7 = 0
   \<and> dep (graph_two_branches ! 7) 0 = 2 \<and> dep (graph_two_branches ! 7) 1 = 6
   \<and> transitive_deps graph_two_branches 2 = 2 \<and> transitive_deps graph_two_branches 6 = 3
   \<and> sort_depth_first graph_two_branches [Some 7] [] (\<lambda>n. 0)
      = sort_depth_first graph_two_branches [Some 2, Some 7] [] (\<lambda>n. 0)
   \<and> map_option fst (sort_depth_first graph_two_branches [Some 7] [] (\<lambda>n. 0))
      = Some [Some 0, Some 1, Some 2, Some 3, Some 4, Some 5, Some 6, Some 7]"
proof -
  have f: "find_dep graph_two_branches (\<lambda>n. 0) 7 = 0" by code_simp
  have d: "dep (graph_two_branches ! 7) 0 = 2" by code_simp
  have "sort_depth_first graph_two_branches [Some 7] [] (\<lambda>n. 0)
      = sort_depth_first graph_two_branches [Some 2, Some 7] [] (\<lambda>n. 0)"
    using sort_depth_first_descend [of "\<lambda>n. 0" 7 graph_two_branches "[]" "[]"] f d by simp
  moreover have "dep (graph_two_branches ! 7) 1 = 6" by code_simp
  moreover have "transitive_deps graph_two_branches 2 = 2" by code_simp
  moreover have "transitive_deps graph_two_branches 6 = 3" by code_simp
  moreover have "map_option fst (sort_depth_first graph_two_branches [Some 7] [] (\<lambda>n. 0))
      = Some [Some 0, Some 1, Some 2, Some 3, Some 4, Some 5, Some 6, Some 7]" by code_simp
  ultimately show ?thesis using f d by simp
qed

section \<open>Sparsity propagation, instruction by instruction\<close>

lemma sp_fwd_snoc: "spEvaluate (alg @ [it]) True st = sp_fwd_step it (spEvaluate alg True st)"
  by (simp add: spEvaluate_def)

lemma sp_adj_cons: "spEvaluate (it # alg) False st = sp_adj_step it (spEvaluate alg False st)"
  by (simp add: spEvaluate_def)

text \<open>
  Claim C4 (as amended).  In the forward direction the bit vector of the result of a
  unary or binary instruction becomes the bitwise OR of the bit vectors of its operand
  slots, and a constant or symbol gets the all-zero bit vector; the other slots keep
  their value.  In the backward direction the seed of the result is read and the result
  slot is cleared first, and then every operand slot ORs the seed in; so a result slot
  that is also an operand slot ends with the seed, not with zero.  The propagation works
  on bit vectors only: its state has no tape and no numeric value.
\<close>

theorem spEvaluate_instruction:
  fixes it :: "'a SXAlgEl"
  assumes "res it < length (iwork (spEvaluate pre True st))"
      and "j < length (iwork (spEvaluate pre True st))"
      and "res it < length (iwork (spEvaluate post False st'))"
      and "j < length (iwork (spEvaluate post False st'))"
  shows "(is_builtin (op it) \<longrightarrow>
            iwork (spEvaluate (pre @ [it]) True st) ! j
              = (if j = res it
                 then iwork (spEvaluate pre True st) ! arg_i0 it
                      OR iwork (spEvaluate pre True st) ! arg_i1 it
                 else iwork (spEvaluate pre True st) ! j))
       \<and> (op it = OP_CONST \<or> op it = OP_PARAMETER \<longrightarrow>
            iwork (spEvaluate (pre @ [it]) True st) ! j
              = (if j = res it then 0 else iwork (spEvaluate pre True st) ! j))
       \<and> (is_builtin (op it) \<longrightarrow>
            iwork (spEvaluate (it # post) False st') ! j
              = ((if j = res it then 0 else iwork (spEvaluate post False st') ! j)
                 OR (if j = arg_i0 it \<or> j = arg_i1 it
                     then iwork (spEvaluate post False st') ! res it else 0)))"
  unfolding sp_fwd_snoc sp_adj_cons using assms
  by (cases "op it") (auto simp: sp_fwd_step_def sp_adj_step_def Let_def nth_list_update)

theorem spEvaluate_instruction_witness:
  "res (alg_unary ! 1) < length (iwork (spEvaluate (take 1 alg_unary) True
       \<lparr>iwork = [0], sp_input = [[1]], sp_output = [[0]]\<rparr>))
   \<and> res (alg_unary ! 1) < length (iwork (spEvaluate (drop 2 alg_unary) False
       \<lparr>iwork = [0], sp_input = [[0]], sp_output = [[1]]\<rparr>))
   \<and> is_builtin (op (alg_unary ! 1))
   \<and> iwork (spEvaluate (take 1 alg_unary @ [alg_unary ! 1]) True
         \<lparr>iwork = [0], sp_input = [[1]], sp_output = [[0]]\<rparr>) ! 0 = 1
   \<and> iwork (spEvaluate (alg_unary ! 1 # drop 2 alg_unary) False
         \<lparr>iwork = [0], sp_input = [[0]], sp_output = [[1]]\<rparr>) ! 0 = 1"
proof -
  let ?sf = "\<lparr>iwork = [0], sp_input = [[1]], sp_output = [[0]]\<rparr>"
  let ?sb = "\<lparr>iwork = [0], sp_input = [[0]], sp_output = [[1]]\<rparr>"
  have h1: "res (alg_unary ! 1) < length (iwork (spEvaluate (take 1 alg_unary) True ?sf))"
    by code_simp
  have h2: "0 < length (iwork (spEvaluate (take 1 alg_unary) True ?sf))"
    by code_simp
  have h3: "res (alg_unary ! 1) < length (iwork (spEvaluate (drop 2 alg_unary) False ?sb))"
    by code_simp
  have h4: "0 < length (iwork (spEvaluate (drop 2 alg_unary) False ?sb))"
    by code_simp
  have b: "is_builtin (op (alg_unary ! 1))" by code_simp
  have r: "res (alg_unary ! 1) = 0" "arg_i0 (alg_unary ! 1) = 0" "arg_i1 (alg_unary ! 1) = 0"
    by code_simp+
  have v1: "iwork (spEvaluate (take 1 alg_unary) True ?sf) ! 0 = 1" by code_simp
  have v2: "iwork (spEvaluate (drop 2 alg_unary) False ?sb) ! 0 = 1" by code_simp
  show ?thesis
    using spEvaluate_instruction [OF h1 h2 h3 h4] h1 h3 b r v1 v2 by simp
qed

text \<open>
  Claim C4 as stated fails in the backward direction.  \<^verbatim>\<open>init\<close> with live variables
  stores the result of the unary operation of \<open>graph_unary\<close> in the slot of its
  operand (slot 0).  With the seed bit 1 on the output, the slot holds 1 after the output
  instruction, and after the unary instruction it still holds 1: the result's bit vector
  is not cleared at the end of the instruction, it was cleared before the operand
  accumulated the seed.
\<close>

theorem spEvaluate_backward_result_not_cleared:
  "map_option algorithm (init graph_unary [[0]] [[1]] True (\<lambda>n. 0)) = Some alg_unary
   \<and> op (alg_unary ! 1) = OP_UNARY 7 \<and> res (alg_unary ! 1) = 0
   \<and> iwork (spEvaluate (drop 2 alg_unary) False \<lparr>iwork = [0], sp_input = [[0]], sp_output = [[1]]\<rparr>) = [1]
   \<and> iwork (spEvaluate (drop 1 alg_unary) False \<lparr>iwork = [0], sp_input = [[0]], sp_output = [[1]]\<rparr>)
        ! res (alg_unary ! 1) = 1"
  by code_simp

section \<open>The adjoint seeds of the Jacobian generator\<close>

text \<open>
  The assignment and the accumulation differ only where a direction names the same
  nonzero twice: there the seed is 1, where accumulation gives 2.  Such a \<open>D2\<close> is not
  a sparsity pattern, and \<^verbatim>\<open>getPartition\<close> returns no such partition.
\<close>

lemma aseed_assignment_on_repeated_entry:
  "aseed_dir \<lparr>rowind = [0, 2], col = [0, 0]\<rparr> [1] 0 0 = Some [[1 :: int]]
   \<and> aseed_els_accumulate \<lparr>rowind = [0, 2], col = [0, 0]\<rparr> [0 ..< 2] [0 :: int] = Some [2]"
  by code_simp




section \<open>Termination and result of the depth-first sort\<close>

lemma wf_graphD: "wf_graph g \<Longrightarrow> n < length g \<Longrightarrow> i < ndep (g ! n) \<Longrightarrow> dep (g ! n) i < n"
  by (auto simp: wf_graph_def list_all_iff)

lemma nodes_of_append [simp]: "nodes_of (xs @ ys) = nodes_of xs @ nodes_of ys"
  by (simp add: nodes_of_def)

lemma nodes_of_Some [simp]: "nodes_of [Some n] = [n]"
  by (simp add: nodes_of_def)

lemma nodes_of_None [simp]: "nodes_of [None] = []"
  by (simp add: nodes_of_def)

lemma set_nodes_of: "n \<in> set (nodes_of nodes) \<longleftrightarrow> Some n \<in> set nodes"
  by (induction nodes) (auto simp: nodes_of_def split: option.splits)

lemma unscheduled_less:
  assumes "n < length g" and "temp n = 0"
  shows "unscheduled g (temp(n := 1)) < unscheduled g temp"
proof -
  have "{m. m < length g \<and> (temp(n := 1)) m = 0} \<subset> {m. m < length g \<and> temp m = 0}"
    using assms by auto
  moreover have "finite {m. m < length g \<and> temp m = 0}" by simp
  ultimately show ?thesis unfolding unscheduled_def by (rule psubset_card_mono [rotated])
qed

lemma stack_measure_pop:
  assumes "stack_ok g (t # s)" and "t = None \<or> (\<exists>n. t = Some n \<and> temp n \<noteq> 0)"
  shows "stack_measure g temp s < stack_measure g temp (t # s)"
proof (cases s)
  case Nil
  then show ?thesis using assms(2) by auto
next
  case (Cons u s')
  show ?thesis
  proof (cases u)
    case None
    then show ?thesis using assms(2) Cons by auto
  next
    case (Some m)
    have "m < length g" using assms(1) Cons Some by (simp add: stack_ok_def)
    then show ?thesis using assms(2) Cons Some by auto
  qed
qed

lemma sorted_inv_add:
  assumes inv: "sorted_inv g nodes temp" and wf: "wf_graph g" and n: "n < length g"
      and t: "temp n = 0" and d: "\<forall>j < ndep (g ! n). temp (dep (g ! n) j) \<noteq> 0"
  shows "sorted_inv g (nodes @ [Some n]) (temp(n := 1))"
proof -
  have i1: "\<forall>m < length g. temp m \<noteq> 0 \<longleftrightarrow> Some m \<in> set nodes"
    and i2: "\<forall>m. Some m \<in> set nodes \<longrightarrow> m < length g"
    and i3: "distinct (nodes_of nodes)"
    and i4: "\<forall>p < length nodes. \<forall>m. nodes ! p = Some m \<longrightarrow>
            (\<forall>i < ndep (g ! m). \<exists>q < p. nodes ! q = Some (dep (g ! m) i))"
    using inv unfolding sorted_inv_def by blast+
  have notin: "Some n \<notin> set nodes" using i1 n t by blast
  have a1: "\<forall>m < length g. (temp(n := 1)) m \<noteq> 0 \<longleftrightarrow> Some m \<in> set (nodes @ [Some n])"
    using i1 by auto
  have a2: "\<forall>m. Some m \<in> set (nodes @ [Some n]) \<longrightarrow> m < length g"
    using i2 n by auto
  have a3: "distinct (nodes_of (nodes @ [Some n]))"
    using i3 notin by (simp add: set_nodes_of)
  have a4: "\<forall>p < length (nodes @ [Some n]). \<forall>m. (nodes @ [Some n]) ! p = Some m \<longrightarrow>
            (\<forall>i < ndep (g ! m). \<exists>q < p. (nodes @ [Some n]) ! q = Some (dep (g ! m) i))"
  proof (intro allI impI)
    fix p m i
    assume p: "p < length (nodes @ [Some n])" and m: "(nodes @ [Some n]) ! p = Some m"
      and i: "i < ndep (g ! m)"
    show "\<exists>q < p. (nodes @ [Some n]) ! q = Some (dep (g ! m) i)"
    proof (cases "p < length nodes")
      case True
      then have "nodes ! p = Some m" using m by (simp add: nth_append)
      then obtain q where q: "q < p" "nodes ! q = Some (dep (g ! m) i)" using i4 True i by blast
      have "(nodes @ [Some n]) ! q = Some (dep (g ! m) i)"
        using q True by (simp add: nth_append)
      then show ?thesis using q(1) by blast
    next
      case False
      then have pe: "p = length nodes" using p by simp
      then have mn: "m = n" using m by simp
      have "dep (g ! n) i < n" using wf_graphD [OF wf n, of i] i mn by simp
      then have "dep (g ! n) i < length g" using n by simp
      moreover have "temp (dep (g ! n) i) \<noteq> 0" using d i mn by simp
      ultimately have "Some (dep (g ! n) i) \<in> set nodes" using i1 by blast
      then obtain q where q: "q < length nodes" "nodes ! q = Some (dep (g ! n) i)"
        unfolding in_set_conv_nth by blast
      have "(nodes @ [Some n]) ! q = Some (dep (g ! m) i)"
        using q mn by (simp add: nth_append)
      then show ?thesis using pe q(1) by blast
    qed
  qed
  show ?thesis unfolding sorted_inv_def using a1 a2 a3 a4 by blast
qed


lemma sort_post_trans:
  assumes "sort_post g s' nodes1 temp1 nodes' temp'"
      and "\<exists>extra. nodes1 = nodes @ map Some extra"
      and "\<forall>n. Some n \<in> set s \<longrightarrow> Some n \<in> set s' \<or> Some n \<in> set nodes1"
      and "stack_ok g s"
  shows "sort_post g s nodes temp nodes' temp'"
proof -
  have inv: "sorted_inv g nodes' temp'"
    and ex: "\<exists>extra. nodes' = nodes1 @ map Some extra"
    and st: "\<forall>n. Some n \<in> set s' \<longrightarrow> temp' n \<noteq> 0"
    using assms(1) unfolding sort_post_def by blast+
  obtain e1 where e1: "nodes' = nodes1 @ map Some e1" using ex by blast
  obtain e0 where e0: "nodes1 = nodes @ map Some e0" using assms(2) by blast
  have "nodes' = nodes @ map Some (e0 @ e1)" using e1 e0 by simp
  then have a: "\<exists>extra. nodes' = nodes @ map Some extra" by blast
  have b: "\<forall>n. Some n \<in> set s \<longrightarrow> temp' n \<noteq> 0"
  proof (intro allI impI)
    fix n assume n: "Some n \<in> set s"
    then have nl: "n < length g" using assms(4) by (simp add: stack_ok_def)
    from n assms(3) consider "Some n \<in> set s'" | "Some n \<in> set nodes1" by blast
    then show "temp' n \<noteq> 0"
    proof cases
      case 1
      then show ?thesis using st by blast
    next
      case 2
      then have "Some n \<in> set nodes'" using e1 by simp
      then show ?thesis using inv nl unfolding sorted_inv_def by blast
    qed
  qed
  show ?thesis unfolding sort_post_def using inv a b by blast
qed

lemma sort_depth_first_total:
  assumes wf: "wf_graph g"
  shows "stack_ok g s \<Longrightarrow> sorted_inv g nodes temp \<Longrightarrow>
         \<exists>nodes' temp'. sort_depth_first g s nodes temp = Some (nodes', temp')
                         \<and> sort_post g s nodes temp nodes' temp'"
proof (induction "(s, nodes, temp)" arbitrary: s nodes temp
       rule: wf_induct_rule [OF wf_measures [of "[\<lambda>(s, nodes, temp). unscheduled g temp,
                                                  \<lambda>(s, nodes, temp). stack_measure g temp s]"]])
  case (1 s nodes temp)
  note IH = "1.hyps" and sok = "1.prems"(1) and inv = "1.prems"(2)
  show ?case
  proof (cases s)
    case Nil
    have "sort_post g [] nodes temp nodes temp"
      unfolding sort_post_def using inv by (auto intro: exI [of _ "[]"])
    then show ?thesis using Nil by (simp add: sort_depth_first_empty)
  next
    case (Cons t s')
    have sok': "stack_ok g s'" using sok Cons by (simp add: stack_ok_def)
    show ?thesis
    proof (cases "t = None \<or> (\<exists>n. t = Some n \<and> temp n \<noteq> 0)")
      case True
      have eq: "sort_depth_first g s nodes temp = sort_depth_first g s' nodes temp"
        using True Cons by (auto simp: sort_depth_first_null sort_depth_first_skip)
      have "stack_measure g temp s' < stack_measure g temp s"
        using stack_measure_pop [of g t s' temp] sok Cons True by simp
      then have "((s', nodes, temp), (s, nodes, temp))
            \<in> measures [\<lambda>(s, nodes, temp). unscheduled g temp,
                         \<lambda>(s, nodes, temp). stack_measure g temp s]" by simp
      from IH [OF this sok' inv] obtain nodes' temp' where
        r: "sort_depth_first g s' nodes temp = Some (nodes', temp')"
        and p: "sort_post g s' nodes temp nodes' temp'" by blast
      have "\<forall>n. Some n \<in> set s \<longrightarrow> Some n \<in> set s' \<or> Some n \<in> set nodes"
      proof (intro allI impI)
        fix n assume n: "Some n \<in> set s"
        show "Some n \<in> set s' \<or> Some n \<in> set nodes"
        proof (cases "Some n \<in> set s'")
          case False
          then have tn: "t = Some n" using n Cons by simp
          then have "temp n \<noteq> 0" using True by simp
          moreover have "n < length g" using sok n by (simp add: stack_ok_def)
          ultimately show ?thesis using inv unfolding sorted_inv_def by blast
        qed simp
      qed
      then have "sort_post g s nodes temp nodes' temp'"
        using sort_post_trans [OF p, of nodes s] sok by (auto intro: exI [of _ "[]"])
      then show ?thesis using eq r by simp
    next
      case False
      then obtain n where tn: "t = Some n" and t0: "temp n = 0" by (cases t) auto
      have nl: "n < length g" using sok Cons tn by (simp add: stack_ok_def)
      show ?thesis
      proof (cases "find_dep g temp n \<ge> 0")
        case True
        let ?d = "dep (g ! n) (nat (find_dep g temp n))"
        have eq: "sort_depth_first g s nodes temp = sort_depth_first g (Some ?d # s) nodes temp"
          using sort_depth_first_descend [OF t0 True] Cons tn by simp
        have dl: "?d < n" using wf_graphD [OF wf nl] find_dep_some(1) [OF True] by simp
        have d0: "temp ?d = 0" using find_dep_some(2) [OF True] .
        have "stack_measure g temp (Some ?d # s) < stack_measure g temp s"
          using dl d0 t0 Cons tn by simp
        then have m: "((Some ?d # s, nodes, temp), (s, nodes, temp))
            \<in> measures [\<lambda>(s, nodes, temp). unscheduled g temp,
                         \<lambda>(s, nodes, temp). stack_measure g temp s]" by simp
        have sok2: "stack_ok g (Some ?d # s)" using sok dl nl by (simp add: stack_ok_def)
        from IH [OF m sok2 inv] obtain nodes' temp' where
          r: "sort_depth_first g (Some ?d # s) nodes temp = Some (nodes', temp')"
          and p: "sort_post g (Some ?d # s) nodes temp nodes' temp'" by blast
        have "sort_post g s nodes temp nodes' temp'"
          using p unfolding sort_post_def by simp
        then show ?thesis using eq r by simp
      next
        case False
        then have neg: "find_dep g temp n < 0" by simp
        have eq: "sort_depth_first g s nodes temp
                  = sort_depth_first g s' (nodes @ [Some n]) (temp(n := 1))"
          using sort_depth_first_add [OF t0 neg] Cons tn by simp
        have d: "\<forall>j < ndep (g ! n). temp (dep (g ! n) j) \<noteq> 0"
          using find_dep_none [of g temp n] neg by simp
        have inv2: "sorted_inv g (nodes @ [Some n]) (temp(n := 1))"
          using sorted_inv_add [OF inv wf nl t0 d] .
        have "unscheduled g (temp(n := 1)) < unscheduled g temp"
          using nl t0 by (rule unscheduled_less)
        then have m: "((s', nodes @ [Some n], temp(n := 1)), (s, nodes, temp))
            \<in> measures [\<lambda>(s, nodes, temp). unscheduled g temp,
                         \<lambda>(s, nodes, temp). stack_measure g temp s]" by simp
        from IH [OF m sok' inv2] obtain nodes' temp' where
          r: "sort_depth_first g s' (nodes @ [Some n]) (temp(n := 1)) = Some (nodes', temp')"
          and p: "sort_post g s' (nodes @ [Some n]) (temp(n := 1)) nodes' temp'" by blast
        have e: "\<exists>extra. nodes @ [Some n] = nodes @ map Some extra"
          by (rule exI [of _ "[n]"]) simp
        have "\<forall>m. Some m \<in> set s \<longrightarrow> Some m \<in> set s' \<or> Some m \<in> set (nodes @ [Some n])"
          using Cons tn by auto
        then have "sort_post g s nodes temp nodes' temp'"
          using sort_post_trans [OF p e _ sok] by blast
        then show ?thesis using eq r by simp
      qed
    qed
  qed
qed

section \<open>The node list after sorting the outputs and adding the inputs\<close>

lemma count_null_append [simp]: "count_null (xs @ ys) = count_null xs + count_null ys"
  by (simp add: count_null_def)

lemma count_null_map_Some [simp]: "count_null (map Some xs) = 0"
  by (induction xs) (auto simp: count_null_def)

lemma count_null_le: "count_null xs \<le> length xs"
  by (simp add: count_null_def)

lemma sorted_inv_null:
  assumes "sorted_inv g nodes temp"
  shows "sorted_inv g (nodes @ [None]) temp"
proof -
  have i4: "\<forall>p < length nodes. \<forall>m. nodes ! p = Some m \<longrightarrow>
            (\<forall>i < ndep (g ! m). \<exists>q < p. nodes ! q = Some (dep (g ! m) i))"
    using assms unfolding sorted_inv_def by blast
  have a4: "\<forall>p < length (nodes @ [None]). \<forall>m. (nodes @ [None]) ! p = Some m \<longrightarrow>
            (\<forall>i < ndep (g ! m). \<exists>q < p. (nodes @ [None]) ! q = Some (dep (g ! m) i))"
  proof (intro allI impI)
    fix p m i
    assume p: "p < length (nodes @ [None])" and m: "(nodes @ [None]) ! p = Some m"
      and i: "i < ndep (g ! m)"
    have pl: "p < length nodes"
    proof (rule ccontr)
      assume "\<not> p < length nodes"
      then have "p = length nodes" using p by simp
      then show False using m by simp
    qed
    then have "nodes ! p = Some m" using m by (simp add: nth_append)
    then obtain q where q: "q < p" "nodes ! q = Some (dep (g ! m) i)" using i4 pl i by blast
    have "(nodes @ [None]) ! q = Some (dep (g ! m) i)" using q pl by (simp add: nth_append)
    then show "\<exists>q < p. (nodes @ [None]) ! q = Some (dep (g ! m) i)" using q(1) by blast
  qed
  have "(\<forall>n < length g. temp n \<noteq> 0 \<longleftrightarrow> Some n \<in> set (nodes @ [None]))
      \<and> (\<forall>n. Some n \<in> set (nodes @ [None]) \<longrightarrow> n < length g)
      \<and> distinct (nodes_of (nodes @ [None]))"
    using assms unfolding sorted_inv_def by simp
  then show ?thesis unfolding sorted_inv_def using a4 by blast
qed

lemma outputs_placed_extend:
  assumes "outputs_placed nodes outs"
  shows "outputs_placed (nodes @ map Some extra) outs"
proof -
  have c: "count_null nodes = length outs"
    and pl: "\<forall>p < length nodes. nodes ! p = None \<longrightarrow>
            (\<exists>q < p. nodes ! q = Some (outs ! count_null (take p nodes)))"
    using assms unfolding outputs_placed_def by blast+
  have "\<forall>p < length (nodes @ map Some extra). (nodes @ map Some extra) ! p = None \<longrightarrow>
            (\<exists>q < p. (nodes @ map Some extra) ! q
                       = Some (outs ! count_null (take p (nodes @ map Some extra))))"
  proof (intro allI impI)
    fix p
    assume p: "p < length (nodes @ map Some extra)" and n: "(nodes @ map Some extra) ! p = None"
    have pl': "p < length nodes"
    proof (rule ccontr)
      assume a: "\<not> p < length nodes"
      then have "(nodes @ map Some extra) ! p = Some (extra ! (p - length nodes))"
        using p by (simp add: nth_append)
      then show False using n by simp
    qed
    then have "nodes ! p = None" using n by (simp add: nth_append)
    then obtain q where q: "q < p" "nodes ! q = Some (outs ! count_null (take p nodes))"
      using pl pl' by blast
    have "(nodes @ map Some extra) ! q = Some (outs ! count_null (take p (nodes @ map Some extra)))"
      using q pl' by (simp add: nth_append)
    then show "\<exists>q < p. (nodes @ map Some extra) ! q
                       = Some (outs ! count_null (take p (nodes @ map Some extra)))"
      using q(1) by blast
  qed
  then show ?thesis unfolding outputs_placed_def using c by simp
qed

lemma outputs_placed_null:
  assumes "outputs_placed nodes outs" and "Some x \<in> set nodes"
  shows "outputs_placed (nodes @ [None]) (outs @ [x])"
proof -
  have c: "count_null nodes = length outs"
    and pl: "\<forall>p < length nodes. nodes ! p = None \<longrightarrow>
            (\<exists>q < p. nodes ! q = Some (outs ! count_null (take p nodes)))"
    using assms(1) unfolding outputs_placed_def by blast+
  have "\<forall>p < length (nodes @ [None]). (nodes @ [None]) ! p = None \<longrightarrow>
            (\<exists>q < p. (nodes @ [None]) ! q
                       = Some ((outs @ [x]) ! count_null (take p (nodes @ [None]))))"
  proof (intro allI impI)
    fix p
    assume p: "p < length (nodes @ [None])" and n: "(nodes @ [None]) ! p = None"
    show "\<exists>q < p. (nodes @ [None]) ! q
                       = Some ((outs @ [x]) ! count_null (take p (nodes @ [None])))"
    proof (cases "p < length nodes")
      case True
      then have np: "nodes ! p = None" using n by (simp add: nth_append)
      then obtain q where q: "q < p" "nodes ! q = Some (outs ! count_null (take p nodes))"
        using pl True by blast
      have "count_null (take p nodes) < count_null nodes"
      proof -
        have "nodes = take p nodes @ nodes ! p # drop (Suc p) nodes"
          using True by (simp add: id_take_nth_drop)
        then have "count_null nodes
                   = count_null (take p nodes) + count_null (nodes ! p # drop (Suc p) nodes)"
          using count_null_append [of "take p nodes" "nodes ! p # drop (Suc p) nodes"] by simp
        moreover have "count_null (nodes ! p # drop (Suc p) nodes) > 0"
          using np by (simp add: count_null_def)
        ultimately show ?thesis by simp
      qed
      then have "(outs @ [x]) ! count_null (take p nodes) = outs ! count_null (take p nodes)"
        using c by (simp add: nth_append)
      then have "(nodes @ [None]) ! q = Some ((outs @ [x]) ! count_null (take p (nodes @ [None])))"
        using q True by (simp add: nth_append)
      then show ?thesis using q(1) by blast
    next
      case False
      then have pe: "p = length nodes" using p by simp
      obtain q where q: "q < length nodes" "nodes ! q = Some x"
        using assms(2) unfolding in_set_conv_nth by blast
      have "(outs @ [x]) ! count_null (take p (nodes @ [None])) = x"
        using pe c by simp
      then have "(nodes @ [None]) ! q = Some ((outs @ [x]) ! count_null (take p (nodes @ [None])))"
        using q by (simp add: nth_append)
      then show ?thesis using q(1) pe by blast
    qed
  qed
  moreover have "count_null (nodes @ [None]) = length (outs @ [x])"
    using c by (simp add: count_null_def)
  ultimately show ?thesis unfolding outputs_placed_def by blast
qed

lemma sort_outputs_total:
  assumes wf: "wf_graph g"
  shows "\<forall>x \<in> set xs. x < length g \<Longrightarrow> sorted_inv g nodes temp \<Longrightarrow> outputs_placed nodes outs \<Longrightarrow>
         \<exists>nodes' temp'. sort_outputs g xs nodes temp = Some (nodes', temp')
            \<and> sorted_inv g nodes' temp' \<and> outputs_placed nodes' (outs @ xs)"
proof (induction xs arbitrary: nodes temp outs)
  case Nil
  then show ?case by simp
next
  case (Cons x xs)
  have xl: "x < length g" using Cons.prems(1) by simp
  then have sok: "stack_ok g [Some x]" by (simp add: stack_ok_def)
  obtain nodes1 temp1 where
    r: "sort_depth_first g [Some x] nodes temp = Some (nodes1, temp1)"
    and p: "sort_post g [Some x] nodes temp nodes1 temp1"
    using sort_depth_first_total [OF wf sok Cons.prems(2)] by blast
  have inv1: "sorted_inv g nodes1 temp1"
    and ex: "\<exists>extra. nodes1 = nodes @ map Some extra"
    and tx: "temp1 x \<noteq> 0"
    using p unfolding sort_post_def by auto
  have xin: "Some x \<in> set nodes1" using inv1 tx xl unfolding sorted_inv_def by blast
  obtain extra where e: "nodes1 = nodes @ map Some extra" using ex by blast
  have op1: "outputs_placed nodes1 outs"
    unfolding e using Cons.prems(3) by (rule outputs_placed_extend)
  have op2: "outputs_placed (nodes1 @ [None]) (outs @ [x])"
    using op1 xin by (rule outputs_placed_null)
  have inv2: "sorted_inv g (nodes1 @ [None]) temp1" using inv1 by (rule sorted_inv_null)
  have xs: "\<forall>y \<in> set xs. y < length g" using Cons.prems(1) by simp
  obtain nodes' temp' where
    "sort_outputs g xs (nodes1 @ [None]) temp1 = Some (nodes', temp')"
    "sorted_inv g nodes' temp'" "outputs_placed nodes' ((outs @ [x]) @ xs)"
    using Cons.IH [OF xs inv2 op2] by blast
  then show ?case using r by simp
qed

lemma add_inputs_eq:
  "add_inputs temp xs nodes = nodes @ map Some (filter (\<lambda>x. temp x = 0) xs)"
  by (induction xs arbitrary: nodes) simp_all

lemma nodes_ok_add_inputs:
  assumes inv: "sorted_inv g nodes temp"
      and xs: "\<forall>x \<in> set xs. x < length g \<and> ndep (g ! x) = 0" and d: "distinct xs"
  shows "nodes_ok g (add_inputs temp xs nodes)"
    and "\<forall>x \<in> set xs. Some x \<in> set (add_inputs temp xs nodes)"
proof -
  let ?new = "filter (\<lambda>x. temp x = 0) xs"
  let ?nodes = "nodes @ map Some ?new"
  have i1: "\<forall>m < length g. temp m \<noteq> 0 \<longleftrightarrow> Some m \<in> set nodes"
    and i2: "\<forall>m. Some m \<in> set nodes \<longrightarrow> m < length g"
    and i3: "distinct (nodes_of nodes)"
    and i4: "\<forall>p < length nodes. \<forall>m. nodes ! p = Some m \<longrightarrow>
            (\<forall>i < ndep (g ! m). \<exists>q < p. nodes ! q = Some (dep (g ! m) i))"
    using inv unfolding sorted_inv_def by blast+
  have nof: "nodes_of (map Some ?new) = ?new"
    by (induction xs) (simp_all add: nodes_of_def)
  have a1: "\<forall>n. Some n \<in> set ?nodes \<longrightarrow> n < length g"
    using i2 xs by auto
  have "set (nodes_of nodes) \<inter> set ?new = {}"
  proof -
    have "\<And>x. x \<in> set ?new \<Longrightarrow> x \<notin> set (nodes_of nodes)"
    proof -
      fix x assume "x \<in> set ?new"
      then have "x \<in> set xs" "temp x = 0" by auto
      then have "Some x \<notin> set nodes" using i1 xs by blast
      then show "x \<notin> set (nodes_of nodes)" by (simp add: set_nodes_of)
    qed
    then show ?thesis by blast
  qed
  then have a2: "distinct (nodes_of ?nodes)"
    using i3 d nof by simp
  have a3: "\<forall>p < length ?nodes. \<forall>m. ?nodes ! p = Some m \<longrightarrow>
            (\<forall>i < ndep (g ! m). \<exists>q < p. ?nodes ! q = Some (dep (g ! m) i))"
  proof (intro allI impI)
    fix p m i
    assume p: "p < length ?nodes" and m: "?nodes ! p = Some m" and i: "i < ndep (g ! m)"
    show "\<exists>q < p. ?nodes ! q = Some (dep (g ! m) i)"
    proof (cases "p < length nodes")
      case True
      then have "nodes ! p = Some m" using m by (simp add: nth_append)
      then obtain q where q: "q < p" "nodes ! q = Some (dep (g ! m) i)" using i4 True i by blast
      have "?nodes ! q = Some (dep (g ! m) i)" using q True by (simp add: nth_append)
      then show ?thesis using q(1) by blast
    next
      case False
      then have "?nodes ! p = Some (?new ! (p - length nodes))" and "p - length nodes < length ?new"
        using p by (simp_all add: nth_append)
      then have "m \<in> set ?new" using m by (metis nth_mem option.inject)
      then have "ndep (g ! m) = 0" using xs by simp
      then show ?thesis using i by simp
    qed
  qed
  show "nodes_ok g (add_inputs temp xs nodes)"
    unfolding add_inputs_eq nodes_ok_def using a1 a2 a3 by blast
  show "\<forall>x \<in> set xs. Some x \<in> set (add_inputs temp xs nodes)"
  proof
    fix x assume x: "x \<in> set xs"
    show "Some x \<in> set (add_inputs temp xs nodes)"
    proof (cases "temp x = 0")
      case True
      then show ?thesis using x by (simp add: add_inputs_eq)
    next
      case False
      then have "Some x \<in> set nodes" using i1 xs x by blast
      then show ?thesis by (simp add: add_inputs_eq)
    qed
  qed
qed

lemma set_temp_index_notin:
  "Some n \<notin> set ns \<Longrightarrow> set_temp_index ns i temp n = temp n"
  by (induction ns i temp rule: set_temp_index.induct) auto

lemma set_temp_index_pos:
  "distinct (nodes_of ns) \<Longrightarrow> p < length ns \<Longrightarrow> ns ! p = Some n \<Longrightarrow>
   set_temp_index ns i temp n = int (i + p)"
proof (induction ns i temp arbitrary: p rule: set_temp_index.induct)
  case (1 i temp)
  then show ?case by simp
next
  case (2 ns i temp)
  then obtain p' where p': "p = Suc p'" by (cases p) auto
  have d: "distinct (nodes_of ns)" using "2.prems"(1) by (simp add: nodes_of_def)
  have "p' < length ns" "ns ! p' = Some n" using "2.prems" p' by simp_all
  then have "set_temp_index ns (Suc i) temp n = int (Suc i + p')"
    by (rule "2.IH" [OF d])
  then show ?case using p' by simp
next
  case (3 m ns i temp)
  have d: "distinct (nodes_of ns)" and mn: "m \<notin> set (nodes_of ns)"
    using "3.prems"(1) by (simp_all add: nodes_of_def)
  show ?case
  proof (cases p)
    case 0
    then have "m = n" using "3.prems" by simp
    then have "Some n \<notin> set ns" using mn by (simp add: set_nodes_of)
    then have "set_temp_index ns (Suc i) (temp(m := int i)) n = (temp(m := int i)) n"
      by (rule set_temp_index_notin)
    then show ?thesis using 0 \<open>m = n\<close> by simp
  next
    case (Suc p')
    have "p' < length ns" "ns ! p' = Some n" using "3.prems" Suc by simp_all
    then have "set_temp_index ns (Suc i) (temp(m := int i)) n = int (Suc i + p')"
      by (rule "3.IH" [OF d])
    then show ?thesis using Suc by simp
  qed
qed

section \<open>The instructions before slot allocation\<close>

lemma length_concat_take_Suc:
  "i < length xs \<Longrightarrow> length (concat (take (Suc i) xs)) = length (concat (take i xs)) + length (xs ! i)"
  by (simp add: take_Suc_conv_app_nth)

lemma length_concat_take_le: "length (concat (take i xs)) \<le> length (concat xs)"
proof -
  have "concat (take i xs @ drop i xs) = concat (take i xs) @ concat (drop i xs)"
    by (rule concat_append)
  then have "length (concat xs) = length (concat (take i xs)) + length (concat (drop i xs))"
    by simp
  then show ?thesis by simp
qed

lemma concat_nth_cursor:
  assumes "i < length xs" and "j < length (xs ! i)"
  shows "length (concat (take i xs)) + j < length (concat xs)"
    and "concat xs ! (length (concat (take i xs)) + j) = xs ! i ! j"
proof -
  have "xs = take i xs @ xs ! i # drop (Suc i) xs"
    using assms(1) by (rule id_take_nth_drop)
  then have "concat xs = concat (take i xs @ xs ! i # drop (Suc i) xs)" by simp
  then have e: "concat xs = concat (take i xs) @ xs ! i @ concat (drop (Suc i) xs)"
    by (simp only: concat_append concat.simps)
  show "length (concat (take i xs)) + j < length (concat xs)"
    using assms(2) by (subst e) simp
  show "concat xs ! (length (concat (take i xs)) + j) = xs ! i ! j"
    using assms(2) by (subst e) (simp add: nth_append)
qed

lemma skip_empty_from_props:
  "i \<le> length outputv \<Longrightarrow>
   i \<le> skip_empty_from outputv i \<and> skip_empty_from outputv i \<le> length outputv
   \<and> length (concat (take (skip_empty_from outputv i) outputv)) = length (concat (take i outputv))
   \<and> (skip_empty_from outputv i < length outputv \<longrightarrow> outputv ! skip_empty_from outputv i \<noteq> [])"
proof (induction outputv i rule: skip_empty_from.induct)
  case (1 outputv curr_oind)
  show ?case
  proof (cases "curr_oind < length outputv")
    case False
    then have "skip_empty_from outputv curr_oind = curr_oind"
      by (subst skip_empty_from.simps) simp
    then show ?thesis using "1.prems" False by simp
  next
    case True
    show ?thesis
    proof (cases "length (outputv ! curr_oind) \<noteq> 0")
      case ne: True
      then have "skip_empty_from outputv curr_oind = curr_oind"
        using True by (subst skip_empty_from.simps) simp
      then show ?thesis using True ne by simp
    next
      case False
      then have e: "outputv ! curr_oind = []" by simp
      have "Suc curr_oind \<le> length outputv" using True by simp
      from "1.IH" [OF True _ this] False
      have ih: "Suc curr_oind \<le> skip_empty_from outputv (Suc curr_oind)
        \<and> skip_empty_from outputv (Suc curr_oind) \<le> length outputv
        \<and> length (concat (take (skip_empty_from outputv (Suc curr_oind)) outputv))
            = length (concat (take (Suc curr_oind) outputv))
        \<and> (skip_empty_from outputv (Suc curr_oind) < length outputv
             \<longrightarrow> outputv ! skip_empty_from outputv (Suc curr_oind) \<noteq> [])" by simp
      have s: "skip_empty_from outputv curr_oind = skip_empty_from outputv (Suc curr_oind)"
        using True e by (subst skip_empty_from.simps) simp
      have "length (concat (take (Suc curr_oind) outputv)) = length (concat (take curr_oind outputv))"
        using length_concat_take_Suc [OF True] e by simp
      then show ?thesis unfolding s using ih by auto
    qed
  qed
qed

lemma cursor_ok_init: "cursor_ok outputv (skip_empty_from outputv 0) 0 0"
  using skip_empty_from_props [of 0 outputv] unfolding cursor_ok_def by auto

lemma cursor_ok_in_range:
  assumes "cursor_ok outputv oind nz k" and "k < length (concat outputv)"
  shows "oind < length outputv" and "nz < length (outputv ! oind)"
    and "concat outputv ! k = outputv ! oind ! nz"
proof -
  show o: "oind < length outputv"
  proof (rule ccontr)
    assume "\<not> oind < length outputv"
    then have "oind = length outputv" "nz = 0" using assms(1) unfolding cursor_ok_def by auto
    then have "k = length (concat outputv)" using assms(1) unfolding cursor_ok_def by simp
    then show False using assms(2) by simp
  qed
  then show n: "nz < length (outputv ! oind)" using assms(1) unfolding cursor_ok_def by simp
  have "k = length (concat (take oind outputv)) + nz" using assms(1) unfolding cursor_ok_def by simp
  then show "concat outputv ! k = outputv ! oind ! nz" using concat_nth_cursor(2) [OF o n] by simp
qed

lemma cursor_ok_step:
  assumes "cursor_ok outputv oind nz k" and "oind < length outputv"
  shows "cursor_ok outputv
           (if Suc nz \<ge> length (outputv ! oind) then skip_empty_from outputv (Suc oind) else oind)
           (if Suc nz \<ge> length (outputv ! oind) then 0 else Suc nz) (Suc k)"
proof (cases "Suc nz \<ge> length (outputv ! oind)")
  case False
  then show ?thesis using assms unfolding cursor_ok_def by simp
next
  case True
  have nz: "nz < length (outputv ! oind)" and k: "k = length (concat (take oind outputv)) + nz"
    using assms unfolding cursor_ok_def by simp_all
  then have l: "length (outputv ! oind) = Suc nz" using True by simp
  have "Suc oind \<le> length outputv" using assms(2) by simp
  note sk = skip_empty_from_props [OF this]
  have "length (concat (take (skip_empty_from outputv (Suc oind)) outputv)) = Suc k"
    using sk length_concat_take_Suc [OF assms(2)] l k by simp
  then show ?thesis using True sk unfolding cursor_ok_def by auto
qed

lemma push_instr_simps [simp]:
  "bs_algorithm (push_instr ae bs) = bs_algorithm bs @ [ae]"
  "bs_curr_oind (push_instr ae bs) = bs_curr_oind bs"
  "bs_curr_nz (push_instr ae bs) = bs_curr_nz bs"
  "bs_symb_loc (push_instr ae bs) = bs_symb_loc bs"
  by (simp_all add: push_instr_def)

lemma build_step_node:
  fixes g :: "'a::zero graph"
  shows "\<exists>ae bs1. build_step g outputv temp (Some n) bs = Some (push_instr ae bs1)
     \<and> op ae = getOp (g ! n) \<and> res ae = nat (temp n)
     \<and> (\<forall>c < ndep (g ! n). arg_i ae c = nat (temp (dep (g ! n) c)))
     \<and> bs_algorithm bs1 = bs_algorithm bs
     \<and> bs_curr_oind bs1 = bs_curr_oind bs \<and> bs_curr_nz bs1 = bs_curr_nz bs
     \<and> bs_symb_loc bs1 = (if isSymbolic (g ! n)
                           then bs_symb_loc bs @ [(length (bs_algorithm bs), n)]
                           else bs_symb_loc bs)"
proof (cases "g ! n")
  case (ConstantSX v)
  then show ?thesis
    by (simp add: build_step_def) (intro exI conjI, rule refl, simp_all)
next
  case (SymbolicSX x)
  then show ?thesis
    by (simp add: build_step_def) (intro exI conjI, rule refl, simp_all)
next
  case (UnarySX k a)
  then show ?thesis
    by (simp add: build_step_def) (intro exI conjI, rule refl, simp_all add: arg_i_def)
next
  case (BinarySX k a b)
  then show ?thesis
    by (simp add: build_step_def) (intro exI conjI, rule refl, simp_all add: arg_i_def)
qed

lemma build_step_null:
  fixes g :: "'a::zero graph"
  assumes "bs_curr_oind bs < length outputv"
      and "bs_curr_nz bs < length (outputv ! bs_curr_oind bs)"
  shows "\<exists>ae bs1. build_step g outputv temp None bs = Some (push_instr ae bs1)
     \<and> op ae = OP_OUTPUT \<and> res ae = bs_curr_oind bs \<and> arg_i1 ae = bs_curr_nz bs
     \<and> arg_i0 ae = nat (temp (outputv ! bs_curr_oind bs ! bs_curr_nz bs))
     \<and> bs_algorithm bs1 = bs_algorithm bs
     \<and> bs_curr_oind bs1 = (if Suc (bs_curr_nz bs) \<ge> length (outputv ! bs_curr_oind bs)
                            then skip_empty_from outputv (Suc (bs_curr_oind bs))
                            else bs_curr_oind bs)
     \<and> bs_curr_nz bs1 = (if Suc (bs_curr_nz bs) \<ge> length (outputv ! bs_curr_oind bs)
                          then 0 else Suc (bs_curr_nz bs))
     \<and> bs_symb_loc bs1 = bs_symb_loc bs"
proof (cases "Suc (bs_curr_nz bs) \<ge> length (outputv ! bs_curr_oind bs)")
  case True
  then show ?thesis using assms
    by (simp add: build_step_def Let_def) (intro exI conjI, rule refl, simp_all)
next
  case False
  then show ?thesis using assms
    by (simp add: build_step_def Let_def) (intro exI conjI, rule refl, simp_all)
qed

lemma count_null_less:
  assumes "nodes = done @ None # rest"
  shows "count_null done < count_null nodes"
  using assms by (simp add: count_null_def)

lemma build_step_ok:
  fixes g :: "'a::zero graph"
  assumes nodes: "nodes = done @ t # rest" and nok: "nodes_ok g nodes"
      and opl: "outputs_placed nodes (concat outputv)" and tp: "temp_pos nodes temp"
      and inv: "build_inv g outputv nodes done bs"
  shows "\<exists>bs'. build_step g outputv temp t bs = Some bs' \<and> build_inv g outputv nodes (done @ [t]) bs'"
proof -
  let ?p = "length done"
  have pl: "?p < length nodes" and np: "nodes ! ?p = t" and tk: "take ?p nodes = done"
    using nodes by simp_all
  have len: "length (bs_algorithm bs) = ?p"
    and cur: "cursor_ok outputv (bs_curr_oind bs) (bs_curr_nz bs) (count_null done)"
    and ins: "\<forall>p < ?p. instr_ok g outputv nodes p (bs_algorithm bs ! p)"
    and s1: "\<forall>i n. (i, n) \<in> set (bs_symb_loc bs)
            \<longrightarrow> i < ?p \<and> nodes ! i = Some n \<and> isSymbolic (g ! n)"
    and s2: "\<forall>p < ?p. \<forall>n. nodes ! p = Some n \<and> isSymbolic (g ! n)
            \<longrightarrow> (p, n) \<in> set (bs_symb_loc bs)"
    and s3: "distinct (map snd (bs_symb_loc bs))"
    using inv unfolding build_inv_def by blast+
  have top: "\<forall>p < length nodes. \<forall>n. nodes ! p = Some n \<longrightarrow>
            (\<forall>i < ndep (g ! n). \<exists>q < p. nodes ! q = Some (dep (g ! n) i))"
    and dist: "distinct (nodes_of nodes)"
    using nok unfolding nodes_ok_def by blast+
  have tpos: "\<And>q n. q < length nodes \<Longrightarrow> nodes ! q = Some n \<Longrightarrow> temp n = int q"
    using tp unfolding temp_pos_def by blast
  show ?thesis
  proof (cases t)
    case (Some n)
    obtain ae bs1 where
      r: "build_step g outputv temp (Some n) bs = Some (push_instr ae bs1)"
      and o: "op ae = getOp (g ! n)" and rs: "res ae = nat (temp n)"
      and ar: "\<forall>c < ndep (g ! n). arg_i ae c = nat (temp (dep (g ! n) c))"
      and al: "bs_algorithm bs1 = bs_algorithm bs"
      and co: "bs_curr_oind bs1 = bs_curr_oind bs" and cn: "bs_curr_nz bs1 = bs_curr_nz bs"
      and sl: "bs_symb_loc bs1 = (if isSymbolic (g ! n)
                           then bs_symb_loc bs @ [(length (bs_algorithm bs), n)]
                           else bs_symb_loc bs)"
      using build_step_node [of g outputv temp n bs] by blast
    let ?bs = "push_instr ae bs1"
    have npn: "nodes ! ?p = Some n" using np Some by simp
    have rp: "res ae = ?p" using rs tpos [OF pl npn] by simp
    have args: "\<forall>c < ndep (g ! n). arg_i ae c < ?p \<and> nodes ! arg_i ae c = Some (dep (g ! n) c)"
    proof (intro allI impI)
      fix c assume c: "c < ndep (g ! n)"
      obtain q where q: "q < ?p" "nodes ! q = Some (dep (g ! n) c)"
        using top pl npn c by blast
      have "temp (dep (g ! n) c) = int q" using tpos [of q] q pl by simp
      then have "arg_i ae c = q" using ar c by simp
      then show "arg_i ae c < ?p \<and> nodes ! arg_i ae c = Some (dep (g ! n) c)" using q by simp
    qed
    have iok: "instr_ok g outputv nodes ?p ae"
      unfolding instr_ok_def using npn o rp args by simp
    have b1: "length (bs_algorithm ?bs) = length (done @ [t])" using al len by simp
    have b2: "cursor_ok outputv (bs_curr_oind ?bs) (bs_curr_nz ?bs) (count_null (done @ [t]))"
      using cur co cn Some by (simp add: count_null_def)
    have b3: "\<forall>p < length (done @ [t]). instr_ok g outputv nodes p (bs_algorithm ?bs ! p)"
    proof (intro allI impI)
      fix p assume "p < length (done @ [t])"
      then consider "p < ?p" | "p = ?p" by fastforce
      then show "instr_ok g outputv nodes p (bs_algorithm ?bs ! p)"
      proof cases
        case 1
        then have "bs_algorithm ?bs ! p = bs_algorithm bs ! p" using al len by (simp add: nth_append)
        then show ?thesis using ins 1 by simp
      next
        case 2
        then have "bs_algorithm ?bs ! p = ae" using al len by (simp add: nth_append)
        then show ?thesis using iok 2 by simp
      qed
    qed
    have notin: "n \<notin> snd ` set (bs_symb_loc bs)"
    proof
      assume "n \<in> snd ` set (bs_symb_loc bs)"
      then obtain i where "(i, n) \<in> set (bs_symb_loc bs)" by auto
      then have i: "i < ?p" "nodes ! i = Some n" using s1 by blast+
      have "temp n = int i" using tpos [of i] i pl by simp
      moreover have "temp n = int ?p" using tpos [OF pl npn] .
      ultimately show False using i(1) by simp
    qed
    have b4: "\<forall>i m. (i, m) \<in> set (bs_symb_loc ?bs)
            \<longrightarrow> i < length (done @ [t]) \<and> nodes ! i = Some m \<and> isSymbolic (g ! m)"
    proof (intro allI impI)
      fix i m assume a: "(i, m) \<in> set (bs_symb_loc ?bs)"
      show "i < length (done @ [t]) \<and> nodes ! i = Some m \<and> isSymbolic (g ! m)"
      proof (cases "(i, m) \<in> set (bs_symb_loc bs)")
        case True
        then show ?thesis using s1 by fastforce
      next
        case False
        then have "isSymbolic (g ! n)" "i = ?p" "m = n"
          using a sl len by (auto split: if_splits)
        then show ?thesis using npn by simp
      qed
    qed
    have b5: "\<forall>p < length (done @ [t]). \<forall>m. nodes ! p = Some m \<and> isSymbolic (g ! m)
            \<longrightarrow> (p, m) \<in> set (bs_symb_loc ?bs)"
    proof (intro allI impI)
      fix p m assume p: "p < length (done @ [t])" and m: "nodes ! p = Some m \<and> isSymbolic (g ! m)"
      from p consider "p < ?p" | "p = ?p" by fastforce
      then show "(p, m) \<in> set (bs_symb_loc ?bs)"
      proof cases
        case 1
        then have "(p, m) \<in> set (bs_symb_loc bs)" using s2 m by blast
        then show ?thesis using sl by simp
      next
        case 2
        then have "m = n" using m npn by simp
        then show ?thesis using sl m 2 len by simp
      qed
    qed
    have b6: "distinct (map snd (bs_symb_loc ?bs))"
      using s3 notin sl by simp
    have "build_inv g outputv nodes (done @ [t]) ?bs"
      unfolding build_inv_def using b1 b2 b3 b4 b5 b6 by blast
    then show ?thesis using r Some by blast
  next
    case None
    let ?k = "count_null done"
    have "count_null done < count_null nodes" using nodes None by (simp add: count_null_def)
    then have kl: "?k < length (concat outputv)"
      using opl unfolding outputs_placed_def by simp
    note cr = cursor_ok_in_range [OF cur kl]
    obtain ae bs1 where
      r: "build_step g outputv temp None bs = Some (push_instr ae bs1)"
      and o: "op ae = OP_OUTPUT" and rs: "res ae = bs_curr_oind bs" and a1: "arg_i1 ae = bs_curr_nz bs"
      and a0: "arg_i0 ae = nat (temp (outputv ! bs_curr_oind bs ! bs_curr_nz bs))"
      and al: "bs_algorithm bs1 = bs_algorithm bs"
      and co: "bs_curr_oind bs1 = (if Suc (bs_curr_nz bs) \<ge> length (outputv ! bs_curr_oind bs)
                            then skip_empty_from outputv (Suc (bs_curr_oind bs))
                            else bs_curr_oind bs)"
      and cn: "bs_curr_nz bs1 = (if Suc (bs_curr_nz bs) \<ge> length (outputv ! bs_curr_oind bs)
                          then 0 else Suc (bs_curr_nz bs))"
      and sl: "bs_symb_loc bs1 = bs_symb_loc bs"
      using build_step_null [OF cr(1) cr(2), of g temp] by blast
    let ?bs = "push_instr ae bs1"
    have npn: "nodes ! ?p = None" using np None by simp
    obtain q where q: "q < ?p" "nodes ! q = Some (concat outputv ! ?k)"
      using opl pl npn tk unfolding outputs_placed_def by fastforce
    have "temp (concat outputv ! ?k) = int q" using tpos [of q] q pl by simp
    then have a0q: "arg_i0 ae = q" using a0 cr(3) by simp
    have iok: "instr_ok g outputv nodes ?p ae"
      unfolding instr_ok_def using npn o a0q q rs a1 cr(1) cur tk by simp
    have b1: "length (bs_algorithm ?bs) = length (done @ [t])" using al len by simp
    have b2: "cursor_ok outputv (bs_curr_oind ?bs) (bs_curr_nz ?bs) (count_null (done @ [t]))"
      using cursor_ok_step [OF cur cr(1)] co cn None by (simp add: count_null_def)
    have b3: "\<forall>p < length (done @ [t]). instr_ok g outputv nodes p (bs_algorithm ?bs ! p)"
    proof (intro allI impI)
      fix p assume "p < length (done @ [t])"
      then consider "p < ?p" | "p = ?p" by fastforce
      then show "instr_ok g outputv nodes p (bs_algorithm ?bs ! p)"
      proof cases
        case 1
        then have "bs_algorithm ?bs ! p = bs_algorithm bs ! p" using al len by (simp add: nth_append)
        then show ?thesis using ins 1 by simp
      next
        case 2
        then have "bs_algorithm ?bs ! p = ae" using al len by (simp add: nth_append)
        then show ?thesis using iok 2 by simp
      qed
    qed
    have b4: "\<forall>i m. (i, m) \<in> set (bs_symb_loc ?bs)
            \<longrightarrow> i < length (done @ [t]) \<and> nodes ! i = Some m \<and> isSymbolic (g ! m)"
      using s1 sl by fastforce
    have b5: "\<forall>p < length (done @ [t]). \<forall>m. nodes ! p = Some m \<and> isSymbolic (g ! m)
            \<longrightarrow> (p, m) \<in> set (bs_symb_loc ?bs)"
    proof (intro allI impI)
      fix p m assume p: "p < length (done @ [t])" and m: "nodes ! p = Some m \<and> isSymbolic (g ! m)"
      from p consider "p < ?p" | "p = ?p" by fastforce
      then show "(p, m) \<in> set (bs_symb_loc ?bs)"
      proof cases
        case 1
        then show ?thesis using s2 m sl by simp
      next
        case 2
        then show ?thesis using m npn by simp
      qed
    qed
    have b6: "distinct (map snd (bs_symb_loc ?bs))" using s3 sl by simp
    have "build_inv g outputv nodes (done @ [t]) ?bs"
      unfolding build_inv_def using b1 b2 b3 b4 b5 b6 by blast
    then show ?thesis using r None by blast
  qed
qed

lemma build_loop_ok:
  fixes g :: "'a::zero graph"
  assumes nok: "nodes_ok g nodes"
      and opl: "outputs_placed nodes (concat outputv)" and tp: "temp_pos nodes temp"
  shows "nodes = pre @ rest \<Longrightarrow> build_inv g outputv nodes pre bs \<Longrightarrow>
         \<exists>bs'. build_loop g outputv temp rest bs = Some bs' \<and> build_inv g outputv nodes nodes bs'"
proof (induction rest arbitrary: pre bs)
  case Nil
  then show ?case by simp
next
  case (Cons t rest)
  obtain bs1 where s: "build_step g outputv temp t bs = Some bs1"
    and i: "build_inv g outputv nodes (pre @ [t]) bs1"
    using build_step_ok [OF Cons.prems(1) nok opl tp Cons.prems(2)] by blast
  have "nodes = (pre @ [t]) @ rest" using Cons.prems(1) by simp
  from Cons.IH [OF this i] show ?case using s by simp
qed

section \<open>Slot allocation\<close>

lemma release_child_simps [simp]:
  "as_place (release_child e c st) = as_place st"
  "as_worksize (release_child e c st) = as_worksize st"
  by (simp_all add: release_child_def Let_def)

lemma release_child_unused:
  "set (as_unused (release_child e c st)) \<subseteq> insert (as_place st ! arg_i e c) (set (as_unused st))"
  by (auto simp: release_child_def Let_def)

lemma release_children_fold:
  "as_place (fold (release_child e) cs st) = as_place st
   \<and> as_worksize (fold (release_child e) cs st) = as_worksize st
   \<and> set (as_unused (fold (release_child e) cs st))
       \<subseteq> (\<lambda>c. as_place st ! arg_i e c) ` set cs \<union> set (as_unused st)"
proof (induction cs arbitrary: st)
  case Nil
  then show ?case by simp
next
  case (Cons c cs)
  have "set (as_unused (fold (release_child e) cs (release_child e c st)))
       \<subseteq> (\<lambda>c'. as_place (release_child e c st) ! arg_i e c') ` set cs
           \<union> set (as_unused (release_child e c st))"
    using Cons.IH [of "release_child e c st"] by blast
  then have "set (as_unused (fold (release_child e) (c # cs) st))
       \<subseteq> (\<lambda>c'. as_place st ! arg_i e c') ` set (c # cs) \<union> set (as_unused st)"
    using release_child_unused [of e c st] by auto
  then show ?case using Cons.IH [of "release_child e c st"] by simp
qed

lemma release_children_simps [simp]:
  "as_place (release_children e st) = as_place st"
  "as_worksize (release_children e st) = as_worksize st"
  using release_children_fold [of e "rev [0 ..< ndeps (op e)]" st]
  by (simp_all add: release_children_def)

lemma release_children_unused:
  assumes "s \<in> set (as_unused (release_children e st))"
  shows "s \<in> set (as_unused st) \<or> (\<exists>c < ndeps (op e). s = as_place st ! arg_i e c)"
proof -
  have "set (as_unused (release_children e st))
       \<subseteq> (\<lambda>c. as_place st ! arg_i e c) ` set (rev [0 ..< ndeps (op e)]) \<union> set (as_unused st)"
    using release_children_fold [of e "rev [0 ..< ndeps (op e)]" st]
    by (simp add: release_children_def)
  then have "s \<in> (\<lambda>c. as_place st ! arg_i e c) ` set (rev [0 ..< ndeps (op e)]) \<union> set (as_unused st)"
    using assms by blast
  then show ?thesis by auto
qed

lemma ndeps_cases: "ndeps opc = 0 \<or> ndeps opc = 1 \<or> ndeps opc = 2"
  by (cases opc) simp_all

lemma save_children_args:
  "res (save_children place e) = res e"
  "c < ndeps (op e) \<Longrightarrow> arg_i (save_children place e) c = place ! arg_i e c"
  "ndeps (op e) \<le> 1 \<Longrightarrow> arg_i1 (save_children place e) = arg_i1 e"
proof -
  consider "ndeps (op e) = 0" | "ndeps (op e) = 1" | "ndeps (op e) = 2"
    using ndeps_cases [of "op e"] by auto
  then have "res (save_children place e) = res e
     \<and> (c < ndeps (op e) \<longrightarrow> arg_i (save_children place e) c = place ! arg_i e c)
     \<and> (ndeps (op e) \<le> 1 \<longrightarrow> arg_i1 (save_children place e) = arg_i1 e)"
  proof cases
    case 1
    then show ?thesis by (simp add: save_children_def)
  next
    case 2
    then show ?thesis by (simp add: save_children_def set_arg_i_def arg_i_def)
  next
    case 3
    then have "[0 ..< ndeps (op e)] = [0, 1]" by (simp add: upt_rec)
    then show ?thesis using 3 by (auto simp: save_children_def set_arg_i_def arg_i_def less_Suc_eq)
  qed
  then show "res (save_children place e) = res e"
    "c < ndeps (op e) \<Longrightarrow> arg_i (save_children place e) c = place ! arg_i e c"
    "ndeps (op e) \<le> 1 \<Longrightarrow> arg_i1 (save_children place e) = arg_i1 e"
    by blast+
qed

lemma make_binary_simps [simp]:
  "op (make_binary e) = op e" "res (make_binary e) = res e"
  "arg_i0 (make_binary e) = arg_i0 e"
  by (simp_all add: make_binary_def)

lemma make_binary_args:
  "c < ndeps (op e) \<Longrightarrow> arg_i (make_binary e) c = arg_i e c"
  by (auto simp: make_binary_def arg_i_def)

lemma make_binary_output: "op e = OP_OUTPUT \<Longrightarrow> make_binary e = e"
  by (simp add: make_binary_def)

lemma find_place_props:
  assumes "find_place live e st = (e1, st2)"
  shows "op e1 = op e" and "arg_i0 e1 = arg_i0 e" and "arg_i1 e1 = arg_i1 e"
    and "length (as_place st2) = length (as_place st)"
    and "op e = OP_OUTPUT \<Longrightarrow> e1 = e \<and> st2 = st"
    and "op e \<noteq> OP_OUTPUT \<Longrightarrow>
           as_place st2 = (as_place st)[res e := res e1]
           \<and> ((res e1 \<in> set (as_unused st) \<and> as_worksize st2 = as_worksize st
                \<and> set (as_unused st2) \<subseteq> set (as_unused st))
               \<or> (res e1 = as_worksize st \<and> as_worksize st2 = Suc (as_worksize st)
                   \<and> as_unused st2 = as_unused st))"
proof -
  show "op e1 = op e" "arg_i0 e1 = arg_i0 e" "arg_i1 e1 = arg_i1 e"
    "length (as_place st2) = length (as_place st)"
    using assms by (auto simp: find_place_def split: if_splits)
  show "op e = OP_OUTPUT \<Longrightarrow> e1 = e \<and> st2 = st"
    using assms by (simp add: find_place_def)
  show "op e \<noteq> OP_OUTPUT \<Longrightarrow>
           as_place st2 = (as_place st)[res e := res e1]
           \<and> ((res e1 \<in> set (as_unused st) \<and> as_worksize st2 = as_worksize st
                \<and> set (as_unused st2) \<subseteq> set (as_unused st))
               \<or> (res e1 = as_worksize st \<and> as_worksize st2 = Suc (as_worksize st)
                   \<and> as_unused st2 = as_unused st))"
  proof -
    assume no: "op e \<noteq> OP_OUTPUT"
    show ?thesis
    proof (cases "live \<and> as_unused st \<noteq> []")
      case True
      then obtain u us where u: "as_unused st = u # us" by (cases "as_unused st") auto
      then show ?thesis using assms no True by (auto simp: find_place_def)
    next
      case False
      then show ?thesis using assms no by (auto simp: find_place_def)
    qed
  qed
qed

lemma alloc_step_inv:
  assumes pos: "pos_ok alg0" and k: "k < length alg0" and inv: "alloc_inv alg0 k xs st"
      and step: "alloc_step live (alg0 ! k) st = (e', st')"
  shows "alloc_inv alg0 (Suc k) (xs @ [e']) st'"
proof -
  let ?e = "alg0 ! k"
  let ?st1 = "release_children ?e st"
  obtain e1 st2 where fp: "find_place live ?e ?st1 = (e1, st2)"
    by (cases "find_place live ?e ?st1")
  have e': "e' = make_binary (save_children (as_place st2) e1)" and st': "st' = st2"
    using step fp by (auto simp: alloc_step_def Let_def)
  have len: "length xs = k" and lp: "length alg0 \<le> length (as_place st)"
    and i_op: "\<forall>q < k. op (xs ! q) = op (alg0 ! q)"
    and i_res: "\<forall>q < k. op (alg0 ! q) \<noteq> OP_OUTPUT \<longrightarrow>
            as_place st ! q = res (xs ! q) \<and> res (xs ! q) < as_worksize st"
    and i_out: "\<forall>q < k. op (alg0 ! q) = OP_OUTPUT \<longrightarrow>
            res (xs ! q) = res (alg0 ! q) \<and> arg_i1 (xs ! q) = arg_i1 (alg0 ! q)"
    and i_arg: "\<forall>q < k. \<forall>c < ndeps (op (alg0 ! q)). arg_i (xs ! q) c = res (xs ! arg_i (alg0 ! q) c)"
    and i_un: "\<forall>q < k. unary_ok (xs ! q)"
    and i_free: "\<forall>s \<in> set (as_unused st). s < as_worksize st"
    and i_slot: "\<forall>s < as_worksize st. \<exists>q < k. op (alg0 ! q) \<noteq> OP_OUTPUT \<and> res (xs ! q) = s"
    using inv unfolding alloc_inv_def by blast+
  have p_res: "op ?e \<noteq> OP_OUTPUT \<longrightarrow> res ?e = k"
    and p_arg: "\<forall>c < ndeps (op ?e). arg_i ?e c < k \<and> op (alg0 ! arg_i ?e c) \<noteq> OP_OUTPUT"
    using pos k unfolding pos_ok_def by blast+
  note f = find_place_props [OF fp]
  have ope1: "op e1 = op ?e" using f(1) .
  have ope': "op e' = op ?e" using e' ope1 by simp
  have arg1: "\<And>c. arg_i e1 c = arg_i ?e c" using f(2) f(3) by (simp add: arg_i_def)
  have nth_old: "\<And>q. q < k \<Longrightarrow> (xs @ [e']) ! q = xs ! q" using len by (simp add: nth_append)
  have nth_new: "(xs @ [e']) ! k = e'" using len by (auto simp: nth_append)
  have place_arg: "\<And>c. c < ndeps (op ?e) \<Longrightarrow> as_place st ! arg_i ?e c = res (xs ! arg_i ?e c)
                       \<and> res (xs ! arg_i ?e c) < as_worksize st"
    using p_arg i_res by blast
  have free1: "\<forall>s \<in> set (as_unused ?st1). s < as_worksize st"
  proof
    fix s assume "s \<in> set (as_unused ?st1)"
    then consider "s \<in> set (as_unused st)" | c where "c < ndeps (op ?e)" "s = as_place st ! arg_i ?e c"
      using release_children_unused by blast
    then show "s < as_worksize st"
    proof cases
      case 1
      then show ?thesis using i_free by blast
    next
      case 2
      then show ?thesis using place_arg [of c] by simp
    qed
  qed
  have b1: "length (xs @ [e']) = Suc k" using len by simp
  have b3: "\<forall>q < Suc k. op ((xs @ [e']) ! q) = op (alg0 ! q)"
  proof (intro allI impI)
    fix q assume "q < Suc k"
    then consider "q < k" | "q = k" by fastforce
    then show "op ((xs @ [e']) ! q) = op (alg0 ! q)"
      using i_op nth_old nth_new ope' by cases simp_all
  qed
  have b7: "\<forall>q < Suc k. unary_ok ((xs @ [e']) ! q)"
  proof (intro allI impI)
    fix q assume "q < Suc k"
    then consider "q < k" | "q = k" by fastforce
    then show "unary_ok ((xs @ [e']) ! q)"
    proof cases
      case 1
      then show ?thesis using i_un nth_old by simp
    next
      case 2
      then show ?thesis using nth_new e' unary_ok_make_binary by simp
    qed
  qed
  show ?thesis
  proof (cases "op ?e = OP_OUTPUT")
    case True
    have e1e: "e1 = ?e" and st2e: "st2 = ?st1" using f(5) [OF True] by simp_all
    have e'2: "e' = save_children (as_place st) ?e"
      using e' e1e st2e True by (simp add: make_binary_output)
    have nd: "ndeps (op ?e) = 1" using True by simp
    have r': "res e' = res ?e" using e'2 by (simp add: save_children_args(1))
    have a1': "arg_i1 e' = arg_i1 ?e" using e'2 nd by (simp add: save_children_args(3))
    have a0': "\<And>c. c < ndeps (op ?e) \<Longrightarrow> arg_i e' c = res (xs ! arg_i ?e c)"
      using e'2 place_arg by (simp add: save_children_args(2))
    have pl': "as_place st' = as_place st" and ws': "as_worksize st' = as_worksize st"
      using st' st2e by simp_all
    have b2: "length alg0 \<le> length (as_place st')" using lp pl' by simp
    have b4: "\<forall>q < Suc k. op (alg0 ! q) \<noteq> OP_OUTPUT \<longrightarrow>
            as_place st' ! q = res ((xs @ [e']) ! q) \<and> res ((xs @ [e']) ! q) < as_worksize st'"
    proof (intro allI impI)
      fix q assume q: "q < Suc k" and no: "op (alg0 ! q) \<noteq> OP_OUTPUT"
      then have "q < k" using True by (cases "q = k") auto
      then show "as_place st' ! q = res ((xs @ [e']) ! q) \<and> res ((xs @ [e']) ! q) < as_worksize st'"
        using i_res no nth_old pl' ws' by simp
    qed
    have b5: "\<forall>q < Suc k. op (alg0 ! q) = OP_OUTPUT \<longrightarrow>
            res ((xs @ [e']) ! q) = res (alg0 ! q) \<and> arg_i1 ((xs @ [e']) ! q) = arg_i1 (alg0 ! q)"
    proof (intro allI impI)
      fix q assume "q < Suc k" and o: "op (alg0 ! q) = OP_OUTPUT"
      then consider "q < k" | "q = k" by fastforce
      then show "res ((xs @ [e']) ! q) = res (alg0 ! q) \<and> arg_i1 ((xs @ [e']) ! q) = arg_i1 (alg0 ! q)"
      proof cases
        case 1
        then show ?thesis using i_out o nth_old by simp
      next
        case 2
        then show ?thesis using nth_new r' a1' by simp
      qed
    qed
    have b6: "\<forall>q < Suc k. \<forall>c < ndeps (op (alg0 ! q)).
                arg_i ((xs @ [e']) ! q) c = res ((xs @ [e']) ! arg_i (alg0 ! q) c)"
    proof (intro allI impI)
      fix q c assume "q < Suc k" and c: "c < ndeps (op (alg0 ! q))"
      then consider "q < k" | "q = k" by fastforce
      then show "arg_i ((xs @ [e']) ! q) c = res ((xs @ [e']) ! arg_i (alg0 ! q) c)"
      proof cases
        case 1
        have "arg_i (alg0 ! q) c < q" using pos 1 k c unfolding pos_ok_def by simp
        then have "arg_i (alg0 ! q) c < k" using 1 by simp
        then show ?thesis using i_arg 1 c nth_old by simp
      next
        case 2
        have "arg_i ?e c < k" using p_arg c 2 by simp
        then show ?thesis using 2 nth_new nth_old a0' c by simp
      qed
    qed
    have b8: "\<forall>s \<in> set (as_unused st'). s < as_worksize st'"
      using free1 st' st2e ws' by simp
    have b9: "\<forall>s < as_worksize st'. \<exists>q < Suc k. op (alg0 ! q) \<noteq> OP_OUTPUT \<and> res ((xs @ [e']) ! q) = s"
    proof (intro allI impI)
      fix s assume "s < as_worksize st'"
      then obtain q where q: "q < k" "op (alg0 ! q) \<noteq> OP_OUTPUT" "res (xs ! q) = s"
        using i_slot ws' by auto
      then have "q < Suc k \<and> op (alg0 ! q) \<noteq> OP_OUTPUT \<and> res ((xs @ [e']) ! q) = s"
        using nth_old by simp
      then show "\<exists>q < Suc k. op (alg0 ! q) \<noteq> OP_OUTPUT \<and> res ((xs @ [e']) ! q) = s" by blast
    qed
    show ?thesis unfolding alloc_inv_def using b1 b2 b3 b4 b5 b6 b7 b8 b9 by blast
  next
    case False
    have rk: "res ?e = k" using p_res False by simp
    have pl2: "as_place st2 = (as_place st)[k := res e1]"
      using f(6) [OF False] rk by simp
    have alt: "(res e1 \<in> set (as_unused ?st1) \<and> as_worksize st2 = as_worksize st
                \<and> set (as_unused st2) \<subseteq> set (as_unused ?st1))
               \<or> (res e1 = as_worksize st \<and> as_worksize st2 = Suc (as_worksize st)
                   \<and> as_unused st2 = as_unused ?st1)"
      using f(6) [OF False] by simp
    have r1: "res e1 < as_worksize st2" using alt free1 by auto
    have wsle: "as_worksize st \<le> as_worksize st2" using alt by auto
    have free2: "\<forall>s \<in> set (as_unused st2). s < as_worksize st2"
    proof
      fix s assume "s \<in> set (as_unused st2)"
      then have "s \<in> set (as_unused ?st1)" using alt by auto
      then have "s < as_worksize st" using free1 by blast
      then show "s < as_worksize st2" using wsle by simp
    qed
    have r': "res e' = res e1" using e' by (simp add: save_children_args(1))
    have kp: "k < length (as_place st)" using k lp by simp
    have plk: "as_place st2 ! k = res e1" using pl2 kp by simp
    have plq: "\<And>q. q < k \<Longrightarrow> as_place st2 ! q = as_place st ! q" using pl2 by simp
    have a': "\<And>c. c < ndeps (op ?e) \<Longrightarrow> arg_i e' c = res (xs ! arg_i ?e c)"
    proof -
      fix c assume c: "c < ndeps (op ?e)"
      have ak: "arg_i ?e c < k" using p_arg c by simp
      have "arg_i e' c = arg_i (save_children (as_place st2) e1) c"
        using e' c ope1 by (simp add: make_binary_args)
      also have "\<dots> = as_place st2 ! arg_i e1 c"
        using c ope1 by (simp add: save_children_args(2))
      also have "\<dots> = as_place st ! arg_i ?e c" using arg1 plq [OF ak] by simp
      also have "\<dots> = res (xs ! arg_i ?e c)" using place_arg [OF c] by simp
      finally show "arg_i e' c = res (xs ! arg_i ?e c)" .
    qed
    have b2: "length alg0 \<le> length (as_place st')" using lp st' pl2 by simp
    have b4: "\<forall>q < Suc k. op (alg0 ! q) \<noteq> OP_OUTPUT \<longrightarrow>
            as_place st' ! q = res ((xs @ [e']) ! q) \<and> res ((xs @ [e']) ! q) < as_worksize st'"
    proof (intro allI impI)
      fix q assume "q < Suc k" and no: "op (alg0 ! q) \<noteq> OP_OUTPUT"
      then consider "q < k" | "q = k" by fastforce
      then show "as_place st' ! q = res ((xs @ [e']) ! q) \<and> res ((xs @ [e']) ! q) < as_worksize st'"
      proof cases
        case 1
        then have "as_place st ! q = res (xs ! q)" "res (xs ! q) < as_worksize st"
          using i_res no by simp_all
        then show ?thesis using 1 nth_old plq st' wsle by simp
      next
        case 2
        then show ?thesis using nth_new r' plk r1 st' by simp
      qed
    qed
    have b5: "\<forall>q < Suc k. op (alg0 ! q) = OP_OUTPUT \<longrightarrow>
            res ((xs @ [e']) ! q) = res (alg0 ! q) \<and> arg_i1 ((xs @ [e']) ! q) = arg_i1 (alg0 ! q)"
    proof (intro allI impI)
      fix q assume q: "q < Suc k" and o: "op (alg0 ! q) = OP_OUTPUT"
      then have "q < k" using False by (cases "q = k") auto
      then show "res ((xs @ [e']) ! q) = res (alg0 ! q) \<and> arg_i1 ((xs @ [e']) ! q) = arg_i1 (alg0 ! q)"
        using i_out o nth_old by simp
    qed
    have b6: "\<forall>q < Suc k. \<forall>c < ndeps (op (alg0 ! q)).
                arg_i ((xs @ [e']) ! q) c = res ((xs @ [e']) ! arg_i (alg0 ! q) c)"
    proof (intro allI impI)
      fix q c assume "q < Suc k" and c: "c < ndeps (op (alg0 ! q))"
      then consider "q < k" | "q = k" by fastforce
      then show "arg_i ((xs @ [e']) ! q) c = res ((xs @ [e']) ! arg_i (alg0 ! q) c)"
      proof cases
        case 1
        have "arg_i (alg0 ! q) c < q" using pos 1 k c unfolding pos_ok_def by simp
        then have "arg_i (alg0 ! q) c < k" using 1 by simp
        then show ?thesis using i_arg 1 c nth_old by simp
      next
        case 2
        have "arg_i ?e c < k" using p_arg c 2 by simp
        then show ?thesis using 2 nth_new nth_old a' c by simp
      qed
    qed
    have b8: "\<forall>s \<in> set (as_unused st'). s < as_worksize st'" using free2 st' by simp
    have b9: "\<forall>s < as_worksize st'. \<exists>q < Suc k. op (alg0 ! q) \<noteq> OP_OUTPUT \<and> res ((xs @ [e']) ! q) = s"
    proof (intro allI impI)
      fix s assume s: "s < as_worksize st'"
      show "\<exists>q < Suc k. op (alg0 ! q) \<noteq> OP_OUTPUT \<and> res ((xs @ [e']) ! q) = s"
      proof (cases "s < as_worksize st")
        case True
        then obtain q where q: "q < k" "op (alg0 ! q) \<noteq> OP_OUTPUT" "res (xs ! q) = s"
          using i_slot by auto
        then have "q < Suc k \<and> op (alg0 ! q) \<noteq> OP_OUTPUT \<and> res ((xs @ [e']) ! q) = s"
          using nth_old by simp
        then show ?thesis by blast
      next
        case nl: False
        then have "res e1 = as_worksize st" "as_worksize st2 = Suc (as_worksize st)"
          using alt s st' by auto
        then have "s = res e1" using s st' nl by simp
        then have "k < Suc k \<and> op (alg0 ! k) \<noteq> OP_OUTPUT \<and> res ((xs @ [e']) ! k) = s"
          using nth_new r' False by simp
        then show ?thesis by blast
      qed
    qed
    show ?thesis unfolding alloc_inv_def using b1 b2 b3 b4 b5 b6 b7 b8 b9 by blast
  qed
qed

lemma alloc_loop_inv:
  assumes pos: "pos_ok alg0"
  shows "alg0 = pre @ rest \<Longrightarrow> alloc_inv alg0 (length pre) xs st \<Longrightarrow>
         alloc_loop live rest st = (rest', st') \<Longrightarrow>
         alloc_inv alg0 (length alg0) (xs @ rest') st'"
proof (induction rest arbitrary: pre xs st rest' st')
  case Nil
  then show ?case by simp
next
  case (Cons e rest)
  obtain e1 st1 where s: "alloc_step live e st = (e1, st1)" by (cases "alloc_step live e st")
  obtain r2 st2 where l: "alloc_loop live rest st1 = (r2, st2)" by (cases "alloc_loop live rest st1")
  have r: "rest' = e1 # r2" and st: "st' = st2" using Cons.prems(3) s l by simp_all
  have k: "length pre < length alg0" and e: "alg0 ! length pre = e" using Cons.prems(1) by simp_all
  have i1: "alloc_inv alg0 (Suc (length pre)) (xs @ [e1]) st1"
    using alloc_step_inv [OF pos k Cons.prems(2)] s e by simp
  have "alg0 = (pre @ [e]) @ rest" using Cons.prems(1) by simp
  moreover have "alloc_inv alg0 (length (pre @ [e])) (xs @ [e1]) st1" using i1 by simp
  ultimately have "alloc_inv alg0 (length alg0) ((xs @ [e1]) @ r2) st2"
    using Cons.IH l by blast
  then show ?case using r st by simp
qed

section \<open>Input instructions and free variables\<close>

lemma reset_temp_notin: "Some m \<notin> set ns \<Longrightarrow> reset_temp ns temp m = temp m"
proof (induction ns arbitrary: temp)
  case Nil
  then show ?case by simp
next
  case (Cons t ns)
  show ?case
  proof (cases t)
    case None
    then show ?thesis using Cons by simp
  next
    case (Some n)
    have "reset_temp ns (temp(n := 0)) m = (temp(n := 0)) m"
      using Cons.prems by (intro Cons.IH) simp
    then show ?thesis using Some Cons.prems by simp
  qed
qed

lemma reset_temp_in: "Some m \<in> set ns \<Longrightarrow> reset_temp ns temp m = 0"
proof (induction ns arbitrary: temp)
  case Nil
  then show ?case by simp
next
  case (Cons t ns)
  show ?case
  proof (cases "Some m \<in> set ns")
    case True
    have "\<And>temp'. reset_temp ns temp' m = 0" using True by (rule Cons.IH)
    then show ?thesis by (cases t) simp_all
  next
    case False
    then have t: "t = Some m" using Cons.prems by simp
    have "reset_temp ns (temp(m := 0)) m = (temp(m := 0)) m"
      using False by (rule reset_temp_notin)
    then show ?thesis using t by simp
  qed
qed

lemma mark_symb_loc_notin:
  "n \<notin> snd ` set sl \<Longrightarrow> mark_symb_loc sl temp n = temp n"
  unfolding mark_symb_loc_def by (induction sl arbitrary: temp) auto

lemma mark_symb_loc_in:
  "distinct (map snd sl) \<Longrightarrow> (i, n) \<in> set sl \<Longrightarrow> mark_symb_loc sl temp n = int i + 1"
proof (induction sl arbitrary: temp)
  case Nil
  then show ?case by simp
next
  case (Cons x sl)
  obtain j m where x: "x = (j, m)" by (cases x)
  have ms: "mark_symb_loc (x # sl) temp = mark_symb_loc sl (temp(m := int j + 1))"
    using x by (simp add: mark_symb_loc_def)
  show ?case
  proof (cases "(i, n) \<in> set sl")
    case True
    have d: "distinct (map snd sl)" using Cons.prems(1) by simp
    have "mark_symb_loc sl (temp(m := int j + 1)) n = int i + 1"
      using d True by (rule Cons.IH)
    then show ?thesis using ms by simp
  next
    case False
    then have e: "i = j" "n = m" using Cons.prems(2) x by simp_all
    have "n \<notin> snd ` set sl" using Cons.prems(1) x e by simp
    then show ?thesis using mark_symb_loc_notin [of n sl] ms e by simp
  qed
qed

lemma input_row_temp_other:
  "n \<notin> set ns \<Longrightarrow> snd (input_row ind nz ns st) n = snd st n"
proof (induction ns arbitrary: nz st)
  case Nil
  then show ?case by simp
next
  case (Cons m ns)
  obtain alg temp where st: "st = (alg, temp)" by (cases st)
  show ?case using Cons st by (simp add: Let_def)
qed

lemma input_instructions_temp_other:
  "n \<notin> set (concat rows) \<Longrightarrow> snd (input_instructions ind rows st) n = snd st n"
  by (induction rows arbitrary: ind st) (simp_all add: input_row_temp_other)

lemma mark_inv_step:
  assumes sl: "symb_loc_ok sl alg1" and inv: "mark_inv N sl alg1 alg temp" and nN: "n < N"
  shows "mark_inv N sl alg1
           (fst (let i = temp n - 1 in
                 if i \<ge> 0 then
                   (alg[nat i := (alg ! nat i)\<lparr>op := OP_INPUT, arg_i0 := ind, arg_i1 := nz\<rparr>],
                    temp(n := 0))
                 else (alg, temp)))
           (snd (let i = temp n - 1 in
                 if i \<ge> 0 then
                   (alg[nat i := (alg ! nat i)\<lparr>op := OP_INPUT, arg_i0 := ind, arg_i1 := nz\<rparr>],
                    temp(n := 0))
                 else (alg, temp)))"
proof (cases "temp n - 1 \<ge> 0")
  case False
  then show ?thesis using inv by (simp add: Let_def)
next
  case True
  have d: "distinct (map snd sl)"
    and fn: "\<forall>i n m. (i, n) \<in> set sl \<and> (i, m) \<in> set sl \<longrightarrow> n = m"
    and pr: "\<forall>i n. (i, n) \<in> set sl \<longrightarrow> i < length alg1 \<and> op (alg1 ! i) = OP_PARAMETER"
    using sl unfolding symb_loc_ok_def by blast+
  have m1: "length alg = length alg1"
    and m2: "\<forall>p < length alg1. alg ! p = alg1 ! p
            \<or> (op (alg1 ! p) = OP_PARAMETER \<and> op (alg ! p) = OP_INPUT
                \<and> res (alg ! p) = res (alg1 ! p))"
    and m3: "\<forall>n < N. temp n \<noteq> 0 \<longrightarrow> (\<exists>i. (i, n) \<in> set sl \<and> temp n = int i + 1 \<and> alg ! i = alg1 ! i)"
    and m4: "\<forall>i n. (i, n) \<in> set sl \<and> temp n = 0 \<longrightarrow> op (alg ! i) = OP_INPUT"
    using inv unfolding mark_inv_def by blast+
  have "temp n \<noteq> 0" using True by auto
  then obtain i where i: "(i, n) \<in> set sl" "temp n = int i + 1" "alg ! i = alg1 ! i"
    using m3 nN by blast
  have ni: "nat (temp n - 1) = i" using i(2) by simp
  have il: "i < length alg1" and ip: "op (alg1 ! i) = OP_PARAMETER" using pr i(1) by blast+
  let ?alg = "alg[i := (alg ! i)\<lparr>op := OP_INPUT, arg_i0 := ind, arg_i1 := nz\<rparr>]"
  let ?temp = "temp(n := 0)"
  have other: "\<And>j m. (j, m) \<in> set sl \<Longrightarrow> m \<noteq> n \<Longrightarrow> j \<noteq> i"
    using fn i(1) by blast
  have a1: "length ?alg = length alg1" using m1 by simp
  have a2: "\<forall>p < length alg1. ?alg ! p = alg1 ! p
            \<or> (op (alg1 ! p) = OP_PARAMETER \<and> op (?alg ! p) = OP_INPUT
                \<and> res (?alg ! p) = res (alg1 ! p))"
  proof (intro allI impI)
    fix p assume p: "p < length alg1"
    show "?alg ! p = alg1 ! p
            \<or> (op (alg1 ! p) = OP_PARAMETER \<and> op (?alg ! p) = OP_INPUT
                \<and> res (?alg ! p) = res (alg1 ! p))"
    proof (cases "p = i")
      case True
      then show ?thesis using il m1 ip i(3) by simp
    next
      case False
      then show ?thesis using m2 p by simp
    qed
  qed
  have a3: "\<forall>m < N. ?temp m \<noteq> 0 \<longrightarrow> (\<exists>j. (j, m) \<in> set sl \<and> ?temp m = int j + 1 \<and> ?alg ! j = alg1 ! j)"
  proof (intro allI impI)
    fix m assume mN: "m < N" and m: "?temp m \<noteq> 0"
    then have mn: "m \<noteq> n" and tm: "temp m \<noteq> 0" by (auto split: if_splits)
    then obtain j where j: "(j, m) \<in> set sl" "temp m = int j + 1" "alg ! j = alg1 ! j"
      using m3 mN by blast
    have "j \<noteq> i" using other [OF j(1) mn] .
    then have "?alg ! j = alg1 ! j" using j(3) by simp
    then show "\<exists>j. (j, m) \<in> set sl \<and> ?temp m = int j + 1 \<and> ?alg ! j = alg1 ! j"
      using j mn by auto
  qed
  have a4: "\<forall>j m. (j, m) \<in> set sl \<and> ?temp m = 0 \<longrightarrow> op (?alg ! j) = OP_INPUT"
  proof (intro allI impI)
    fix j m assume jm: "(j, m) \<in> set sl \<and> ?temp m = 0"
    show "op (?alg ! j) = OP_INPUT"
    proof (cases "m = n")
      case True
      have "j = i"
      proof -
        have jn: "(j, n) \<in> set sl" using jm True by simp
        have "inj_on snd (set sl)" using d by (simp add: distinct_map)
        then have "(j, n) = (i, n)"
          using jn i(1) inj_onD [of snd "set sl" "(j, n)" "(i, n)"] by simp
        then show ?thesis by simp
      qed
      then show ?thesis using il m1 by simp
    next
      case False
      then have "temp m = 0" using jm by simp
      then have "op (alg ! j) = OP_INPUT" using m4 jm by blast
      moreover have "j \<noteq> i" using other jm False by blast
      ultimately show ?thesis by simp
    qed
  qed
  have "mark_inv N sl alg1 ?alg ?temp"
    unfolding mark_inv_def using a1 a2 a3 a4 by blast
  then show ?thesis using True ni by (simp add: Let_def)
qed

lemma mark_inv_input_row:
  assumes sl: "symb_loc_ok sl alg1"
  shows "\<forall>n \<in> set ns. n < N \<Longrightarrow> mark_inv N sl alg1 (fst st) (snd st) \<Longrightarrow>
         mark_inv N sl alg1 (fst (input_row ind nz ns st)) (snd (input_row ind nz ns st))"
proof (induction ns arbitrary: nz st)
  case Nil
  then show ?case by simp
next
  case (Cons n ns)
  obtain alg temp where st: "st = (alg, temp)" by (cases st)
  let ?st = "let i = temp n - 1 in
        if i \<ge> 0 then
          (alg[nat i := (alg ! nat i)\<lparr>op := OP_INPUT, arg_i0 := ind, arg_i1 := nz\<rparr>], temp(n := 0))
        else (alg, temp)"
  have inv0: "mark_inv N sl alg1 alg temp" using Cons.prems st by simp
  have nN: "n < N" and ns: "\<forall>n \<in> set ns. n < N" using Cons.prems(1) by simp_all
  have "mark_inv N sl alg1 (fst ?st) (snd ?st)"
    by (rule mark_inv_step [OF sl inv0 nN])
  then have "mark_inv N sl alg1 (fst (input_row ind (Suc nz) ns ?st)) (snd (input_row ind (Suc nz) ns ?st))"
    by (rule Cons.IH [OF ns])
  then show ?case using st by simp
qed

lemma mark_inv_input_instructions:
  assumes sl: "symb_loc_ok sl alg1"
  shows "\<forall>n \<in> set (concat rows). n < N \<Longrightarrow> mark_inv N sl alg1 (fst st) (snd st) \<Longrightarrow>
         mark_inv N sl alg1 (fst (input_instructions ind rows st)) (snd (input_instructions ind rows st))"
proof (induction rows arbitrary: ind st)
  case Nil
  then show ?case by simp
next
  case (Cons row rows)
  have r: "\<forall>n \<in> set row. n < N" and rs: "\<forall>n \<in> set (concat rows). n < N"
    using Cons.prems(1) by simp_all
  have "mark_inv N sl alg1 (fst (input_row ind 0 row st)) (snd (input_row ind 0 row st))"
    using r Cons.prems(2) by (rule mark_inv_input_row [OF sl])
  then show ?case using Cons.IH [OF rs] by simp
qed

lemma locate_free_set:
  "distinct (map snd sl) \<Longrightarrow>
   set (fst (locate_free sl (fv, temp))) = set fv \<union> {n \<in> snd ` set sl. temp n \<noteq> 0}"
proof (induction sl arbitrary: fv temp)
  case Nil
  then show ?case by simp
next
  case (Cons x sl)
  obtain i n where x: "x = (i, n)" by (cases x)
  have d: "distinct (map snd sl)" and nn: "n \<notin> snd ` set sl" using Cons.prems x by simp_all
  show ?case
  proof (cases "temp n \<noteq> 0")
    case True
    have "set (fst (locate_free sl (fv @ [n], temp(n := 0))))
          = set (fv @ [n]) \<union> {m \<in> snd ` set sl. (temp(n := 0)) m \<noteq> 0}"
      using Cons.IH [OF d] .
    moreover have "{m \<in> snd ` set sl. (temp(n := 0)) m \<noteq> 0} = {m \<in> snd ` set sl. temp m \<noteq> 0}"
      using nn by auto
    ultimately show ?thesis using x True by auto
  next
    case False
    have "set (fst (locate_free sl (fv, temp))) = set fv \<union> {m \<in> snd ` set sl. temp m \<noteq> 0}"
      using Cons.IH [OF d] .
    then show ?thesis using x False by auto
  qed
qed

section \<open>The result of the linearisation\<close>

lemma sort_outputs_members:
  assumes wf: "wf_graph g"
  shows "\<forall>x \<in> set xs. x < length g \<Longrightarrow> sorted_inv g nodes temp \<Longrightarrow>
         sort_outputs g xs nodes temp = Some (nodes', temp') \<Longrightarrow>
         set nodes \<subseteq> set nodes' \<and> (\<forall>x \<in> set xs. Some x \<in> set nodes')"
proof (induction xs arbitrary: nodes temp)
  case Nil
  then show ?case by simp
next
  case (Cons x xs)
  have xl: "x < length g" using Cons.prems(1) by simp
  then have sok: "stack_ok g [Some x]" by (simp add: stack_ok_def)
  obtain nodes1 temp1 where
    r: "sort_depth_first g [Some x] nodes temp = Some (nodes1, temp1)"
    and p: "sort_post g [Some x] nodes temp nodes1 temp1"
    using sort_depth_first_total [OF wf sok Cons.prems(2)] by blast
  have inv1: "sorted_inv g nodes1 temp1"
    and ex: "\<exists>extra. nodes1 = nodes @ map Some extra"
    and tx: "temp1 x \<noteq> 0"
    using p unfolding sort_post_def by auto
  have xin: "Some x \<in> set nodes1" using inv1 tx xl unfolding sorted_inv_def by blast
  have sub1: "set nodes \<subseteq> set nodes1" using ex by auto
  have inv2: "sorted_inv g (nodes1 @ [None]) temp1" using inv1 by (rule sorted_inv_null)
  have xs: "\<forall>y \<in> set xs. y < length g" using Cons.prems(1) by simp
  have so: "sort_outputs g xs (nodes1 @ [None]) temp1 = Some (nodes', temp')"
    using Cons.prems(3) r by simp
  have "set (nodes1 @ [None]) \<subseteq> set nodes' \<and> (\<forall>y \<in> set xs. Some y \<in> set nodes')"
    using Cons.IH [OF xs inv2 so] .
  then show ?case using sub1 xin by auto
qed

lemma reachable_in_nodes:
  assumes nok: "nodes_ok g nodes" and roots: "\<forall>x \<in> set roots. Some x \<in> set nodes"
      and r: "n \<in> reachable g roots"
  shows "Some n \<in> set nodes"
  using r
proof (induction rule: reachable.induct)
  case (root x)
  then show ?case using roots by blast
next
  case (operand n i)
  obtain p where p: "p < length nodes" "nodes ! p = Some n"
    using operand.IH unfolding in_set_conv_nth by blast
  have "\<exists>q < p. nodes ! q = Some (dep (g ! n) i)"
    using nok p operand.hyps(2) unfolding nodes_ok_def by blast
  then obtain q where "q < p" "nodes ! q = Some (dep (g ! n) i)" by blast
  then show ?case using p(1) by (metis less_trans nth_mem)
qed

lemma isSymbolic_getOp: "isSymbolic nd \<longleftrightarrow> getOp nd = OP_PARAMETER"
  by (cases nd) simp_all

lemma isSymbolic_ndep: "isSymbolic nd \<Longrightarrow> ndep nd = 0"
  by (cases nd) simp_all

lemma ndeps_getOp: "ndeps (getOp nd) = ndep nd"
  by (cases nd) simp_all

lemma getOp_not_output: "getOp nd \<noteq> OP_OUTPUT"
  by (cases nd) simp_all

lemma build_inv_pos_ok:
  fixes g :: "'a::zero graph"
  assumes "build_inv g outputv nodes nodes bs"
  shows "pos_ok (bs_algorithm bs)"
proof -
  let ?alg = "bs_algorithm bs"
  have len: "length ?alg = length nodes"
    and ins: "\<forall>p < length nodes. instr_ok g outputv nodes p (?alg ! p)"
    using assms unfolding build_inv_def by blast+
  have nonout: "\<And>q n. q < length nodes \<Longrightarrow> nodes ! q = Some n \<Longrightarrow> op (?alg ! q) \<noteq> OP_OUTPUT"
  proof -
    fix q n assume "q < length nodes" "nodes ! q = Some n"
    then have "op (?alg ! q) = getOp (g ! n)" using ins unfolding instr_ok_def by fastforce
    then show "op (?alg ! q) \<noteq> OP_OUTPUT" using getOp_not_output by simp
  qed
  have "\<forall>p < length ?alg.
        (op (?alg ! p) \<noteq> OP_OUTPUT \<longrightarrow> res (?alg ! p) = p)
        \<and> (\<forall>c < ndeps (op (?alg ! p)).
              arg_i (?alg ! p) c < p \<and> op (?alg ! arg_i (?alg ! p) c) \<noteq> OP_OUTPUT)"
  proof (intro allI impI)
    fix p assume p: "p < length ?alg"
    then have pn: "p < length nodes" using len by simp
    have io: "instr_ok g outputv nodes p (?alg ! p)" using ins pn by blast
    show "(op (?alg ! p) \<noteq> OP_OUTPUT \<longrightarrow> res (?alg ! p) = p)
        \<and> (\<forall>c < ndeps (op (?alg ! p)).
              arg_i (?alg ! p) c < p \<and> op (?alg ! arg_i (?alg ! p) c) \<noteq> OP_OUTPUT)"
    proof (cases "nodes ! p")
      case None
      then have o: "op (?alg ! p) = OP_OUTPUT" and a: "arg_i0 (?alg ! p) < p"
        and n: "nodes ! arg_i0 (?alg ! p) = Some (concat outputv ! count_null (take p nodes))"
        using io unfolding instr_ok_def by simp_all
      have "op (?alg ! arg_i0 (?alg ! p)) \<noteq> OP_OUTPUT"
        using nonout [OF _ n] a pn by simp
      then show ?thesis using o a by (simp add: arg_i_def)
    next
      case (Some n)
      then have o: "op (?alg ! p) = getOp (g ! n)" and r: "res (?alg ! p) = p"
        and a: "\<forall>c < ndep (g ! n). arg_i (?alg ! p) c < p
                  \<and> nodes ! arg_i (?alg ! p) c = Some (dep (g ! n) c)"
        using io unfolding instr_ok_def by simp_all
      have "\<forall>c < ndeps (op (?alg ! p)).
              arg_i (?alg ! p) c < p \<and> op (?alg ! arg_i (?alg ! p) c) \<noteq> OP_OUTPUT"
      proof (intro allI impI)
        fix c assume "c < ndeps (op (?alg ! p))"
        then have c: "c < ndep (g ! n)" using o by (simp add: ndeps_getOp)
        then have ac: "arg_i (?alg ! p) c < p" "nodes ! arg_i (?alg ! p) c = Some (dep (g ! n) c)"
          using a by blast+
        have "op (?alg ! arg_i (?alg ! p) c) \<noteq> OP_OUTPUT"
          using nonout [OF _ ac(2)] ac(1) pn by simp
        then show "arg_i (?alg ! p) c < p \<and> op (?alg ! arg_i (?alg ! p) c) \<noteq> OP_OUTPUT"
          using ac(1) by simp
      qed
      then show ?thesis using r by simp
    qed
  qed
  then show ?thesis unfolding pos_ok_def .
qed

lemma alloc_inv_mark_alg_wf:
  assumes pos: "pos_ok alg0" and ai: "alloc_inv alg0 (length alg0) alg1 st"
      and mi: "mark_inv N sl alg1 alg2 temp"
  shows "alg_wf alg2 (as_worksize st)"
proof -
  have len1: "length alg1 = length alg0"
    and i_op: "\<forall>q < length alg0. op (alg1 ! q) = op (alg0 ! q)"
    and i_res: "\<forall>q < length alg0. op (alg0 ! q) \<noteq> OP_OUTPUT \<longrightarrow>
            as_place st ! q = res (alg1 ! q) \<and> res (alg1 ! q) < as_worksize st"
    and i_arg: "\<forall>q < length alg0. \<forall>c < ndeps (op (alg0 ! q)).
            arg_i (alg1 ! q) c = res (alg1 ! arg_i (alg0 ! q) c)"
    and i_un: "\<forall>q < length alg0. unary_ok (alg1 ! q)"
    and i_slot: "\<forall>s < as_worksize st. \<exists>q < length alg0. op (alg0 ! q) \<noteq> OP_OUTPUT \<and> res (alg1 ! q) = s"
    using ai unfolding alloc_inv_def by blast+
  have len2: "length alg2 = length alg1"
    and m2: "\<forall>p < length alg1. alg2 ! p = alg1 ! p
            \<or> (op (alg1 ! p) = OP_PARAMETER \<and> op (alg2 ! p) = OP_INPUT
                \<and> res (alg2 ! p) = res (alg1 ! p))"
    using mi unfolding mark_inv_def by blast+
  have keep: "\<And>q. q < length alg0 \<Longrightarrow> op (alg0 ! q) \<noteq> OP_OUTPUT \<Longrightarrow>
                op (alg2 ! q) \<noteq> OP_OUTPUT \<and> res (alg2 ! q) = res (alg1 ! q)"
  proof -
    fix q assume q: "q < length alg0" and no: "op (alg0 ! q) \<noteq> OP_OUTPUT"
    have "op (alg1 ! q) \<noteq> OP_OUTPUT" using i_op q no by simp
    moreover have "alg2 ! q = alg1 ! q
            \<or> (op (alg1 ! q) = OP_PARAMETER \<and> op (alg2 ! q) = OP_INPUT
                \<and> res (alg2 ! q) = res (alg1 ! q))" using m2 q len1 by simp
    ultimately show "op (alg2 ! q) \<noteq> OP_OUTPUT \<and> res (alg2 ! q) = res (alg1 ! q)" by auto
  qed
  have same: "\<And>p. p < length alg0 \<Longrightarrow> ndeps (op (alg2 ! p)) > 0 \<Longrightarrow> alg2 ! p = alg1 ! p"
  proof -
    fix p assume p: "p < length alg0" and n: "ndeps (op (alg2 ! p)) > 0"
    have "alg2 ! p = alg1 ! p
            \<or> (op (alg1 ! p) = OP_PARAMETER \<and> op (alg2 ! p) = OP_INPUT
                \<and> res (alg2 ! p) = res (alg1 ! p))" using m2 p len1 by simp
    then show "alg2 ! p = alg1 ! p" using n by auto
  qed
  have w1: "\<forall>p < length alg2. \<forall>c < ndeps (op (alg2 ! p)).
         \<exists>q < p. op (alg2 ! q) \<noteq> OP_OUTPUT \<and> res (alg2 ! q) = arg_i (alg2 ! p) c"
  proof (intro allI impI)
    fix p c assume p: "p < length alg2" and c: "c < ndeps (op (alg2 ! p))"
    have p0: "p < length alg0" using p len1 len2 by simp
    have e: "alg2 ! p = alg1 ! p" using same [OF p0] c by simp
    have c0: "c < ndeps (op (alg0 ! p))" using c e i_op p0 by simp
    let ?q = "arg_i (alg0 ! p) c"
    have q: "?q < p" "op (alg0 ! ?q) \<noteq> OP_OUTPUT"
      using pos p0 c0 unfolding pos_ok_def by blast+
    have q0: "?q < length alg0" using q(1) p0 by simp
    have "arg_i (alg2 ! p) c = res (alg1 ! ?q)" using e i_arg p0 c0 by simp
    then have "op (alg2 ! ?q) \<noteq> OP_OUTPUT \<and> res (alg2 ! ?q) = arg_i (alg2 ! p) c"
      using keep [OF q0 q(2)] by simp
    then show "\<exists>q < p. op (alg2 ! q) \<noteq> OP_OUTPUT \<and> res (alg2 ! q) = arg_i (alg2 ! p) c"
      using q(1) by blast
  qed
  have w2: "\<forall>p < length alg2. unary_ok (alg2 ! p)"
  proof (intro allI impI)
    fix p assume p: "p < length alg2"
    have p0: "p < length alg0" using p len1 len2 by simp
    show "unary_ok (alg2 ! p)"
    proof (cases "ndeps (op (alg2 ! p)) > 0")
      case True
      then show ?thesis using same [OF p0] i_un p0 by simp
    next
      case False
      then show ?thesis by (simp add: unary_ok_def)
    qed
  qed
  have w3: "\<forall>p < length alg2. op (alg2 ! p) \<noteq> OP_OUTPUT \<longrightarrow> res (alg2 ! p) < as_worksize st"
  proof (intro allI impI)
    fix p assume p: "p < length alg2" and no: "op (alg2 ! p) \<noteq> OP_OUTPUT"
    have p0: "p < length alg0" using p len1 len2 by simp
    have alt: "alg2 ! p = alg1 ! p
            \<or> (op (alg1 ! p) = OP_PARAMETER \<and> op (alg2 ! p) = OP_INPUT
                \<and> res (alg2 ! p) = res (alg1 ! p))" using m2 p0 len1 by simp
    then have "op (alg1 ! p) \<noteq> OP_OUTPUT" using no by auto
    then have "op (alg0 ! p) \<noteq> OP_OUTPUT" using i_op p0 by simp
    then have "res (alg1 ! p) < as_worksize st" using i_res p0 by simp
    moreover have "res (alg2 ! p) = res (alg1 ! p)" using alt by auto
    ultimately show "res (alg2 ! p) < as_worksize st" by simp
  qed
  have w4: "\<forall>s < as_worksize st. \<exists>q < length alg2. op (alg2 ! q) \<noteq> OP_OUTPUT \<and> res (alg2 ! q) = s"
  proof (intro allI impI)
    fix s assume "s < as_worksize st"
    then obtain q where q: "q < length alg0" "op (alg0 ! q) \<noteq> OP_OUTPUT" "res (alg1 ! q) = s"
      using i_slot by blast
    have "q < length alg2 \<and> op (alg2 ! q) \<noteq> OP_OUTPUT \<and> res (alg2 ! q) = s"
      using keep [OF q(1) q(2)] q len1 len2 by simp
    then show "\<exists>q < length alg2. op (alg2 ! q) \<noteq> OP_OUTPUT \<and> res (alg2 ! q) = s" by blast
  qed
  show ?thesis unfolding alg_wf_def using w1 w2 w3 w4 by blast
qed

lemma init_run:
  fixes g :: "'a::zero graph"
  assumes fok: "function_ok g inputv outputv" and t0: "\<forall>n < length g. temp0 n = 0"
  obtains nodes temp2 bs alg1 st alg2 temp4 fv temp5 where
    "nodes_ok g nodes"
    "outputs_placed nodes (concat outputv)"
    "\<forall>x \<in> set (concat outputv). Some x \<in> set nodes"
    "\<forall>x \<in> set (concat inputv). Some x \<in> set nodes"
    "temp_pos nodes temp2"
    "build_inv g outputv nodes nodes bs"
    "pos_ok (bs_algorithm bs)"
    "alloc_inv (bs_algorithm bs) (length (bs_algorithm bs)) alg1 st"
    "symb_loc_ok (bs_symb_loc bs) alg1"
    "mark_inv (length g) (bs_symb_loc bs) alg1 alg2 temp4"
    "input_instructions 0 inputv
       (alg1, mark_symb_loc (bs_symb_loc bs) (reset_temp nodes temp2)) = (alg2, temp4)"
    "\<forall>i n. (i, n) \<in> set (bs_symb_loc bs)
       \<longrightarrow> mark_symb_loc (bs_symb_loc bs) (reset_temp nodes temp2) n = int i + 1"
    "locate_free (bs_symb_loc bs) ([], temp4) = (fv, temp5)"
    "init g inputv outputv live temp0 =
       Some \<lparr>algorithm = alg2, worksize = as_worksize st, free_vars = fv,
             constants = filter (\<lambda>n. isConstant (g ! n)) (nodes_of nodes),
             operations = filter (\<lambda>n. \<not> isConstant (g ! n) \<and> \<not> isSymbolic (g ! n)) (nodes_of nodes),
             temp_after = temp5\<rparr>"
proof -
  have wf: "wf_graph g"
    and inp: "\<forall>x \<in> set (concat inputv). x < length g \<and> isSymbolic (g ! x)"
    and dinp: "distinct (concat inputv)"
    and outp: "\<forall>x \<in> set (concat outputv). x < length g"
    using fok unfolding function_ok_def by (simp_all add: list_all_iff)
  have inv0: "sorted_inv g [] temp0" using t0 by (simp add: sorted_inv_def nodes_of_def)
  have op0: "outputs_placed [] []" by (simp add: outputs_placed_def count_null_def)
  obtain nodes0 temp1 where
    so: "sort_outputs g (concat outputv) [] temp0 = Some (nodes0, temp1)"
    and inv1: "sorted_inv g nodes0 temp1"
    and op1: "outputs_placed nodes0 ([] @ concat outputv)"
    using sort_outputs_total [OF wf outp inv0 op0] by blast
  have mem0: "\<forall>x \<in> set (concat outputv). Some x \<in> set nodes0"
    using sort_outputs_members [OF wf outp inv0 so] by simp
  define nodes where "nodes = add_inputs temp1 (concat inputv) nodes0"
  define temp2 where "temp2 = set_temp_index nodes 0 temp1"
  have inp0: "\<forall>x \<in> set (concat inputv). x < length g \<and> ndep (g ! x) = 0"
    using inp isSymbolic_ndep by blast
  have nok: "nodes_ok g nodes"
    and memi: "\<forall>x \<in> set (concat inputv). Some x \<in> set nodes"
    unfolding nodes_def using nodes_ok_add_inputs [OF inv1 inp0 dinp] by blast+
  have ne: "nodes = nodes0 @ map Some (filter (\<lambda>x. temp1 x = 0) (concat inputv))"
    unfolding nodes_def by (rule add_inputs_eq)
  have opl: "outputs_placed nodes (concat outputv)"
    unfolding ne using op1 outputs_placed_extend by simp
  have memo: "\<forall>x \<in> set (concat outputv). Some x \<in> set nodes"
    using mem0 ne by simp
  have dist: "distinct (nodes_of nodes)" using nok unfolding nodes_ok_def by blast
  have tp: "temp_pos nodes temp2"
    unfolding temp_pos_def temp2_def using set_temp_index_pos [OF dist, of _ _ 0 temp1] by simp
  have t2out: "\<And>n. n < length g \<Longrightarrow> Some n \<notin> set nodes \<Longrightarrow> temp2 n = 0"
  proof -
    fix n assume n: "n < length g" and ni: "Some n \<notin> set nodes"
    have "temp2 n = temp1 n" unfolding temp2_def using ni by (rule set_temp_index_notin)
    moreover have "Some n \<notin> set nodes0" using ni ne by simp
    then have "temp1 n = 0" using inv1 n unfolding sorted_inv_def by blast
    ultimately show "temp2 n = 0" by simp
  qed
  let ?bs0 = "\<lparr>bs_algorithm = [], bs_symb_loc = [],
                   bs_curr_oind = skip_empty_from outputv 0, bs_curr_nz = 0,
                   bs_refcount = replicate (length nodes) 0\<rparr> :: 'a build_state"
  have bi0: "build_inv g outputv nodes [] ?bs0"
    unfolding build_inv_def using cursor_ok_init [of outputv] by (simp add: count_null_def)
  obtain bs where bl: "build_loop g outputv temp2 nodes ?bs0 = Some bs"
    and bi: "build_inv g outputv nodes nodes bs"
    using build_loop_ok [OF nok opl tp, of "[]" nodes ?bs0] bi0 by auto
  have pos: "pos_ok (bs_algorithm bs)" using bi by (rule build_inv_pos_ok)
  have len0: "length (bs_algorithm bs) = length nodes" using bi unfolding build_inv_def by blast
  let ?as0 = "\<lparr>as_refcount = bs_refcount bs, as_place = replicate (length nodes) 0,
               as_unused = [], as_worksize = 0\<rparr>"
  obtain alg1 st where al: "alloc_loop live (bs_algorithm bs) ?as0 = (alg1, st)"
    by (cases "alloc_loop live (bs_algorithm bs) ?as0")
  have ai0: "alloc_inv (bs_algorithm bs) (length ([] :: 'a SXAlgEl list)) [] ?as0"
    unfolding alloc_inv_def using len0 by simp
  have ai: "alloc_inv (bs_algorithm bs) (length (bs_algorithm bs)) alg1 st"
    using alloc_loop_inv [OF pos _ ai0 al] by simp
  let ?sl = "bs_symb_loc bs"
  have s1: "\<forall>i n. (i, n) \<in> set ?sl \<longrightarrow> i < length nodes \<and> nodes ! i = Some n \<and> isSymbolic (g ! n)"
    and s2: "\<forall>p < length nodes. \<forall>n. nodes ! p = Some n \<and> isSymbolic (g ! n) \<longrightarrow> (p, n) \<in> set ?sl"
    and s3: "distinct (map snd ?sl)"
    and ins: "\<forall>p < length nodes. instr_ok g outputv nodes p (bs_algorithm bs ! p)"
    using bi unfolding build_inv_def by blast+
  have len1: "length alg1 = length nodes"
    and a_op: "\<forall>q < length nodes. op (alg1 ! q) = op (bs_algorithm bs ! q)"
    using ai len0 unfolding alloc_inv_def by simp_all
  have slok: "symb_loc_ok ?sl alg1"
  proof -
    have c2: "\<forall>i n m. (i, n) \<in> set ?sl \<and> (i, m) \<in> set ?sl \<longrightarrow> n = m"
    proof (intro allI impI)
      fix i n m assume a: "(i, n) \<in> set ?sl \<and> (i, m) \<in> set ?sl"
      then have "nodes ! i = Some n" "nodes ! i = Some m" using s1 by blast+
      then show "n = m" by simp
    qed
    have c3: "\<forall>i n. (i, n) \<in> set ?sl \<longrightarrow> i < length alg1 \<and> op (alg1 ! i) = OP_PARAMETER"
    proof (intro allI impI)
      fix i n assume "(i, n) \<in> set ?sl"
      then have i: "i < length nodes" "nodes ! i = Some n" "isSymbolic (g ! n)" using s1 by blast+
      have "op (bs_algorithm bs ! i) = getOp (g ! n)"
        using ins i(1,2) unfolding instr_ok_def by fastforce
      then show "i < length alg1 \<and> op (alg1 ! i) = OP_PARAMETER"
        using a_op i len1 by (simp add: isSymbolic_getOp)
    qed
    have c4: "\<forall>p < length alg1. op (alg1 ! p) = OP_PARAMETER \<longrightarrow> (\<exists>n. (p, n) \<in> set ?sl)"
    proof (intro allI impI)
      fix p assume p: "p < length alg1" and o: "op (alg1 ! p) = OP_PARAMETER"
      have pn: "p < length nodes" using p len1 by simp
      have o0: "op (bs_algorithm bs ! p) = OP_PARAMETER" using a_op pn o by simp
      have io: "instr_ok g outputv nodes p (bs_algorithm bs ! p)" using ins pn by blast
      show "\<exists>n. (p, n) \<in> set ?sl"
      proof (cases "nodes ! p")
        case None
        then have "op (bs_algorithm bs ! p) = OP_OUTPUT" using io unfolding instr_ok_def by simp
        then show ?thesis using o0 by simp
      next
        case (Some n)
        then have "op (bs_algorithm bs ! p) = getOp (g ! n)" using io unfolding instr_ok_def by simp
        then have "isSymbolic (g ! n)" using o0 by (simp add: isSymbolic_getOp)
        then show ?thesis using s2 pn Some by blast
      qed
    qed
    show ?thesis unfolding symb_loc_ok_def using s3 c2 c3 c4 by blast
  qed
  define temp3 where "temp3 = mark_symb_loc ?sl (reset_temp nodes temp2)"
  have t3in: "\<forall>i n. (i, n) \<in> set ?sl \<longrightarrow> temp3 n = int i + 1"
    unfolding temp3_def using mark_symb_loc_in [OF s3] by blast
  have t3out: "\<And>n. n < length g \<Longrightarrow> n \<notin> snd ` set ?sl \<Longrightarrow> temp3 n = 0"
  proof -
    fix n assume n: "n < length g" and ni: "n \<notin> snd ` set ?sl"
    have "temp3 n = reset_temp nodes temp2 n" unfolding temp3_def using ni by (rule mark_symb_loc_notin)
    also have "\<dots> = 0"
    proof (cases "Some n \<in> set nodes")
      case True
      then show ?thesis by (rule reset_temp_in)
    next
      case False
      then show ?thesis using reset_temp_notin [OF False] t2out [OF n False] by simp
    qed
    finally show "temp3 n = 0" .
  qed
  have mi0: "mark_inv (length g) ?sl alg1 alg1 temp3"
  proof -
    have "\<forall>n < length g. temp3 n \<noteq> 0 \<longrightarrow> (\<exists>i. (i, n) \<in> set ?sl \<and> temp3 n = int i + 1 \<and> alg1 ! i = alg1 ! i)"
    proof (intro allI impI)
      fix n assume n: "n < length g" and t: "temp3 n \<noteq> 0"
      then have "n \<in> snd ` set ?sl" using t3out by blast
      then obtain i where "(i, n) \<in> set ?sl" by auto
      then show "\<exists>i. (i, n) \<in> set ?sl \<and> temp3 n = int i + 1 \<and> alg1 ! i = alg1 ! i"
        using t3in by blast
    qed
    moreover have "\<forall>i n. (i, n) \<in> set ?sl \<and> temp3 n = 0 \<longrightarrow> op (alg1 ! i) = OP_INPUT"
      using t3in by fastforce
    ultimately show ?thesis unfolding mark_inv_def by simp
  qed
  obtain alg2 temp4 where ii: "input_instructions 0 inputv (alg1, temp3) = (alg2, temp4)"
    by (cases "input_instructions 0 inputv (alg1, temp3)")
  have inN: "\<forall>n \<in> set (concat inputv). n < length g" using inp by blast
  have mi: "mark_inv (length g) ?sl alg1 alg2 temp4"
    using mark_inv_input_instructions [OF slok inN, of "(alg1, temp3)" 0] mi0 ii by simp
  obtain fv temp5 where lf: "locate_free ?sl ([], temp4) = (fv, temp5)"
    by (cases "locate_free ?sl ([], temp4)")
  have res: "init g inputv outputv live temp0 =
       Some \<lparr>algorithm = alg2, worksize = as_worksize st, free_vars = fv,
             constants = filter (\<lambda>n. isConstant (g ! n)) (nodes_of nodes),
             operations = filter (\<lambda>n. \<not> isConstant (g ! n) \<and> \<not> isSymbolic (g ! n)) (nodes_of nodes),
             temp_after = temp5\<rparr>"
    unfolding init_def using so bl al ii lf
    by (simp add: nodes_def [symmetric] temp2_def [symmetric] temp3_def [symmetric] Let_def)
  show ?thesis
    using that [OF nok opl memo memi tp bi pos ai slok mi _ _ lf res] ii t3in
    unfolding temp3_def by blast
qed

lemma init_alg_wf:
  fixes g :: "'a::zero graph"
  assumes fok: "function_ok g inputv outputv" and t0: "\<forall>n < length g. temp0 n = 0"
  shows "\<exists>f. init g inputv outputv live temp0 = Some f
            \<and> alg_wf (algorithm f) (worksize f)
            \<and> (free_vars f = [] \<longrightarrow> (\<forall>p < length (algorithm f). op (algorithm f ! p) \<noteq> OP_PARAMETER))"
proof -
  obtain nodes temp2 bs alg1 st alg2 temp4 fv temp5 where
    nok: "nodes_ok g nodes"
    and opl: "outputs_placed nodes (concat outputv)"
    and memo: "\<forall>x \<in> set (concat outputv). Some x \<in> set nodes"
    and memi: "\<forall>x \<in> set (concat inputv). Some x \<in> set nodes"
    and tp: "temp_pos nodes temp2"
    and bi: "build_inv g outputv nodes nodes bs"
    and pos: "pos_ok (bs_algorithm bs)"
    and ai: "alloc_inv (bs_algorithm bs) (length (bs_algorithm bs)) alg1 st"
    and slok: "symb_loc_ok (bs_symb_loc bs) alg1"
    and mi: "mark_inv (length g) (bs_symb_loc bs) alg1 alg2 temp4"
    and ii: "input_instructions 0 inputv
       (alg1, mark_symb_loc (bs_symb_loc bs) (reset_temp nodes temp2)) = (alg2, temp4)"
    and t3: "\<forall>i n. (i, n) \<in> set (bs_symb_loc bs)
       \<longrightarrow> mark_symb_loc (bs_symb_loc bs) (reset_temp nodes temp2) n = int i + 1"
    and lf: "locate_free (bs_symb_loc bs) ([], temp4) = (fv, temp5)"
    and res: "init g inputv outputv live temp0 =
       Some \<lparr>algorithm = alg2, worksize = as_worksize st, free_vars = fv,
             constants = filter (\<lambda>n. isConstant (g ! n)) (nodes_of nodes),
             operations = filter (\<lambda>n. \<not> isConstant (g ! n) \<and> \<not> isSymbolic (g ! n)) (nodes_of nodes),
             temp_after = temp5\<rparr>"
    by (rule init_run [OF fok t0])
  have w: "alg_wf alg2 (as_worksize st)" using pos ai mi by (rule alloc_inv_mark_alg_wf)
  have d: "distinct (map snd (bs_symb_loc bs))"
    and c4: "\<forall>p < length alg1. op (alg1 ! p) = OP_PARAMETER \<longrightarrow> (\<exists>n. (p, n) \<in> set (bs_symb_loc bs))"
    using slok unfolding symb_loc_ok_def by blast+
  have len2: "length alg2 = length alg1"
    and m2: "\<forall>p < length alg1. alg2 ! p = alg1 ! p
            \<or> (op (alg1 ! p) = OP_PARAMETER \<and> op (alg2 ! p) = OP_INPUT
                \<and> res (alg2 ! p) = res (alg1 ! p))"
    and m4: "\<forall>i n. (i, n) \<in> set (bs_symb_loc bs) \<and> temp4 n = 0 \<longrightarrow> op (alg2 ! i) = OP_INPUT"
    using mi unfolding mark_inv_def by blast+
  have fvs: "set fv = {n \<in> snd ` set (bs_symb_loc bs). temp4 n \<noteq> 0}"
    using locate_free_set [OF d, of "[]" temp4] lf by simp
  have "fv = [] \<longrightarrow> (\<forall>p < length alg2. op (alg2 ! p) \<noteq> OP_PARAMETER)"
  proof (intro impI allI)
    fix p assume e: "fv = []" and p: "p < length alg2"
    show "op (alg2 ! p) \<noteq> OP_PARAMETER"
    proof
      assume o: "op (alg2 ! p) = OP_PARAMETER"
      have p1: "p < length alg1" using p len2 by simp
      have "alg2 ! p = alg1 ! p
            \<or> (op (alg1 ! p) = OP_PARAMETER \<and> op (alg2 ! p) = OP_INPUT
                \<and> res (alg2 ! p) = res (alg1 ! p))" using m2 p1 by blast
      then have "op (alg1 ! p) = OP_PARAMETER" using o by auto
      then obtain n where n: "(p, n) \<in> set (bs_symb_loc bs)" using c4 p1 by blast
      have "n \<in> snd ` set (bs_symb_loc bs)" using n by force
      then have "temp4 n = 0" using fvs e by auto
      then have "op (alg2 ! p) = OP_INPUT" using m4 n by blast
      then show False using o by simp
    qed
  qed
  then show ?thesis using res w by simp
qed

text \<open>
  Claim C1.  For every declared function (graph without cycles, distinct symbolic inputs,
  scratch fields cleared) \<^verbatim>\<open>init\<close> returns, with or without live variables, and in
  its algorithm every operand slot of every instruction is the result slot of a strictly
  earlier instruction that is not an output instruction, and lies in the work vector.
  Inputs are loaded by input instructions, which are such earlier instructions; there is
  no separate input range.
\<close>

theorem init_topological:
  fixes g :: "'a::zero graph"
  assumes "function_ok g inputv outputv" and "\<forall>n < length g. temp0 n = 0"
  shows "\<exists>f. init g inputv outputv live_variables temp0 = Some f
            \<and> (\<forall>p < length (algorithm f). \<forall>c < ndeps (op (algorithm f ! p)).
                  \<exists>q < p. op (algorithm f ! q) \<noteq> OP_OUTPUT
                          \<and> res (algorithm f ! q) = arg_i (algorithm f ! p) c
                          \<and> arg_i (algorithm f ! p) c < worksize f)"
proof -
  obtain f where f: "init g inputv outputv live_variables temp0 = Some f"
    and w: "alg_wf (algorithm f) (worksize f)"
    using init_alg_wf [OF assms, of live_variables] by blast
  have w1: "\<forall>p < length (algorithm f). \<forall>c < ndeps (op (algorithm f ! p)).
         \<exists>q < p. op (algorithm f ! q) \<noteq> OP_OUTPUT \<and> res (algorithm f ! q) = arg_i (algorithm f ! p) c"
    and w3: "\<forall>p < length (algorithm f). op (algorithm f ! p) \<noteq> OP_OUTPUT \<longrightarrow> res (algorithm f ! p) < worksize f"
    using w unfolding alg_wf_def by blast+
  have "\<forall>p < length (algorithm f). \<forall>c < ndeps (op (algorithm f ! p)).
                  \<exists>q < p. op (algorithm f ! q) \<noteq> OP_OUTPUT
                          \<and> res (algorithm f ! q) = arg_i (algorithm f ! p) c
                          \<and> arg_i (algorithm f ! p) c < worksize f"
  proof (intro allI impI)
    fix p c assume p: "p < length (algorithm f)" and c: "c < ndeps (op (algorithm f ! p))"
    obtain q where q: "q < p" "op (algorithm f ! q) \<noteq> OP_OUTPUT"
      "res (algorithm f ! q) = arg_i (algorithm f ! p) c" using w1 p c by blast
    have "q < length (algorithm f)" using q(1) p by simp
    then have "res (algorithm f ! q) < worksize f" using w3 q(2) by blast
    then show "\<exists>q < p. op (algorithm f ! q) \<noteq> OP_OUTPUT
                          \<and> res (algorithm f ! q) = arg_i (algorithm f ! p) c
                          \<and> arg_i (algorithm f ! p) c < worksize f" using q by auto
  qed
  then show ?thesis using f by blast
qed

lemma function_ok_graph_xy: "function_ok graph_xy [[0], [1]] [[4]]"
  by code_simp

theorem init_topological_witness:
  "function_ok graph_xy [[0], [1]] [[4]]
   \<and> (\<exists>f. init graph_xy [[0], [1]] [[4]] True (\<lambda>n. 0) = Some f
          \<and> (\<forall>p < length (algorithm f). \<forall>c < ndeps (op (algorithm f ! p)).
                \<exists>q < p. op (algorithm f ! q) \<noteq> OP_OUTPUT
                        \<and> res (algorithm f ! q) = arg_i (algorithm f ! p) c
                        \<and> arg_i (algorithm f ! p) c < worksize f))"
proof -
  have h1: "function_ok graph_xy [[0], [1]] [[4]]" by code_simp
  have h2: "\<forall>n < length graph_xy. (\<lambda>n. 0 :: int) n = 0" by simp
  show ?thesis using h1 h2 init_topological [OF h1 h2, of True] by blast
qed

text \<open>
  Claim C9.  A symbol that can be reached from the outputs and is not a declared input:
  \<^verbatim>\<open>init\<close> returns and lists the symbol among the free variables, its instruction
  stays a symbol instruction (it is not turned into a constant), and every call of
  \<^verbatim>\<open>evaluate\<close> on the function returns the error that carries the free variables,
  without a state, hence without executing an instruction.
\<close>

theorem init_free_variables:
  fixes g :: "'a::{zero,plus,times} graph"
  assumes fok: "function_ok g inputv outputv" and t0: "\<forall>n < length g. temp0 n = 0"
      and r: "n \<in> reachable g (concat outputv)" and sy: "isSymbolic (g ! n)"
      and ni: "n \<notin> set (concat inputv)"
  shows "\<exists>f. init g inputv outputv live_variables temp0 = Some f
            \<and> n \<in> set (free_vars f)
            \<and> (\<exists>p < length (algorithm f). op (algorithm f ! p) = OP_PARAMETER)
            \<and> (\<forall>fcn der nfdir nadir st.
                  evaluate fcn der f nfdir nadir st = Inl (FreeVariables (free_vars f)))"
proof -
  obtain nodes temp2 bs alg1 st alg2 temp4 fv temp5 where
    nok: "nodes_ok g nodes"
    and opl: "outputs_placed nodes (concat outputv)"
    and memo: "\<forall>x \<in> set (concat outputv). Some x \<in> set nodes"
    and memi: "\<forall>x \<in> set (concat inputv). Some x \<in> set nodes"
    and tp: "temp_pos nodes temp2"
    and bi: "build_inv g outputv nodes nodes bs"
    and pos: "pos_ok (bs_algorithm bs)"
    and ai: "alloc_inv (bs_algorithm bs) (length (bs_algorithm bs)) alg1 st"
    and slok: "symb_loc_ok (bs_symb_loc bs) alg1"
    and mi: "mark_inv (length g) (bs_symb_loc bs) alg1 alg2 temp4"
    and ii: "input_instructions 0 inputv
       (alg1, mark_symb_loc (bs_symb_loc bs) (reset_temp nodes temp2)) = (alg2, temp4)"
    and t3: "\<forall>i n. (i, n) \<in> set (bs_symb_loc bs)
       \<longrightarrow> mark_symb_loc (bs_symb_loc bs) (reset_temp nodes temp2) n = int i + 1"
    and lf: "locate_free (bs_symb_loc bs) ([], temp4) = (fv, temp5)"
    and res: "init g inputv outputv live_variables temp0 =
       Some \<lparr>algorithm = alg2, worksize = as_worksize st, free_vars = fv,
             constants = filter (\<lambda>n. isConstant (g ! n)) (nodes_of nodes),
             operations = filter (\<lambda>n. \<not> isConstant (g ! n) \<and> \<not> isSymbolic (g ! n)) (nodes_of nodes),
             temp_after = temp5\<rparr>"
    by (rule init_run [OF fok t0])
  have "Some n \<in> set nodes" using nok memo r by (rule reachable_in_nodes)
  then obtain p where p: "p < length nodes" "nodes ! p = Some n"
    unfolding in_set_conv_nth by blast
  have "\<forall>p < length nodes. \<forall>n. nodes ! p = Some n \<and> isSymbolic (g ! n)
          \<longrightarrow> (p, n) \<in> set (bs_symb_loc bs)"
    using bi unfolding build_inv_def by blast
  then have pn: "(p, n) \<in> set (bs_symb_loc bs)" using p sy by blast
  have "temp4 n = mark_symb_loc (bs_symb_loc bs) (reset_temp nodes temp2) n"
    using input_instructions_temp_other [OF ni, of 0
            "(alg1, mark_symb_loc (bs_symb_loc bs) (reset_temp nodes temp2))"] ii by simp
  then have t4: "temp4 n = int p + 1" using t3 pn by simp
  have d: "distinct (map snd (bs_symb_loc bs))"
    and c3: "\<forall>i n. (i, n) \<in> set (bs_symb_loc bs) \<longrightarrow> i < length alg1 \<and> op (alg1 ! i) = OP_PARAMETER"
    using slok unfolding symb_loc_ok_def by blast+
  have fvs: "set fv = {n \<in> snd ` set (bs_symb_loc bs). temp4 n \<noteq> 0}"
    using locate_free_set [OF d, of "[]" temp4] lf by simp
  have "n \<in> snd ` set (bs_symb_loc bs)" using pn by force
  then have nfv: "n \<in> set fv" using fvs t4 by simp
  have len2: "length alg2 = length alg1"
    and m2: "\<forall>p < length alg1. alg2 ! p = alg1 ! p
            \<or> (op (alg1 ! p) = OP_PARAMETER \<and> op (alg2 ! p) = OP_INPUT
                \<and> res (alg2 ! p) = res (alg1 ! p))"
    and m3: "\<forall>n < length g. temp4 n \<noteq> 0 \<longrightarrow>
               (\<exists>i. (i, n) \<in> set (bs_symb_loc bs) \<and> temp4 n = int i + 1 \<and> alg2 ! i = alg1 ! i)"
    using mi unfolding mark_inv_def by blast+
  have nl: "n < length g" using nok \<open>Some n \<in> set nodes\<close> unfolding nodes_ok_def by blast
  obtain i where i: "(i, n) \<in> set (bs_symb_loc bs)" "temp4 n = int i + 1" "alg2 ! i = alg1 ! i"
    using m3 nl t4 by fastforce
  have "i < length alg1" "op (alg1 ! i) = OP_PARAMETER" using c3 i(1) by blast+
  then have par: "\<exists>p < length alg2. op (alg2 ! p) = OP_PARAMETER"
    using i(3) len2 by auto
  have "fv \<noteq> []" using nfv by auto
  then have ev: "\<forall>fcn der nfdir nadir st'.
       evaluate fcn der \<lparr>algorithm = alg2, worksize = as_worksize st, free_vars = fv,
             constants = filter (\<lambda>n. isConstant (g ! n)) (nodes_of nodes),
             operations = filter (\<lambda>n. \<not> isConstant (g ! n) \<and> \<not> isSymbolic (g ! n)) (nodes_of nodes),
             temp_after = temp5\<rparr> nfdir nadir st' = Inl (FreeVariables fv)"
    by (simp add: evaluate_def)
  show ?thesis using res nfv par ev by simp
qed

lemma reachable_graph_xy: "1 \<in> reachable graph_xy (concat [[4]])"
proof -
  have r4: "4 \<in> reachable graph_xy (concat [[4]])" by (rule reachable.root) simp
  have "0 < ndep (graph_xy ! 4)" by code_simp
  then have "dep (graph_xy ! 4) 0 \<in> reachable graph_xy (concat [[4]])"
    using r4 by (rule reachable.operand [rotated])
  moreover have "dep (graph_xy ! 4) 0 = 2" by code_simp
  ultimately have r2: "2 \<in> reachable graph_xy (concat [[4]])" by simp
  have "1 < ndep (graph_xy ! 2)" by code_simp
  then have "dep (graph_xy ! 2) 1 \<in> reachable graph_xy (concat [[4]])"
    using r2 by (rule reachable.operand [rotated])
  moreover have "dep (graph_xy ! 2) 1 = 1" by code_simp
  ultimately show ?thesis by simp
qed

theorem init_free_variables_witness:
  "function_ok graph_xy [[0]] [[4]]
   \<and> 1 \<in> reachable graph_xy (concat [[4]]) \<and> isSymbolic (graph_xy ! 1) \<and> 1 \<notin> set (concat [[0 :: nat]])
   \<and> (\<exists>f. init graph_xy [[0]] [[4]] True (\<lambda>n. 0) = Some f
          \<and> 1 \<in> set (free_vars f)
          \<and> (\<exists>p < length (algorithm f). op (algorithm f ! p) = OP_PARAMETER)
          \<and> (\<forall>fcn der nfdir nadir st.
                evaluate fcn der f nfdir nadir st = Inl (FreeVariables (free_vars f))))"
proof -
  have h1: "function_ok graph_xy [[0]] [[4]]" by code_simp
  have h2: "\<forall>n < length graph_xy. (\<lambda>n. 0 :: int) n = 0" by simp
  have h3: "1 \<in> reachable graph_xy (concat [[4]])" by (rule reachable_graph_xy)
  have h4: "isSymbolic (graph_xy ! 1)" by code_simp
  have h5: "1 \<notin> set (concat [[0 :: nat]])" by simp
  show ?thesis
    using h1 h2 h3 h4 h5 init_free_variables [OF h1 h2 h3 h4 h5, of True] by blast
qed

section \<open>The adjoint sweep leaves the work vector at zero\<close>

lemma nth_upd: "xs[i := x] ! j = (if i = j \<and> i < length xs then x else xs ! j)"
  by (cases "i < length xs") (auto simp: nth_list_update list_update_beyond)

lemma adj_step_length [simp]:
  "length (work (fst (adj_step dir x sti))) = length (work (fst sti))"
  by (cases "op x") (simp_all add: adj_step_def Let_def)

lemma adj_step_zero:
  fixes x :: "'a::{zero,plus,times} SXAlgEl"
  assumes s: "s < length (work (fst sti))"
      and nopar: "op x \<noteq> OP_PARAMETER"
      and un: "unary_ok x"
      and args: "\<forall>c < ndeps (op x). arg_i x c \<noteq> s"
      and z: "(op x \<noteq> OP_OUTPUT \<and> res x = s) \<or> work (fst sti) ! s = 0"
  shows "work (fst (adj_step dir x sti)) ! s = 0"
proof (cases "op x")
  case OP_CONST
  then show ?thesis using s z by (auto simp: adj_step_def Let_def nth_upd)
next
  case OP_PARAMETER
  then show ?thesis using nopar by simp
next
  case OP_INPUT
  then show ?thesis using s z by (auto simp: adj_step_def Let_def nth_upd)
next
  case OP_OUTPUT
  then have "arg_i0 x \<noteq> s" using args by (simp add: arg_i_def)
  then show ?thesis using OP_OUTPUT s z by (auto simp: adj_step_def Let_def nth_upd)
next
  case (OP_UNARY k)
  then have a0: "arg_i0 x \<noteq> s" using args by (simp add: arg_i_def)
  have "arg_i1 x = arg_i0 x" using un OP_UNARY by (simp add: unary_ok_def)
  then show ?thesis using OP_UNARY a0 s z by (auto simp: adj_step_def Let_def nth_upd)
next
  case (OP_BINARY k)
  have "arg_i x 0 \<noteq> s" "arg_i x 1 \<noteq> s" using args OP_BINARY by simp_all
  then have "arg_i0 x \<noteq> s" "arg_i1 x \<noteq> s" by (simp_all add: arg_i_def)
  then show ?thesis using OP_BINARY s z by (auto simp: adj_step_def Let_def nth_upd)
qed

lemma adj_sweep_suffix_zero:
  fixes alg :: "'a::{zero,plus,times} SXAlgEl list"
  assumes w: "alg_wf alg ws" and nopar: "\<forall>p < length alg. op (alg ! p) \<noteq> OP_PARAMETER"
      and len: "length (work st) = ws"
  shows "alg = pre @ suf \<Longrightarrow>
         length (work (fst (fold (adj_step dir) (rev suf) (st, 0)))) = ws
         \<and> (\<forall>s < ws. (\<forall>q < length pre. op (alg ! q) = OP_OUTPUT \<or> res (alg ! q) \<noteq> s)
               \<longrightarrow> work (fst (fold (adj_step dir) (rev suf) (st, 0))) ! s = 0)"
proof (induction suf arbitrary: pre)
  case Nil
  have w4: "\<forall>s < ws. \<exists>q < length alg. op (alg ! q) \<noteq> OP_OUTPUT \<and> res (alg ! q) = s"
    using w unfolding alg_wf_def by blast
  have "\<forall>s < ws. \<not> (\<forall>q < length pre. op (alg ! q) = OP_OUTPUT \<or> res (alg ! q) \<noteq> s)"
    using w4 Nil by auto
  then show ?case using len by auto
next
  case (Cons x suf)
  let ?k = "length pre"
  let ?r' = "fold (adj_step dir) (rev suf) (st, 0)"
  have alg': "alg = (pre @ [x]) @ suf" using Cons.prems by simp
  have ih: "length (work (fst ?r')) = ws"
    "\<forall>s < ws. (\<forall>q < length (pre @ [x]). op (alg ! q) = OP_OUTPUT \<or> res (alg ! q) \<noteq> s)
               \<longrightarrow> work (fst ?r') ! s = 0"
    using Cons.IH [OF alg'] by blast+
  have k: "?k < length alg" and xk: "alg ! ?k = x" using Cons.prems by simp_all
  have w1: "\<forall>c < ndeps (op x). \<exists>q < ?k. op (alg ! q) \<noteq> OP_OUTPUT \<and> res (alg ! q) = arg_i x c"
    and un: "unary_ok x"
    using w k xk unfolding alg_wf_def by blast+
  have np: "op x \<noteq> OP_PARAMETER" using nopar k xk by blast
  have e: "fold (adj_step dir) (rev (x # suf)) (st, 0) = adj_step dir x ?r'" by simp
  have "\<forall>s < ws. (\<forall>q < ?k. op (alg ! q) = OP_OUTPUT \<or> res (alg ! q) \<noteq> s)
               \<longrightarrow> work (fst (adj_step dir x ?r')) ! s = 0"
  proof (intro allI impI)
    fix s assume s: "s < ws" and nop: "\<forall>q < ?k. op (alg ! q) = OP_OUTPUT \<or> res (alg ! q) \<noteq> s"
    have args: "\<forall>c < ndeps (op x). arg_i x c \<noteq> s"
    proof (intro allI impI)
      fix c assume "c < ndeps (op x)"
      then obtain q where "q < ?k" "op (alg ! q) \<noteq> OP_OUTPUT" "res (alg ! q) = arg_i x c"
        using w1 by blast
      then show "arg_i x c \<noteq> s" using nop by auto
    qed
    have z: "(op x \<noteq> OP_OUTPUT \<and> res x = s) \<or> work (fst ?r') ! s = 0"
    proof (cases "op x \<noteq> OP_OUTPUT \<and> res x = s")
      case False
      have "\<forall>q < length (pre @ [x]). op (alg ! q) = OP_OUTPUT \<or> res (alg ! q) \<noteq> s"
      proof (intro allI impI)
        fix q assume "q < length (pre @ [x])"
        then consider "q < ?k" | "q = ?k" by fastforce
        then show "op (alg ! q) = OP_OUTPUT \<or> res (alg ! q) \<noteq> s"
          using nop False xk by cases auto
      qed
      then show ?thesis using ih(2) s by blast
    qed simp
    have sl: "s < length (work (fst ?r'))" using ih(1) s by simp
    show "work (fst (adj_step dir x ?r')) ! s = 0"
      using sl np un args z by (rule adj_step_zero)
  qed
  then show ?case unfolding e using ih(1) by simp
qed

lemma adj_sweep_zero:
  fixes alg :: "'a::{zero,plus,times} SXAlgEl list"
  assumes w: "alg_wf alg ws" and nopar: "\<forall>p < length alg. op (alg ! p) \<noteq> OP_PARAMETER"
      and len: "length (work st) = ws"
  shows "length (work (adj_sweep alg dir st)) = ws"
    and "\<forall>s < ws. work (adj_sweep alg dir st) ! s = 0"
  using adj_sweep_suffix_zero [OF w nopar len, of "[]" alg dir]
  by (simp_all add: adj_sweep_def)

lemma adj_sweeps_zero:
  fixes alg :: "'a::{zero,plus,times} SXAlgEl list"
  assumes w: "alg_wf alg ws" and nopar: "\<forall>p < length alg. op (alg ! p) \<noteq> OP_PARAMETER"
      and len: "length (work st) = ws"
  shows "length (work (fold (adj_sweep alg) [0 ..< d] st)) = ws
         \<and> (d > 0 \<longrightarrow> (\<forall>s < ws. work (fold (adj_sweep alg) [0 ..< d] st) ! s = 0))"
proof (induction d)
  case 0
  then show ?case using len by simp
next
  case (Suc d)
  let ?st = "fold (adj_sweep alg) [0 ..< d] st"
  have l: "length (work ?st) = ws" using Suc by blast
  have "fold (adj_sweep alg) [0 ..< Suc d] st = adj_sweep alg d ?st" by simp
  then show ?case using adj_sweep_zero [OF w nopar l, of d] by simp
qed

text \<open>
  Claim C2.  For an algorithm produced by \<^verbatim>\<open>init\<close> without free variables (the only
  ones \<^verbatim>\<open>evaluate\<close> runs), any buffers and tape, any content of the work vector
  before the sweep and any direction: after the adjoint sweep of that direction every
  entry of the work vector is zero, and so it is after every number of consecutive
  directions.  The zero is the literal 0 stored when the first producer of the slot is
  processed; no law of arithmetic is used.
\<close>

theorem adjoint_sweep_clears_work:
  fixes g :: "'a::{zero,plus,times} graph"
  assumes fok: "function_ok g inputv outputv" and t0: "\<forall>n < length g. temp0 n = 0"
      and f: "init g inputv outputv live_variables temp0 = Some f"
      and fv: "free_vars f = []" and len: "length (work st) = worksize f"
  shows "(\<forall>s < worksize f. work (adj_sweep (algorithm f) dir st) ! s = 0)
         \<and> (\<forall>s < worksize f. work (fold (adj_sweep (algorithm f)) [0 ..< Suc dir] st) ! s = 0)
         \<and> length (work (adj_sweep (algorithm f) dir st)) = worksize f"
proof -
  obtain f' where f': "init g inputv outputv live_variables temp0 = Some f'"
    and w: "alg_wf (algorithm f') (worksize f')"
    and np: "free_vars f' = [] \<longrightarrow> (\<forall>p < length (algorithm f'). op (algorithm f' ! p) \<noteq> OP_PARAMETER)"
    using init_alg_wf [OF fok t0, of live_variables] by blast
  have e: "f' = f" using f f' by simp
  have w': "alg_wf (algorithm f) (worksize f)" using w e by simp
  have np': "\<forall>p < length (algorithm f). op (algorithm f ! p) \<noteq> OP_PARAMETER" using np e fv by simp
  show ?thesis
    using adj_sweep_zero [OF w' np' len, of dir] adj_sweeps_zero [OF w' np' len, of "Suc dir"]
    by simp
qed

lemma init_graph_xy_fields:
  "map_option free_vars (init graph_xy [[0], [1]] [[4]] True (\<lambda>n. 0)) = Some []"
  "map_option worksize (init graph_xy [[0], [1]] [[4]] True (\<lambda>n. 0)) = Some 2"
  by code_simp+

theorem adjoint_sweep_clears_work_witness:
  "function_ok graph_xy [[0], [1]] [[4]]
   \<and> (\<exists>f. init graph_xy [[0], [1]] [[4]] True (\<lambda>n. 0) = Some f
          \<and> free_vars f = [] \<and> length (work state_xy) = worksize f
          \<and> work state_xy = [7, 9]
          \<and> work (adj_sweep (algorithm f) 0 state_xy) ! 0 = 0
          \<and> work (adj_sweep (algorithm f) 0 state_xy) ! 1 = 0)"
proof -
  have h1: "function_ok graph_xy [[0], [1]] [[4]]" by code_simp
  have h2: "\<forall>n < length graph_xy. (\<lambda>n. 0 :: int) n = 0" by simp
  obtain f where f: "init graph_xy [[0], [1]] [[4]] True (\<lambda>n. 0) = Some f"
    using init_graph_xy_algorithm by (cases "init graph_xy [[0], [1]] [[4]] True (\<lambda>n. 0)") auto
  have fv: "free_vars f = []" and ws: "worksize f = 2"
    using init_graph_xy_fields f by simp_all
  have len: "length (work state_xy) = worksize f" using ws by (simp add: state_xy_def)
  have "\<forall>s < worksize f. work (adj_sweep (algorithm f) 0 state_xy) ! s = 0"
    using adjoint_sweep_clears_work [OF h1 h2 f fv len, of 0] by blast
  then have "work (adj_sweep (algorithm f) 0 state_xy) ! 0 = 0"
    "work (adj_sweep (algorithm f) 0 state_xy) ! 1 = 0" using ws by simp_all
  moreover have "work state_xy = [7, 9]" by (simp add: state_xy_def)
  ultimately show ?thesis using h1 f fv len by blast
qed

section \<open>The discipline of the slot allocation\<close>

lemma release_children_unfold:
  "ndeps (op e) = 0 \<Longrightarrow> release_children e st = st"
  "ndeps (op e) = 1 \<Longrightarrow> release_children e st = release_child e 0 st"
  "ndeps (op e) = 2 \<Longrightarrow> release_children e st = release_child e 0 (release_child e 1 st)"
proof -
  show "ndeps (op e) = 0 \<Longrightarrow> release_children e st = st"
    by (simp add: release_children_def)
  show "ndeps (op e) = 1 \<Longrightarrow> release_children e st = release_child e 0 st"
    by (simp add: release_children_def)
  show "ndeps (op e) = 2 \<Longrightarrow> release_children e st = release_child e 0 (release_child e 1 st)"
  proof -
    assume "ndeps (op e) = 2"
    then have "[0 ..< ndeps (op e)] = [0, 1]" by (simp add: upt_rec)
    then show ?thesis by (simp add: release_children_def)
  qed
qed

lemma release_child_refcount:
  "as_refcount (release_child e c st) = (as_refcount st)[arg_i e c := as_refcount st ! arg_i e c - 1]"
  by (simp add: release_child_def Let_def)

lemma release_child_stack:
  "as_unused (release_child e c st) =
     (if as_refcount st ! arg_i e c - 1 = 0 then as_place st ! arg_i e c # as_unused st
      else as_unused st)"
  by (simp add: release_child_def Let_def)

lemma release_children_refcount:
  assumes "\<forall>c < ndeps (op e). arg_i e c < length (as_refcount st)" and "j < length (as_refcount st)"
  shows "as_refcount (release_children e st) ! j
         = as_refcount st ! j - int (length (filter (\<lambda>c. arg_i e c = j) [0 ..< ndeps (op e)]))"
proof -
  consider "ndeps (op e) = 0" | "ndeps (op e) = 1" | "ndeps (op e) = 2"
    using ndeps_cases [of "op e"] by auto
  then show ?thesis
  proof cases
    case 1
    then show ?thesis by (simp add: release_children_unfold)
  next
    case 2
    then show ?thesis using assms
      by (simp add: release_children_unfold release_child_refcount nth_upd)
  next
    case 3
    then have u: "[0 ..< ndeps (op e)] = [0, 1]" by (simp add: upt_rec)
    have a: "arg_i e 0 < length (as_refcount st)" "arg_i e 1 < length (as_refcount st)"
      using assms(1) 3 by simp_all
    show ?thesis using 3 a assms(2) unfolding u
      by (simp add: release_children_unfold release_child_refcount nth_upd)
  qed
qed

lemma alloc_step_parts:
  "alloc_step live e st =
     (make_binary (save_children (as_place (snd (find_place live e (release_children e st))))
                     (fst (find_place live e (release_children e st)))),
      snd (find_place live e (release_children e st)))"
  by (simp add: alloc_step_def Let_def split: prod.splits)

lemma alloc_step_res:
  "res (fst (alloc_step live e st)) = res (fst (find_place live e (release_children e st)))"
  by (simp add: alloc_step_parts save_children_args(1))

lemma find_place_refcount [simp]:
  "as_refcount (snd (find_place live e st)) = as_refcount st"
  by (simp add: find_place_def)

lemma alloc_loop_fresh:
  "map res (filter (\<lambda>e. op e \<noteq> OP_OUTPUT) (fst (alloc_loop False es st)))
     = [as_worksize st ..< as_worksize st + length (filter (\<lambda>e. op e \<noteq> OP_OUTPUT) es)]
   \<and> as_worksize (snd (alloc_loop False es st))
     = as_worksize st + length (filter (\<lambda>e. op e \<noteq> OP_OUTPUT) es)"
proof (induction es arbitrary: st)
  case Nil
  then show ?case by simp
next
  case (Cons e es)
  let ?s = "alloc_step False e st"
  have l: "alloc_loop False (e # es) st
           = (fst ?s # fst (alloc_loop False es (snd ?s)), snd (alloc_loop False es (snd ?s)))"
    by (simp add: Let_def split: prod.splits)
  have o: "op (fst ?s) = op e" by (simp add: alloc_step_parts)
  show ?case
  proof (cases "op e = OP_OUTPUT")
    case True
    then have "as_worksize (snd ?s) = as_worksize st"
      by (simp add: alloc_step_parts find_place_def)
    then show ?thesis using Cons.IH [of "snd ?s"] True o unfolding l by simp
  next
    case False
    then have w: "as_worksize (snd ?s) = Suc (as_worksize st)"
      and r: "res (fst ?s) = as_worksize st"
      by (simp_all add: alloc_step_parts find_place_def save_children_args(1))
    let ?k = "length (filter (\<lambda>e. op e \<noteq> OP_OUTPUT) es)"
    have ih1: "map res (filter (\<lambda>e. op e \<noteq> OP_OUTPUT) (fst (alloc_loop False es (snd ?s))))
               = [Suc (as_worksize st) ..< Suc (as_worksize st) + ?k]"
      and ih2: "as_worksize (snd (alloc_loop False es (snd ?s))) = Suc (as_worksize st) + ?k"
      using Cons.IH [of "snd ?s"] unfolding w by blast+
    have u: "[as_worksize st ..< as_worksize st + Suc ?k]
             = as_worksize st # [Suc (as_worksize st) ..< Suc (as_worksize st) + ?k]"
      by (subst upt_conv_Cons) simp_all
    have f: "filter (\<lambda>e. op e \<noteq> OP_OUTPUT) (fst ?s # fst (alloc_loop False es (snd ?s)))
             = fst ?s # filter (\<lambda>e. op e \<noteq> OP_OUTPUT) (fst (alloc_loop False es (snd ?s)))"
      using False o by simp
    have k: "length (filter (\<lambda>e. op e \<noteq> OP_OUTPUT) (e # es)) = Suc ?k" using False by simp
    show ?thesis unfolding l fst_conv snd_conv f k u using ih1 ih2 r by simp
  qed
qed

lemma release_child_place [simp]:
  "as_place (release_child e c st) = as_place st"
  "as_worksize (release_child e c st) = as_worksize st"
  by (simp_all add: release_child_def Let_def)

lemma release_children_place [simp]:
  "as_place (release_children e st) = as_place st"
  "as_worksize (release_children e st) = as_worksize st"
proof -
  have "\<And>st. as_place (fold (release_child e) cs st) = as_place st
             \<and> as_worksize (fold (release_child e) cs st) = as_worksize st" for cs
    by (induction cs) simp_all
  then show "as_place (release_children e st) = as_place st"
    "as_worksize (release_children e st) = as_worksize st"
    by (simp_all add: release_children_def)
qed

lemma release_children_stack:
  assumes "\<forall>c < ndeps (op e). arg_i e c < length (as_refcount st)"
  shows "ndeps (op e) = 0 \<longrightarrow> as_unused (release_children e st) = as_unused st"
    and "ndeps (op e) = 1 \<longrightarrow>
            as_unused (release_children e st)
              = (if as_refcount st ! arg_i e 0 = 1 then as_place st ! arg_i e 0 # as_unused st
                 else as_unused st)"
    and "ndeps (op e) = 2 \<longrightarrow>
            as_unused (release_children e st)
              = (if as_refcount st ! arg_i e 0 = (if arg_i e 0 = arg_i e 1 then 2 else 1)
                 then [as_place st ! arg_i e 0] else [])
                @ (if as_refcount st ! arg_i e 1 = 1 then [as_place st ! arg_i e 1] else [])
                @ as_unused st"
proof -
  show "ndeps (op e) = 0 \<longrightarrow> as_unused (release_children e st) = as_unused st"
    by (simp add: release_children_unfold)
  show "ndeps (op e) = 1 \<longrightarrow>
            as_unused (release_children e st)
              = (if as_refcount st ! arg_i e 0 = 1 then as_place st ! arg_i e 0 # as_unused st
                 else as_unused st)"
    by (simp add: release_children_unfold release_child_stack)
  show "ndeps (op e) = 2 \<longrightarrow>
            as_unused (release_children e st)
              = (if as_refcount st ! arg_i e 0 = (if arg_i e 0 = arg_i e 1 then 2 else 1)
                 then [as_place st ! arg_i e 0] else [])
                @ (if as_refcount st ! arg_i e 1 = 1 then [as_place st ! arg_i e 1] else [])
                @ as_unused st"
  proof
    assume n: "ndeps (op e) = 2"
    have a1: "arg_i e 1 < length (as_refcount st)" using assms n by simp
    let ?s1 = "release_child e 1 st"
    have u1: "as_unused ?s1 = (if as_refcount st ! arg_i e 1 = 1 then [as_place st ! arg_i e 1] else [])
                @ as_unused st"
      by (simp add: release_child_stack)
    have r1: "as_refcount ?s1 ! arg_i e 0
              = (if arg_i e 0 = arg_i e 1 then as_refcount st ! arg_i e 0 - 1 else as_refcount st ! arg_i e 0)"
      using a1 by (simp add: release_child_refcount nth_upd)
    have c: "(as_refcount ?s1 ! arg_i e 0 - 1 = 0)
             = (as_refcount st ! arg_i e 0 = (if arg_i e 0 = arg_i e 1 then 2 else 1))"
      unfolding r1 by auto
    have "as_unused (release_child e 0 ?s1)
          = (if as_refcount ?s1 ! arg_i e 0 - 1 = 0 then as_place ?s1 ! arg_i e 0 # as_unused ?s1
             else as_unused ?s1)" by (rule release_child_stack)
    then have "as_unused (release_child e 0 ?s1)
          = (if as_refcount st ! arg_i e 0 = (if arg_i e 0 = arg_i e 1 then 2 else 1)
             then [as_place st ! arg_i e 0] else []) @ as_unused ?s1"
      unfolding c by simp
    then show "as_unused (release_children e st)
              = (if as_refcount st ! arg_i e 0 = (if arg_i e 0 = arg_i e 1 then 2 else 1)
                 then [as_place st ! arg_i e 0] else [])
                @ (if as_refcount st ! arg_i e 1 = 1 then [as_place st ! arg_i e 1] else [])
                @ as_unused st"
      unfolding u1 using n by (simp add: release_children_unfold)
  qed
qed

lemma alloc_step_state:
  "live \<and> op e \<noteq> OP_OUTPUT \<and> as_unused (release_children e st) \<noteq> [] \<longrightarrow>
     res (fst (alloc_step live e st)) = hd (as_unused (release_children e st))
     \<and> as_unused (snd (alloc_step live e st)) = tl (as_unused (release_children e st))
     \<and> as_worksize (snd (alloc_step live e st)) = as_worksize st
     \<and> as_place (snd (alloc_step live e st))
         = (as_place st)[res e := hd (as_unused (release_children e st))]"
  "op e \<noteq> OP_OUTPUT \<and> (\<not> live \<or> as_unused (release_children e st) = []) \<longrightarrow>
     res (fst (alloc_step live e st)) = as_worksize st
     \<and> as_unused (snd (alloc_step live e st)) = as_unused (release_children e st)
     \<and> as_worksize (snd (alloc_step live e st)) = Suc (as_worksize st)
     \<and> as_place (snd (alloc_step live e st)) = (as_place st)[res e := as_worksize st]"
  "op e = OP_OUTPUT \<longrightarrow>
     res (fst (alloc_step live e st)) = res e
     \<and> as_unused (snd (alloc_step live e st)) = as_unused (release_children e st)
     \<and> as_worksize (snd (alloc_step live e st)) = as_worksize st
     \<and> as_place (snd (alloc_step live e st)) = as_place st"
  by (auto simp: alloc_step_parts save_children_args(1) find_place_def)


text \<open>
  Claim C7 (as amended).  One instruction of the allocation loop, in full: every operand
  consumption decrements the use count of the operand; the stack of free slots after
  the release is the stack before it with the slots of the operands whose count has
  reached zero pushed on it, the second operand first and the first operand last, so
  that the first operand's slot is on top (an operand named twice is released once, when
  its count reaches zero); with live variables and a stack that is not empty, the result
  takes the top of that stack, which may be a slot released by this very instruction,
  and the stack is popped; with an empty stack, or without live variables, the result
  takes the fresh slot \<^verbatim>\<open>worksize\<close> and the stack stays as the release left it; an
  output instruction takes no slot.  Without live variables the results of the
  instructions that are not output instructions are the consecutive slots from
  \<^verbatim>\<open>worksize\<close> on, so no slot is ever used twice.
\<close>

theorem alloc_step_discipline:
  fixes e :: "'a SXAlgEl"
  assumes "\<forall>c < ndeps (op e). arg_i e c < length (as_refcount st)"
      and "j < length (as_refcount st)"
  shows "as_refcount (snd (alloc_step live_variables e st)) ! j
           = as_refcount st ! j - int (length (filter (\<lambda>c. arg_i e c = j) [0 ..< ndeps (op e)]))
       \<and> (ndeps (op e) = 0 \<longrightarrow> as_unused (release_children e st) = as_unused st)
       \<and> (ndeps (op e) = 1 \<longrightarrow>
            as_unused (release_children e st)
              = (if as_refcount st ! arg_i e 0 = 1 then as_place st ! arg_i e 0 # as_unused st
                 else as_unused st))
       \<and> (ndeps (op e) = 2 \<longrightarrow>
            as_unused (release_children e st)
              = (if as_refcount st ! arg_i e 0 = (if arg_i e 0 = arg_i e 1 then 2 else 1)
                 then [as_place st ! arg_i e 0] else [])
                @ (if as_refcount st ! arg_i e 1 = 1 then [as_place st ! arg_i e 1] else [])
                @ as_unused st)
       \<and> (live_variables \<and> op e \<noteq> OP_OUTPUT \<and> as_unused (release_children e st) \<noteq> [] \<longrightarrow>
            res (fst (alloc_step live_variables e st)) = hd (as_unused (release_children e st))
            \<and> as_unused (snd (alloc_step live_variables e st)) = tl (as_unused (release_children e st))
            \<and> as_worksize (snd (alloc_step live_variables e st)) = as_worksize st
            \<and> as_place (snd (alloc_step live_variables e st))
                = (as_place st)[res e := hd (as_unused (release_children e st))])
       \<and> (op e \<noteq> OP_OUTPUT \<and> (\<not> live_variables \<or> as_unused (release_children e st) = []) \<longrightarrow>
            res (fst (alloc_step live_variables e st)) = as_worksize st
            \<and> as_unused (snd (alloc_step live_variables e st)) = as_unused (release_children e st)
            \<and> as_worksize (snd (alloc_step live_variables e st)) = Suc (as_worksize st)
            \<and> as_place (snd (alloc_step live_variables e st)) = (as_place st)[res e := as_worksize st])
       \<and> (op e = OP_OUTPUT \<longrightarrow>
            res (fst (alloc_step live_variables e st)) = res e
            \<and> as_unused (snd (alloc_step live_variables e st)) = as_unused (release_children e st)
            \<and> as_worksize (snd (alloc_step live_variables e st)) = as_worksize st
            \<and> as_place (snd (alloc_step live_variables e st)) = as_place st)
       \<and> map res (filter (\<lambda>e. op e \<noteq> OP_OUTPUT) (fst (alloc_loop False es st)))
            = [as_worksize st ..< as_worksize st + length (filter (\<lambda>e. op e \<noteq> OP_OUTPUT) es)]"
proof -
  have c1: "as_refcount (snd (alloc_step live_variables e st)) ! j
           = as_refcount st ! j - int (length (filter (\<lambda>c. arg_i e c = j) [0 ..< ndeps (op e)]))"
    using release_children_refcount [OF assms] by (simp add: alloc_step_parts)
  note c2 = release_children_stack [OF assms(1)]
  note c3 = alloc_step_state [where live = live_variables and e = e and st = st]
  have c4: "map res (filter (\<lambda>e. op e \<noteq> OP_OUTPUT) (fst (alloc_loop False es st)))
            = [as_worksize st ..< as_worksize st + length (filter (\<lambda>e. op e \<noteq> OP_OUTPUT) es)]"
    using alloc_loop_fresh [of es st] by blast
  show ?thesis
    by (intro conjI) (rule c1 c2 c3 c4)+
qed

lemma alg0_xy_built:
  "map_option (\<lambda>bs. (bs_algorithm bs, bs_refcount bs))
        (build_loop graph_xy [[4]]
           (set_temp_index [Some 0, Some 1, Some 2, Some 3, Some 4, None] 0 (\<lambda>n. 0))
           [Some 0, Some 1, Some 2, Some 3, Some 4, None]
           \<lparr>bs_algorithm = [], bs_symb_loc = [], bs_curr_oind = 0, bs_curr_nz = 0,
            bs_refcount = [0, 0, 0, 0, 0, 0]\<rparr>)
   = Some (alg0_xy, as_refcount alloc0_xy)"
  by code_simp

theorem alloc_step_discipline_witness:
  "ndeps (op (alg0_xy ! 2)) = 2 \<and> op (alg0_xy ! 2) \<noteq> OP_OUTPUT
   \<and> arg_i (alg0_xy ! 2) 0 = 0 \<and> arg_i (alg0_xy ! 2) 1 = 1
   \<and> snd (alloc_loop True (take 2 alg0_xy) alloc0_xy)
        = \<lparr>as_refcount = [2, 1, 1, 1, 1, 0], as_place = [0, 1, 0, 0, 0, 0],
           as_unused = [], as_worksize = 2\<rparr>
   \<and> as_unused (release_children (alg0_xy ! 2) (snd (alloc_loop True (take 2 alg0_xy) alloc0_xy))) = [1]
   \<and> res (fst (alloc_step True (alg0_xy ! 2) (snd (alloc_loop True (take 2 alg0_xy) alloc0_xy)))) = 1
   \<and> as_unused (snd (alloc_step True (alg0_xy ! 2) (snd (alloc_loop True (take 2 alg0_xy) alloc0_xy)))) = []
   \<and> as_worksize (snd (alloc_step True (alg0_xy ! 2) (snd (alloc_loop True (take 2 alg0_xy) alloc0_xy)))) = 2
   \<and> as_place (snd (alloc_step True (alg0_xy ! 2) (snd (alloc_loop True (take 2 alg0_xy) alloc0_xy))))
        = [0, 1, 1, 0, 0, 0]
   \<and> as_refcount (snd (alloc_step True (alg0_xy ! 2) (snd (alloc_loop True (take 2 alg0_xy) alloc0_xy)))) ! 0 = 1
   \<and> map res (filter (\<lambda>e. op e \<noteq> OP_OUTPUT)
         (fst (alloc_loop False alg0_xy (snd (alloc_loop True (take 2 alg0_xy) alloc0_xy)))))
       = [2, 3, 4, 5, 6]"
proof -
  let ?st = "snd (alloc_loop True (take 2 alg0_xy) alloc0_xy)"
  let ?e = "alg0_xy ! 2"
  have st: "?st = \<lparr>as_refcount = [2, 1, 1, 1, 1, 0], as_place = [0, 1, 0, 0, 0, 0],
                   as_unused = [], as_worksize = 2\<rparr>"
    by code_simp
  have a: "ndeps (op ?e) = 2" "op ?e \<noteq> OP_OUTPUT" "arg_i ?e 0 = 0" "arg_i ?e 1 = 1" "res ?e = 2"
    by (simp_all add: alg0_xy_def arg_i_def)
  have h1: "\<forall>c < ndeps (op ?e). arg_i ?e c < length (as_refcount ?st)"
  proof (intro allI impI)
    fix c assume "c < ndeps (op ?e)"
    then have "c = 0 \<or> c = 1" using a(1) by auto
    then show "arg_i ?e c < length (as_refcount ?st)" unfolding st using a(3,4) by auto
  qed
  have h2: "0 < length (as_refcount ?st)" unfolding st by simp
  have n: "length (filter (\<lambda>c. arg_i ?e c = 0) [0 ..< ndeps (op ?e)]) = 1"
    "length (filter (\<lambda>e. op e \<noteq> OP_OUTPUT) alg0_xy) = 5"
    by code_simp+
  have s: "as_refcount ?st ! 0 = 2" "as_refcount ?st ! 1 = 1" "as_place ?st ! 0 = 0"
    "as_place ?st ! 1 = 1" "as_unused ?st = []" "as_worksize ?st = 2"
    "as_place ?st = [0, 1, 0, 0, 0, 0]"
    unfolding st by simp_all
  have u: "[as_worksize ?st ..< as_worksize ?st + 5] = [2, 3, 4, 5, 6]"
    unfolding s(6) by (simp add: upt_rec)
  note t = alloc_step_discipline [OF h1 h2, of True alg0_xy]
  have r: "as_unused (release_children ?e ?st) = [1]"
    using t a s by simp
  have r1: "as_refcount (snd (alloc_step True ?e ?st)) ! 0 = 1" using t n(1) s(1) by simp
  have r2: "res (fst (alloc_step True ?e ?st)) = 1"
    "as_unused (snd (alloc_step True ?e ?st)) = []"
    "as_worksize (snd (alloc_step True ?e ?st)) = 2"
    "as_place (snd (alloc_step True ?e ?st)) = [0, 1, 1, 0, 0, 0]"
    using t a(2,5) r s(6,7) by simp_all
  have r3: "map res (filter (\<lambda>e. op e \<noteq> OP_OUTPUT) (fst (alloc_loop False alg0_xy ?st)))
       = [2, 3, 4, 5, 6]" using t n(2) u by simp
  show ?thesis using a st r r1 r2 r3 by simp
qed

text \<open>
  Claim C7 as stated fails: a freed slot is not reused by later instructions only.  In
  the algorithm of \<open>graph_unary\<close> no slot is free before the unary instruction; the
  instruction releases its operand, whose slot 0 becomes free, and takes slot 0 for its
  own result.  The work vector has one entry.
\<close>

theorem alloc_reuse_by_releasing_instruction:
  "map_option (\<lambda>f. (algorithm f, worksize f)) (init graph_unary [[0]] [[1]] True (\<lambda>n. 0))
     = Some (alg_unary, 1)
   \<and> map_option bs_algorithm
        (build_loop graph_unary [[1]] (set_temp_index [Some 0, Some 1, None] 0 (\<lambda>n. 0))
           [Some 0, Some 1, None]
           \<lparr>bs_algorithm = [], bs_symb_loc = [], bs_curr_oind = 0, bs_curr_nz = 0,
            bs_refcount = [0, 0, 0]\<rparr>) = Some alg0_unary
   \<and> as_unused (snd (alloc_loop True (take 1 alg0_unary) alloc0_unary)) = []
   \<and> as_unused (release_children (alg0_unary ! 1)
         (snd (alloc_loop True (take 1 alg0_unary) alloc0_unary))) = [0]
   \<and> res (fst (alloc_step True (alg0_unary ! 1)
         (snd (alloc_loop True (take 1 alg0_unary) alloc0_unary)))) = 0
   \<and> arg_i0 (fst (alloc_step True (alg0_unary ! 1)
         (snd (alloc_loop True (take 1 alg0_unary) alloc0_unary)))) = 0"
  by code_simp

section \<open>Output and input instructions cover the outputs and the inputs\<close>

lemma count_null_take_mono: "p \<le> q \<Longrightarrow> count_null (take p ns) \<le> count_null (take q ns)"
proof -
  assume "p \<le> q"
  then have "take q ns = take p ns @ take (q - p) (drop p ns)"
    by (metis le_add_diff_inverse take_add)
  then show ?thesis by (simp add: count_null_def)
qed

lemma count_null_take_Suc:
  "p < length ns \<Longrightarrow> ns ! p = None \<Longrightarrow> count_null (take (Suc p) ns) = Suc (count_null (take p ns))"
  by (simp add: take_Suc_conv_app_nth count_null_def)

lemma count_null_take_less:
  assumes "p < q" and "q < length ns" and "ns ! p = None"
  shows "count_null (take p ns) < count_null (take q ns)"
proof -
  have "p < length ns" using assms by simp
  then have "count_null (take (Suc p) ns) = Suc (count_null (take p ns))"
    using assms(3) by (rule count_null_take_Suc)
  moreover have "count_null (take (Suc p) ns) \<le> count_null (take q ns)"
    using assms(1) by (intro count_null_take_mono) simp
  ultimately show ?thesis by simp
qed

lemma count_null_position:
  "k < count_null ns \<Longrightarrow> \<exists>p < length ns. ns ! p = None \<and> count_null (take p ns) = k"
proof (induction ns rule: rev_induct)
  case Nil
  then show ?case by (simp add: count_null_def)
next
  case (snoc t ns)
  show ?case
  proof (cases "k < count_null ns")
    case True
    then obtain p where p: "p < length ns" "ns ! p = None" "count_null (take p ns) = k"
      using snoc.IH by blast
    then have "p < length (ns @ [t]) \<and> (ns @ [t]) ! p = None \<and> count_null (take p (ns @ [t])) = k"
      by (simp add: nth_append)
    then show ?thesis by blast
  next
    case False
    then have t: "t = None" and k: "k = count_null ns"
      using snoc.prems by (cases t; simp add: count_null_def)+
    have "length ns < length (ns @ [t]) \<and> (ns @ [t]) ! length ns = None
          \<and> count_null (take (length ns) (ns @ [t])) = k"
      using t k by simp
    then show ?thesis by blast
  qed
qed

lemma prefix_mono:
  "i \<le> j \<Longrightarrow> length (concat (take i xs)) \<le> length (concat (take j xs))"
proof -
  assume "i \<le> j"
  then have "take j xs = take i xs @ take (j - i) (drop i xs)"
    by (metis le_add_diff_inverse take_add)
  then show ?thesis by simp
qed

lemma cursor_ok_unique:
  assumes c1: "cursor_ok outputv o1 n1 k" and c2: "cursor_ok outputv o2 n2 k"
      and l1: "o1 < length outputv" and l2: "o2 < length outputv"
  shows "o1 = o2 \<and> n1 = n2"
proof -
  have k1: "k = length (concat (take o1 outputv)) + n1" and b1: "n1 < length (outputv ! o1)"
    using c1 l1 unfolding cursor_ok_def by simp_all
  have k2: "k = length (concat (take o2 outputv)) + n2" and b2: "n2 < length (outputv ! o2)"
    using c2 l2 unfolding cursor_ok_def by simp_all
  have no_less: "\<And>a b na nb. a < b \<Longrightarrow> a < length outputv \<Longrightarrow> na < length (outputv ! a) \<Longrightarrow>
      length (concat (take a outputv)) + na < length (concat (take b outputv)) + nb"
  proof -
    fix a b na nb
    assume ab: "a < b" and al: "a < length outputv" and na: "na < length (outputv ! a)"
    have "length (concat (take (Suc a) outputv)) = length (concat (take a outputv)) + length (outputv ! a)"
      using al by (rule length_concat_take_Suc)
    moreover have "length (concat (take (Suc a) outputv)) \<le> length (concat (take b outputv))"
      using ab by (intro prefix_mono) simp
    ultimately show "length (concat (take a outputv)) + na < length (concat (take b outputv)) + nb"
      using na by simp
  qed
  have "o1 = o2"
  proof (rule ccontr)
    assume "o1 \<noteq> o2"
    then consider "o1 < o2" | "o2 < o1" by fastforce
    then show False
    proof cases
      case 1
      then show ?thesis using no_less [OF 1 l1 b1, of n2] k1 k2 by simp
    next
      case 2
      then show ?thesis using no_less [OF 2 l2 b2, of n1] k1 k2 by simp
    qed
  qed
  then show ?thesis using k1 k2 by simp
qed

lemma cursor_ok_of_location:
  assumes "oind < length outputv" and "nz < length (outputv ! oind)"
  shows "cursor_ok outputv oind nz (length (concat (take oind outputv)) + nz)"
    and "length (concat (take oind outputv)) + nz < length (concat outputv)"
  using assms concat_nth_cursor(1) [OF assms] by (simp_all add: cursor_ok_def)

lemma build_outputs_ok:
  fixes g :: "'a::zero graph"
  assumes opl: "outputs_placed nodes (concat outputv)"
      and bi: "build_inv g outputv nodes nodes bs"
      and ai: "alloc_inv (bs_algorithm bs) (length (bs_algorithm bs)) alg1 st"
      and mi: "mark_inv N sl alg1 alg2 temp"
  shows "outputs_ok alg2 (map length outputv)"
proof -
  let ?alg0 = "bs_algorithm bs"
  have len0: "length ?alg0 = length nodes"
    and ins: "\<forall>p < length nodes. instr_ok g outputv nodes p (?alg0 ! p)"
    using bi unfolding build_inv_def by blast+
  have len1: "length alg1 = length nodes"
    and a_op: "\<forall>q < length nodes. op (alg1 ! q) = op (?alg0 ! q)"
    and a_out: "\<forall>q < length nodes. op (?alg0 ! q) = OP_OUTPUT \<longrightarrow>
            res (alg1 ! q) = res (?alg0 ! q) \<and> arg_i1 (alg1 ! q) = arg_i1 (?alg0 ! q)"
    using ai len0 unfolding alloc_inv_def by simp_all
  have len2: "length alg2 = length nodes"
    and m2: "\<forall>p < length nodes. alg2 ! p = alg1 ! p
            \<or> (op (alg1 ! p) = OP_PARAMETER \<and> op (alg2 ! p) = OP_INPUT
                \<and> res (alg2 ! p) = res (alg1 ! p))"
    using mi len1 unfolding mark_inv_def by simp_all
  have cn: "count_null nodes = length (concat outputv)"
    using opl unfolding outputs_placed_def by blast
  have out_null: "\<And>p. p < length nodes \<Longrightarrow> op (alg2 ! p) = OP_OUTPUT \<Longrightarrow> nodes ! p = None"
  proof -
    fix p assume p: "p < length nodes" and o: "op (alg2 ! p) = OP_OUTPUT"
    have "alg2 ! p = alg1 ! p" using m2 p o by fastforce
    then have o0: "op (?alg0 ! p) = OP_OUTPUT" using a_op p o by simp
    show "nodes ! p = None"
    proof (cases "nodes ! p")
      case (Some n)
      then have "op (?alg0 ! p) = getOp (g ! n)" using ins p unfolding instr_ok_def by fastforce
      then show ?thesis using o0 getOp_not_output [of "g ! n"] by simp
    qed simp
  qed
  have null_out: "\<And>p. p < length nodes \<Longrightarrow> nodes ! p = None \<Longrightarrow>
      op (alg2 ! p) = OP_OUTPUT \<and> res (alg2 ! p) < length outputv
      \<and> cursor_ok outputv (res (alg2 ! p)) (arg_i1 (alg2 ! p)) (count_null (take p nodes))"
  proof -
    fix p assume p: "p < length nodes" and n: "nodes ! p = None"
    have io: "instr_ok g outputv nodes p (?alg0 ! p)" using ins p by blast
    have o0: "op (?alg0 ! p) = OP_OUTPUT" and r0: "res (?alg0 ! p) < length outputv"
      and c0: "cursor_ok outputv (res (?alg0 ! p)) (arg_i1 (?alg0 ! p)) (count_null (take p nodes))"
      using io n unfolding instr_ok_def by simp_all
    have o1: "op (alg1 ! p) = OP_OUTPUT" using a_op p o0 by simp
    have e: "alg2 ! p = alg1 ! p" using m2 p o1 by fastforce
    have "res (alg1 ! p) = res (?alg0 ! p)" "arg_i1 (alg1 ! p) = arg_i1 (?alg0 ! p)"
      using a_out p o0 by simp_all
    then show "op (alg2 ! p) = OP_OUTPUT \<and> res (alg2 ! p) < length outputv
      \<and> cursor_ok outputv (res (alg2 ! p)) (arg_i1 (alg2 ! p)) (count_null (take p nodes))"
      using e o1 r0 c0 by simp
  qed
  have o1: "\<forall>p < length alg2. op (alg2 ! p) = OP_OUTPUT \<longrightarrow>
         res (alg2 ! p) < length (map length outputv)
         \<and> arg_i1 (alg2 ! p) < map length outputv ! res (alg2 ! p)"
  proof (intro allI impI)
    fix p assume p: "p < length alg2" and o: "op (alg2 ! p) = OP_OUTPUT"
    have pn: "p < length nodes" using p len2 by simp
    have n: "nodes ! p = None" using out_null [OF pn o] .
    have r: "res (alg2 ! p) < length outputv"
      and c: "cursor_ok outputv (res (alg2 ! p)) (arg_i1 (alg2 ! p)) (count_null (take p nodes))"
      using null_out [OF pn n] by simp_all
    have "arg_i1 (alg2 ! p) < length (outputv ! res (alg2 ! p))"
      using c r unfolding cursor_ok_def by simp
    then show "res (alg2 ! p) < length (map length outputv)
         \<and> arg_i1 (alg2 ! p) < map length outputv ! res (alg2 ! p)" using r by simp
  qed
  have o2: "\<forall>p < length alg2. \<forall>q < length alg2.
            op (alg2 ! p) = OP_OUTPUT \<and> op (alg2 ! q) = OP_OUTPUT
            \<and> res (alg2 ! p) = res (alg2 ! q) \<and> arg_i1 (alg2 ! p) = arg_i1 (alg2 ! q) \<longrightarrow> p = q"
  proof (intro allI impI)
    fix p q assume p: "p < length alg2" and q: "q < length alg2"
      and h: "op (alg2 ! p) = OP_OUTPUT \<and> op (alg2 ! q) = OP_OUTPUT
            \<and> res (alg2 ! p) = res (alg2 ! q) \<and> arg_i1 (alg2 ! p) = arg_i1 (alg2 ! q)"
    have pn: "p < length nodes" and qn: "q < length nodes" using p q len2 by simp_all
    have np: "nodes ! p = None" and nq: "nodes ! q = None"
      using out_null [OF pn] out_null [OF qn] h by simp_all
    have cp: "cursor_ok outputv (res (alg2 ! p)) (arg_i1 (alg2 ! p)) (count_null (take p nodes))"
      and cq: "cursor_ok outputv (res (alg2 ! q)) (arg_i1 (alg2 ! q)) (count_null (take q nodes))"
      using null_out [OF pn np] null_out [OF qn nq] by simp_all
    have k: "count_null (take p nodes) = count_null (take q nodes)"
      using cp cq h unfolding cursor_ok_def by simp
    show "p = q"
    proof (rule ccontr)
      assume "p \<noteq> q"
      then consider "p < q" | "q < p" by fastforce
      then show False
      proof cases
        case 1
        then show ?thesis using count_null_take_less [OF 1 qn np] k by simp
      next
        case 2
        then show ?thesis using count_null_take_less [OF 2 pn nq] k by simp
      qed
    qed
  qed
  have o3: "\<forall>oind < length (map length outputv). \<forall>nz < map length outputv ! oind.
            \<exists>p < length alg2. op (alg2 ! p) = OP_OUTPUT \<and> res (alg2 ! p) = oind \<and> arg_i1 (alg2 ! p) = nz"
  proof (intro allI impI)
    fix oind nz assume "oind < length (map length outputv)" and "nz < map length outputv ! oind"
    then have ol: "oind < length outputv" and nl: "nz < length (outputv ! oind)" by simp_all
    let ?k = "length (concat (take oind outputv)) + nz"
    have ck: "cursor_ok outputv oind nz ?k" and kl: "?k < length (concat outputv)"
      using cursor_ok_of_location [OF ol nl] by simp_all
    obtain p where p: "p < length nodes" "nodes ! p = None" "count_null (take p nodes) = ?k"
      using count_null_position [of ?k nodes] kl cn by auto
    have r: "res (alg2 ! p) < length outputv" and o: "op (alg2 ! p) = OP_OUTPUT"
      and c: "cursor_ok outputv (res (alg2 ! p)) (arg_i1 (alg2 ! p)) ?k"
      using null_out [OF p(1) p(2)] p(3) by simp_all
    have "res (alg2 ! p) = oind \<and> arg_i1 (alg2 ! p) = nz"
      using cursor_ok_unique [OF c ck r ol] .
    then have "p < length alg2 \<and> op (alg2 ! p) = OP_OUTPUT \<and> res (alg2 ! p) = oind
               \<and> arg_i1 (alg2 ! p) = nz" using p(1) len2 o by simp
    then show "\<exists>p < length alg2. op (alg2 ! p) = OP_OUTPUT \<and> res (alg2 ! p) = oind
               \<and> arg_i1 (alg2 ! p) = nz" by blast
  qed
  show ?thesis unfolding outputs_ok_def using o1 o2 o3 by blast
qed

lemma input_row_fold:
  "input_row ind nz ns st = fold input_step (located_row ind nz ns) st"
proof (induction ns arbitrary: nz st)
  case Nil
  then show ?case by (simp add: located_row_def)
next
  case (Cons n ns)
  obtain alg temp where st: "st = (alg, temp)" by (cases st)
  have u: "[nz ..< nz + length (n # ns)] = nz # [Suc nz ..< Suc nz + length ns]"
    by (subst upt_conv_Cons) simp_all
  have z: "zip [nz ..< nz + length (n # ns)] (n # ns) = (nz, n) # zip [Suc nz ..< Suc nz + length ns] ns"
    unfolding u by simp
  have l: "located_row ind nz (n # ns) = (ind, nz, n) # located_row ind (Suc nz) ns"
    unfolding located_row_def z by simp
  show ?case unfolding l using Cons.IH st by (simp add: input_step_def Let_def)
qed

lemma input_instructions_fold:
  "input_instructions ind rows st = fold input_step (located ind rows) st"
  by (induction rows arbitrary: ind st) (simp_all add: input_row_fold)

lemma located_row_nodes: "map (\<lambda>(i, z, n). n) (located_row ind nz ns) = ns"
proof -
  have "map (\<lambda>(i, z, n). n) (located_row ind nz ns) = map snd (zip [nz ..< nz + length ns] ns)"
    unfolding located_row_def by (simp add: case_prod_unfold comp_def)
  then show ?thesis by simp
qed

lemma located_nodes: "map (\<lambda>(i, z, n). n) (located ind rows) = concat rows"
  by (induction rows arbitrary: ind) (simp_all add: located_row_nodes)

lemma located_row_set:
  "(i, z, n) \<in> set (located_row ind nz ns) \<longleftrightarrow> i = ind \<and> nz \<le> z \<and> z - nz < length ns \<and> n = ns ! (z - nz)"
proof
  assume "(i, z, n) \<in> set (located_row ind nz ns)"
  then have i: "i = ind" and m: "(z, n) \<in> set (zip [nz ..< nz + length ns] ns)"
    unfolding located_row_def by auto
  then obtain k where k: "k < length ns" "[nz ..< nz + length ns] ! k = z" "ns ! k = n"
    unfolding in_set_zip by auto
  then have "z = nz + k" by simp
  then show "i = ind \<and> nz \<le> z \<and> z - nz < length ns \<and> n = ns ! (z - nz)" using i k by simp
next
  assume a: "i = ind \<and> nz \<le> z \<and> z - nz < length ns \<and> n = ns ! (z - nz)"
  let ?k = "z - nz"
  have "[nz ..< nz + length ns] ! ?k = nz + ?k" using a by (intro nth_upt) arith
  then have "?k < length ns" "[nz ..< nz + length ns] ! ?k = z" "ns ! ?k = n" using a by simp_all
  then have "(z, n) \<in> set (zip [nz ..< nz + length ns] ns)"
    unfolding in_set_zip by (intro exI [of _ ?k]) simp
  then show "(i, z, n) \<in> set (located_row ind nz ns)"
    unfolding located_row_def using a by force
qed

lemma located_set:
  "(i, z, n) \<in> set (located ind rows)
     \<longleftrightarrow> ind \<le> i \<and> i - ind < length rows \<and> z < length (rows ! (i - ind)) \<and> n = rows ! (i - ind) ! z"
proof (induction rows arbitrary: ind)
  case Nil
  then show ?case by simp
next
  case (Cons row rows)
  show ?case
  proof (cases "i = ind")
    case True
    have "(i, z, n) \<notin> set (located (Suc ind) rows)" using Cons.IH [of "Suc ind"] True by simp
    then show ?thesis using True by (simp add: located_row_set)
  next
    case False
    have "(i, z, n) \<notin> set (located_row ind 0 row)" using False by (simp add: located_row_set)
    moreover have "ind \<le> i \<Longrightarrow> (row # rows) ! (i - ind) = rows ! (i - Suc ind)"
      using False by (simp add: nth_Cons')
    ultimately show ?thesis using Cons.IH [of "Suc ind"] False by auto
  qed
qed

section \<open>Sweeps of one direction\<close>

lemma upd2_nth:
  "upd2 m i j v ! i' ! j' = (if i = i' \<and> j = j' \<and> i < length m \<and> j < length (m ! i) then v else m ! i' ! j')"
  unfolding upd2_def by (auto simp add: nth_upd)

lemma upd2_shape [simp]: "map length (upd2 m i j v) = map length m"
  unfolding upd2_def by (rule nth_equalityI) (simp_all add: nth_upd)

lemma upd2_length [simp]: "length (upd2 m i j v) = length m"
  unfolding upd2_def by simp

lemma fwd_step_proj:
  assumes "dir < length (fwdSens st)"
  shows "fwd_step dir it (st, n) =
           (case fwd_dir_step (pdwork st) (fwdSeed st ! dir) it (work st, fwdSens st ! dir, n) of
              (w, s, n') \<Rightarrow> (st\<lparr>work := w, fwdSens := (fwdSens st)[dir := s]\<rparr>, n'))"
  using assms by (cases "op it") (simp_all add: fwd_step_def fwd_dir_step_def upd3_def Let_def)

lemma fwd_fold_proj:
  assumes "dir < length (fwdSens st)"
  shows "fold (fwd_step dir) alg (st, n) =
           (case fold (fwd_dir_step (pdwork st) (fwdSeed st ! dir)) alg (work st, fwdSens st ! dir, n) of
              (w, s, n') \<Rightarrow> (st\<lparr>work := w, fwdSens := (fwdSens st)[dir := s]\<rparr>, n'))"
  using assms
proof (induction alg arbitrary: st n)
  case Nil
  then show ?case by simp
next
  case (Cons it alg)
  obtain w s n' where r: "fwd_dir_step (pdwork st) (fwdSeed st ! dir) it (work st, fwdSens st ! dir, n) = (w, s, n')"
    by (cases "fwd_dir_step (pdwork st) (fwdSeed st ! dir) it (work st, fwdSens st ! dir, n)")
  let ?st = "st\<lparr>work := w, fwdSens := (fwdSens st)[dir := s]\<rparr>"
  have s1: "fwd_step dir it (st, n) = (?st, n')"
    using fwd_step_proj [OF Cons.prems, of it n] r by simp
  have d: "dir < length (fwdSens ?st)" using Cons.prems by simp
  show ?case
    using Cons.IH [OF d, of n'] Cons.prems by (simp add: s1 r split: prod.splits)
qed

lemma adj_step_proj:
  assumes "dir < length (adjSens st)"
  shows "adj_step dir it (st, n) =
           (case adj_dir_step (pdwork st) (adjSeed st ! dir) it (work st, adjSens st ! dir, n) of
              (w, s, n') \<Rightarrow> (st\<lparr>work := w, adjSens := (adjSens st)[dir := s]\<rparr>, n'))"
  using assms by (cases "op it") (simp_all add: adj_step_def adj_dir_step_def upd3_def Let_def)

lemma adj_fold_proj:
  assumes "dir < length (adjSens st)"
  shows "fold (adj_step dir) alg (st, n) =
           (case fold (adj_dir_step (pdwork st) (adjSeed st ! dir)) alg (work st, adjSens st ! dir, n) of
              (w, s, n') \<Rightarrow> (st\<lparr>work := w, adjSens := (adjSens st)[dir := s]\<rparr>, n'))"
  using assms
proof (induction alg arbitrary: st n)
  case Nil
  then show ?case by simp
next
  case (Cons it alg)
  obtain w s n' where r: "adj_dir_step (pdwork st) (adjSeed st ! dir) it (work st, adjSens st ! dir, n) = (w, s, n')"
    by (cases "adj_dir_step (pdwork st) (adjSeed st ! dir) it (work st, adjSens st ! dir, n)")
  let ?st = "st\<lparr>work := w, adjSens := (adjSens st)[dir := s]\<rparr>"
  have s1: "adj_step dir it (st, n) = (?st, n')"
    using adj_step_proj [OF Cons.prems, of it n] r by simp
  have d: "dir < length (adjSens ?st)" using Cons.prems by simp
  show ?case
    using Cons.IH [OF d, of n'] Cons.prems by (simp add: s1 r split: prod.splits)
qed

lemma fwd_dir_step_builtin:
  "is_builtin (op it) \<Longrightarrow>
   fwd_dir_step tape seed it (w, s, n) =
     (w[res it := fst (tape ! n) * (w ! arg_i0 it) + snd (tape ! n) * (w ! arg_i1 it)], s, Suc n)"
  by (cases "op it") (simp_all add: fwd_dir_step_def)

lemma opcode_kinds:
  "opc = OP_CONST \<or> opc = OP_PARAMETER \<or> opc = OP_INPUT \<or> opc = OP_OUTPUT \<or> is_builtin opc"
  by (cases opc) simp_all

lemma is_builtin_simps2:
  "is_builtin opc \<Longrightarrow> opc \<noteq> OP_OUTPUT \<and> opc \<noteq> OP_INPUT \<and> opc \<noteq> OP_CONST \<and> opc \<noteq> OP_PARAMETER"
  by (cases opc) simp_all

lemma alg_wf_operands:
  assumes w: "alg_wf alg ws" and p: "p < length alg"
  shows "is_builtin (op (alg ! p)) \<or> op (alg ! p) = OP_OUTPUT
           \<Longrightarrow> \<exists>q < p. op (alg ! q) \<noteq> OP_OUTPUT \<and> res (alg ! q) = arg_i0 (alg ! p)"
    and "is_builtin (op (alg ! p))
           \<Longrightarrow> \<exists>q < p. op (alg ! q) \<noteq> OP_OUTPUT \<and> res (alg ! q) = arg_i1 (alg ! p)"
    and "op (alg ! p) \<noteq> OP_OUTPUT \<Longrightarrow> res (alg ! p) < ws"
proof -
  have w1: "\<forall>c < ndeps (op (alg ! p)). \<exists>q < p. op (alg ! q) \<noteq> OP_OUTPUT \<and> res (alg ! q) = arg_i (alg ! p) c"
    and w2: "unary_ok (alg ! p)"
    and w3: "op (alg ! p) \<noteq> OP_OUTPUT \<longrightarrow> res (alg ! p) < ws"
    using w p unfolding alg_wf_def by blast+
  show "op (alg ! p) \<noteq> OP_OUTPUT \<Longrightarrow> res (alg ! p) < ws" using w3 by blast
  {
    assume "is_builtin (op (alg ! p)) \<or> op (alg ! p) = OP_OUTPUT"
    then have "0 < ndeps (op (alg ! p))" by (cases "op (alg ! p)") simp_all
    then show "\<exists>q < p. op (alg ! q) \<noteq> OP_OUTPUT \<and> res (alg ! q) = arg_i0 (alg ! p)"
      using w1 by (fastforce simp: arg_i_def)
  next
    assume b: "is_builtin (op (alg ! p))"
    show "\<exists>q < p. op (alg ! q) \<noteq> OP_OUTPUT \<and> res (alg ! q) = arg_i1 (alg ! p)"
    proof (cases "op (alg ! p)")
      case (OP_UNARY k)
      then have "arg_i1 (alg ! p) = arg_i0 (alg ! p)" using w2 by (simp add: unary_ok_def)
      moreover have "\<exists>q < p. op (alg ! q) \<noteq> OP_OUTPUT \<and> res (alg ! q) = arg_i (alg ! p) 0"
        using w1 OP_UNARY by simp
      ultimately show ?thesis by (simp add: arg_i_def)
    next
      case (OP_BINARY k)
      then have "\<exists>q < p. op (alg ! q) \<noteq> OP_OUTPUT \<and> res (alg ! q) = arg_i (alg ! p) 1"
        using w1 by simp
      then show ?thesis by (simp add: arg_i_def)
    qed (use b in simp_all)
  }
qed

lemma outputs_okD:
  assumes "outputs_ok alg osz" and "p < length alg" and "op (alg ! p) = OP_OUTPUT"
  shows "res (alg ! p) < length osz" and "arg_i1 (alg ! p) < osz ! res (alg ! p)"
  using assms unfolding outputs_ok_def by blast+

lemma inputs_okD:
  assumes "inputs_ok alg isz" and "p < length alg" and "op (alg ! p) = OP_INPUT"
  shows "arg_i0 (alg ! p) < length isz" and "arg_i1 (alg ! p) < isz ! arg_i0 (alg ! p)"
  using assms unfolding inputs_ok_def by blast+

lemma shape_nth:
  assumes "map length s = sz" and "i < length sz"
  shows "length s = length sz" and "length (s ! i) = sz ! i"
proof -
  show l: "length s = length sz" using assms(1) by (metis length_map)
  have "map length s ! i = sz ! i" using assms(1) by simp
  then show "length (s ! i) = sz ! i" using assms(2) l by simp
qed

lemma shape_eqI:
  assumes a: "map length s = sz" and b: "map length t = sz"
      and e: "\<forall>i < length sz. \<forall>j < sz ! i. s ! i ! j = t ! i ! j"
  shows "s = t"
proof (rule nth_equalityI)
  show l: "length s = length t" using a b by (metis length_map)
  fix i assume i: "i < length s"
  have isz: "i < length sz" using i a by auto
  show "s ! i = t ! i"
  proof (rule nth_equalityI)
    show "length (s ! i) = length (t ! i)"
      using shape_nth(2) [OF a isz] shape_nth(2) [OF b isz] by simp
    fix j assume "j < length (s ! i)"
    then have "j < sz ! i" using shape_nth(2) [OF a isz] by simp
    then show "s ! i ! j = t ! i ! j" using e isz by blast
  qed
qed

lemma fwd_dir_prefix_agree:
  fixes alg :: "'a::{zero,plus,times} SXAlgEl list"
  assumes w: "alg_wf alg ws" and nopar: "\<forall>p < length alg. op (alg ! p) \<noteq> OP_PARAMETER"
      and o: "outputs_ok alg osz"
      and l1: "length w1 = ws" and l2: "length w2 = ws"
      and s1: "map length s1 = osz" and s2: "map length s2 = osz"
  shows "alg = pre @ suf \<Longrightarrow>
     (\<exists>wa sa wb sb na.
        fold (fwd_dir_step tape seed) pre (w1, s1, n) = (wa, sa, na)
        \<and> fold (fwd_dir_step tape seed) pre (w2, s2, n) = (wb, sb, na)
        \<and> length wa = ws \<and> length wb = ws \<and> map length sa = osz \<and> map length sb = osz
        \<and> (\<forall>q < length pre. op (alg ! q) \<noteq> OP_OUTPUT \<longrightarrow> wa ! res (alg ! q) = wb ! res (alg ! q))
        \<and> (\<forall>q < length pre. op (alg ! q) = OP_OUTPUT \<longrightarrow>
              sa ! res (alg ! q) ! arg_i1 (alg ! q) = sb ! res (alg ! q) ! arg_i1 (alg ! q)))"
proof (induction pre arbitrary: suf rule: rev_induct)
  case Nil
  then show ?case using l1 l2 s1 s2 by simp
next
  case (snoc x xs)
  let ?k = "length xs"
  have alg: "alg = xs @ x # suf" using snoc.prems by simp
  have k: "?k < length alg" and xk: "alg ! ?k = x" using alg by simp_all
  obtain wa sa wb sb na where
    ra: "fold (fwd_dir_step tape seed) xs (w1, s1, n) = (wa, sa, na)"
    and rb: "fold (fwd_dir_step tape seed) xs (w2, s2, n) = (wb, sb, na)"
    and la: "length wa = ws" and lb: "length wb = ws"
    and sha: "map length sa = osz" and shb: "map length sb = osz"
    and agw: "\<forall>q < ?k. op (alg ! q) \<noteq> OP_OUTPUT \<longrightarrow> wa ! res (alg ! q) = wb ! res (alg ! q)"
    and ags: "\<forall>q < ?k. op (alg ! q) = OP_OUTPUT \<longrightarrow>
              sa ! res (alg ! q) ! arg_i1 (alg ! q) = sb ! res (alg ! q) ! arg_i1 (alg ! q)"
    using snoc.IH [OF alg] by blast
  have wr: "\<And>v. op x \<noteq> OP_OUTPUT \<Longrightarrow>
     (\<forall>q < Suc ?k. op (alg ! q) \<noteq> OP_OUTPUT \<longrightarrow>
          wa[res x := v] ! res (alg ! q) = wb[res x := v] ! res (alg ! q))
     \<and> (\<forall>q < Suc ?k. op (alg ! q) = OP_OUTPUT \<longrightarrow>
              sa ! res (alg ! q) ! arg_i1 (alg ! q) = sb ! res (alg ! q) ! arg_i1 (alg ! q))"
  proof (intro conjI allI impI)
    fix v q assume nx: "op x \<noteq> OP_OUTPUT" and q: "q < Suc ?k" and nq: "op (alg ! q) \<noteq> OP_OUTPUT"
    have r: "res x < ws" using alg_wf_operands(3) [OF w k] xk nx by simp
    show "wa[res x := v] ! res (alg ! q) = wb[res x := v] ! res (alg ! q)"
    proof (cases "res (alg ! q) = res x")
      case True
      then show ?thesis using r la lb by simp
    next
      case False
      then have "q < ?k" using q xk by (cases "q = ?k") simp_all
      then show ?thesis using agw nq False by simp
    qed
  next
    fix v q assume nx: "op x \<noteq> OP_OUTPUT" and q: "q < Suc ?k" and oq: "op (alg ! q) = OP_OUTPUT"
    have "q < ?k" using q xk nx oq by (cases "q = ?k") simp_all
    then show "sa ! res (alg ! q) ! arg_i1 (alg ! q) = sb ! res (alg ! q) ! arg_i1 (alg ! q)"
      using ags oq by blast
  qed
  have fa: "fold (fwd_dir_step tape seed) (xs @ [x]) (w1, s1, n) = fwd_dir_step tape seed x (wa, sa, na)"
    and fb: "fold (fwd_dir_step tape seed) (xs @ [x]) (w2, s2, n) = fwd_dir_step tape seed x (wb, sb, na)"
    using ra rb by simp_all
  have np: "op x \<noteq> OP_PARAMETER" using nopar k xk by blast
  consider (c) "op x = OP_CONST" | (i) "op x = OP_INPUT" | (ou) "op x = OP_OUTPUT" | (b) "is_builtin (op x)"
    using opcode_kinds [of "op x"] np by blast
  then show ?case
  proof cases
    case c
    have sa': "fwd_dir_step tape seed x (wa, sa, na) = (wa[res x := 0], sa, na)"
      and sb': "fwd_dir_step tape seed x (wb, sb, na) = (wb[res x := 0], sb, na)"
      using c by (simp_all add: fwd_dir_step_def)
    show ?thesis unfolding fa fb sa' sb' using wr [of 0] c la lb sha shb by simp
  next
    case i
    let ?v = "seed ! arg_i0 x ! arg_i1 x"
    have sa': "fwd_dir_step tape seed x (wa, sa, na) = (wa[res x := ?v], sa, na)"
      and sb': "fwd_dir_step tape seed x (wb, sb, na) = (wb[res x := ?v], sb, na)"
      using i by (simp_all add: fwd_dir_step_def)
    show ?thesis unfolding fa fb sa' sb' using wr [of ?v] i la lb sha shb by simp
  next
    case b
    have nx: "op x \<noteq> OP_OUTPUT" using is_builtin_simps2 [OF b] by simp
    have "\<exists>q < ?k. op (alg ! q) \<noteq> OP_OUTPUT \<and> res (alg ! q) = arg_i0 x"
      using alg_wf_operands(1) [OF w k] b xk by simp
    then have e0: "wa ! arg_i0 x = wb ! arg_i0 x" using agw by metis
    have "\<exists>q < ?k. op (alg ! q) \<noteq> OP_OUTPUT \<and> res (alg ! q) = arg_i1 x"
      using alg_wf_operands(2) [OF w k] b xk by simp
    then have e1: "wa ! arg_i1 x = wb ! arg_i1 x" using agw by metis
    let ?v = "fst (tape ! na) * (wa ! arg_i0 x) + snd (tape ! na) * (wa ! arg_i1 x)"
    have sa': "fwd_dir_step tape seed x (wa, sa, na) = (wa[res x := ?v], sa, Suc na)"
      using b by (rule fwd_dir_step_builtin)
    have sb': "fwd_dir_step tape seed x (wb, sb, na) = (wb[res x := ?v], sb, Suc na)"
      using fwd_dir_step_builtin [OF b, of tape seed wb sb na] e0 e1 by simp
    show ?thesis unfolding fa fb sa' sb' using wr [of ?v] nx la lb sha shb by simp
  next
    case ou
    have "\<exists>q < ?k. op (alg ! q) \<noteq> OP_OUTPUT \<and> res (alg ! q) = arg_i0 x"
      using alg_wf_operands(1) [OF w k] ou xk by simp
    then have e0: "wa ! arg_i0 x = wb ! arg_i0 x" using agw by metis
    let ?v = "wa ! arg_i0 x"
    have sa': "fwd_dir_step tape seed x (wa, sa, na) = (wa, upd2 sa (res x) (arg_i1 x) ?v, na)"
      using ou by (simp add: fwd_dir_step_def)
    have sb': "fwd_dir_step tape seed x (wb, sb, na) = (wb, upd2 sb (res x) (arg_i1 x) ?v, na)"
      using ou e0 by (simp add: fwd_dir_step_def)
    have ro: "res x < length osz" and zo: "arg_i1 x < osz ! res x"
      using outputs_okD [OF o k] ou xk by simp_all
    have ina: "res x < length sa \<and> arg_i1 x < length (sa ! res x)"
      using shape_nth [OF sha ro] ro zo by simp
    have inb: "res x < length sb \<and> arg_i1 x < length (sb ! res x)"
      using shape_nth [OF shb ro] ro zo by simp
    have c1: "\<forall>q < Suc ?k. op (alg ! q) \<noteq> OP_OUTPUT \<longrightarrow> wa ! res (alg ! q) = wb ! res (alg ! q)"
    proof (intro allI impI)
      fix q assume q: "q < Suc ?k" and nq: "op (alg ! q) \<noteq> OP_OUTPUT"
      have "q < ?k" using q xk ou nq by (cases "q = ?k") simp_all
      then show "wa ! res (alg ! q) = wb ! res (alg ! q)" using agw nq by blast
    qed
    have c2: "\<forall>q < Suc ?k. op (alg ! q) = OP_OUTPUT \<longrightarrow>
              upd2 sa (res x) (arg_i1 x) ?v ! res (alg ! q) ! arg_i1 (alg ! q)
              = upd2 sb (res x) (arg_i1 x) ?v ! res (alg ! q) ! arg_i1 (alg ! q)"
    proof (intro allI impI)
      fix q assume q: "q < Suc ?k" and oq: "op (alg ! q) = OP_OUTPUT"
      show "upd2 sa (res x) (arg_i1 x) ?v ! res (alg ! q) ! arg_i1 (alg ! q)
              = upd2 sb (res x) (arg_i1 x) ?v ! res (alg ! q) ! arg_i1 (alg ! q)"
      proof (cases "res x = res (alg ! q) \<and> arg_i1 x = arg_i1 (alg ! q)")
        case True
        then show ?thesis using ina inb by (simp add: upd2_nth)
      next
        case False
        then have "q \<noteq> ?k" using xk by auto
        then have "q < ?k" using q by simp
        then have "sa ! res (alg ! q) ! arg_i1 (alg ! q) = sb ! res (alg ! q) ! arg_i1 (alg ! q)"
          using ags oq by blast
        then show ?thesis using False by (auto simp add: upd2_nth)
      qed
    qed
    show ?thesis unfolding fa fb sa' sb' using c1 c2 la lb sha shb by simp
  qed
qed

lemma fwd_dir_determined:
  fixes alg :: "'a::{zero,plus,times} SXAlgEl list"
  assumes w: "alg_wf alg ws" and nopar: "\<forall>p < length alg. op (alg ! p) \<noteq> OP_PARAMETER"
      and o: "outputs_ok alg osz"
      and l1: "length w1 = ws" and l2: "length w2 = ws"
      and s1: "map length s1 = osz" and s2: "map length s2 = osz"
  shows "fst (snd (fold (fwd_dir_step tape seed) alg (w1, s1, n)))
         = fst (snd (fold (fwd_dir_step tape seed) alg (w2, s2, n)))"
    and "length (fst (fold (fwd_dir_step tape seed) alg (w1, s1, n))) = ws"
    and "map length (fst (snd (fold (fwd_dir_step tape seed) alg (w1, s1, n)))) = osz"
proof -
  obtain wa sa wb sb na where
    ra: "fold (fwd_dir_step tape seed) alg (w1, s1, n) = (wa, sa, na)"
    and rb: "fold (fwd_dir_step tape seed) alg (w2, s2, n) = (wb, sb, na)"
    and la: "length wa = ws" and lb: "length wb = ws"
    and sha: "map length sa = osz" and shb: "map length sb = osz"
    and ags: "\<forall>q < length alg. op (alg ! q) = OP_OUTPUT \<longrightarrow>
              sa ! res (alg ! q) ! arg_i1 (alg ! q) = sb ! res (alg ! q) ! arg_i1 (alg ! q)"
    using fwd_dir_prefix_agree [OF w nopar o l1 l2 s1 s2, of alg "[]" tape seed n] by auto
  have "\<forall>i < length osz. \<forall>j < osz ! i. sa ! i ! j = sb ! i ! j"
  proof (intro allI impI)
    fix i j assume i: "i < length osz" and j: "j < osz ! i"
    obtain p where "p < length alg" "op (alg ! p) = OP_OUTPUT" "res (alg ! p) = i" "arg_i1 (alg ! p) = j"
      using o i j unfolding outputs_ok_def by blast
    then show "sa ! i ! j = sb ! i ! j" using ags by blast
  qed
  then have "sa = sb" using shape_eqI [OF sha shb] by blast
  then show "fst (snd (fold (fwd_dir_step tape seed) alg (w1, s1, n)))
         = fst (snd (fold (fwd_dir_step tape seed) alg (w2, s2, n)))" using ra rb by simp
  show "length (fst (fold (fwd_dir_step tape seed) alg (w1, s1, n))) = ws" using ra la by simp
  show "map length (fst (snd (fold (fwd_dir_step tape seed) alg (w1, s1, n)))) = osz" using ra sha by simp
qed

lemma zero_bundle_shape [simp]: "map length (zero_bundle sz) = sz"
  unfolding zero_bundle_def by (rule nth_equalityI) simp_all

lemma zero_bundle_nth: "i < length sz \<Longrightarrow> j < sz ! i \<Longrightarrow> zero_bundle sz ! i ! j = 0"
  unfolding zero_bundle_def by simp

lemma zero_bundle_eqI:
  assumes a: "map length s = sz" and e: "\<forall>i < length sz. \<forall>j < sz ! i. s ! i ! j = 0"
  shows "s = zero_bundle sz"
proof (rule shape_eqI [OF a zero_bundle_shape])
  show "\<forall>i < length sz. \<forall>j < sz ! i. s ! i ! j = zero_bundle sz ! i ! j"
    using e by (simp add: zero_bundle_nth)
qed

lemma adj_dir_step_input:
  "op e = OP_INPUT \<Longrightarrow>
   adj_dir_step tape seed e (w, s, n) = (w[res e := 0], upd2 s (arg_i0 e) (arg_i1 e) (w ! res e), n)"
  by (simp add: adj_dir_step_def)

lemma adj_dir_step_other:
  "op e \<noteq> OP_INPUT \<Longrightarrow> \<exists>w' n'. \<forall>s. adj_dir_step tape seed e (w, s, n) = (w', s, n')"
  by (cases "op e") (simp_all add: adj_dir_step_def Let_def)

lemma adj_dir_agree:
  fixes L :: "'a::{zero,plus,times} SXAlgEl list"
  assumes inb: "\<forall>e \<in> set L. op e = OP_INPUT \<longrightarrow> arg_i0 e < length isz \<and> arg_i1 e < isz ! arg_i0 e"
      and s1: "map length s1 = isz" and s2: "map length s2 = isz"
  shows "\<exists>wa sa sb na.
        fold (adj_dir_step tape seed) L (w, s1, n) = (wa, sa, na)
        \<and> fold (adj_dir_step tape seed) L (w, s2, n) = (wa, sb, na)
        \<and> map length sa = isz \<and> map length sb = isz
        \<and> (\<forall>i < length isz. \<forall>j < isz ! i.
              (s1 ! i ! j = s2 ! i ! j \<or> (\<exists>e \<in> set L. op e = OP_INPUT \<and> arg_i0 e = i \<and> arg_i1 e = j))
              \<longrightarrow> sa ! i ! j = sb ! i ! j)"
  using inb s1 s2
proof (induction L arbitrary: w s1 s2 n)
  case Nil
  then show ?case by simp
next
  case (Cons e L)
  have inbL: "\<forall>e \<in> set L. op e = OP_INPUT \<longrightarrow> arg_i0 e < length isz \<and> arg_i1 e < isz ! arg_i0 e"
    using Cons.prems(1) by simp
  obtain w' t1 t2 n' where
    st1: "adj_dir_step tape seed e (w, s1, n) = (w', t1, n')"
    and st2: "adj_dir_step tape seed e (w, s2, n) = (w', t2, n')"
    and sh1: "map length t1 = isz" and sh2: "map length t2 = isz"
    and ag: "\<forall>i < length isz. \<forall>j < isz ! i.
              (s1 ! i ! j = s2 ! i ! j \<or> (op e = OP_INPUT \<and> arg_i0 e = i \<and> arg_i1 e = j))
              \<longrightarrow> t1 ! i ! j = t2 ! i ! j"
  proof (cases "op e = OP_INPUT")
    case True
    have b: "arg_i0 e < length isz" "arg_i1 e < isz ! arg_i0 e" using Cons.prems(1) True by simp_all
    have in1: "arg_i0 e < length s1 \<and> arg_i1 e < length (s1 ! arg_i0 e)"
      using shape_nth [OF Cons.prems(2) b(1)] b by simp
    have in2: "arg_i0 e < length s2 \<and> arg_i1 e < length (s2 ! arg_i0 e)"
      using shape_nth [OF Cons.prems(3) b(1)] b by simp
    have "\<forall>i < length isz. \<forall>j < isz ! i.
              (s1 ! i ! j = s2 ! i ! j \<or> (op e = OP_INPUT \<and> arg_i0 e = i \<and> arg_i1 e = j))
              \<longrightarrow> upd2 s1 (arg_i0 e) (arg_i1 e) (w ! res e) ! i ! j
                  = upd2 s2 (arg_i0 e) (arg_i1 e) (w ! res e) ! i ! j"
      using in1 in2 by (auto simp add: upd2_nth)
    then show ?thesis
      using that [of "w[res e := 0]" "upd2 s1 (arg_i0 e) (arg_i1 e) (w ! res e)" n
                     "upd2 s2 (arg_i0 e) (arg_i1 e) (w ! res e)"]
        adj_dir_step_input [OF True] Cons.prems(2,3) by simp
  next
    case False
    obtain w' n' where "\<forall>s. adj_dir_step tape seed e (w, s, n) = (w', s, n')"
      using adj_dir_step_other [OF False] by blast
    then show ?thesis using that [of w' s1 n' s2] Cons.prems(2,3) False by simp
  qed
  obtain wa sa sb na where
    ra: "fold (adj_dir_step tape seed) L (w', t1, n') = (wa, sa, na)"
    and rb: "fold (adj_dir_step tape seed) L (w', t2, n') = (wa, sb, na)"
    and sha: "map length sa = isz" and shb: "map length sb = isz"
    and ag2: "\<forall>i < length isz. \<forall>j < isz ! i.
              (t1 ! i ! j = t2 ! i ! j \<or> (\<exists>e \<in> set L. op e = OP_INPUT \<and> arg_i0 e = i \<and> arg_i1 e = j))
              \<longrightarrow> sa ! i ! j = sb ! i ! j"
    using Cons.IH [OF inbL sh1 sh2, of w' n'] by blast
  have "\<forall>i < length isz. \<forall>j < isz ! i.
              (s1 ! i ! j = s2 ! i ! j \<or> (\<exists>e' \<in> set (e # L). op e' = OP_INPUT \<and> arg_i0 e' = i \<and> arg_i1 e' = j))
              \<longrightarrow> sa ! i ! j = sb ! i ! j"
  proof (intro allI impI)
    fix i j assume i: "i < length isz" and j: "j < isz ! i"
      and h: "s1 ! i ! j = s2 ! i ! j \<or> (\<exists>e' \<in> set (e # L). op e' = OP_INPUT \<and> arg_i0 e' = i \<and> arg_i1 e' = j)"
    have "t1 ! i ! j = t2 ! i ! j \<or> (\<exists>e \<in> set L. op e = OP_INPUT \<and> arg_i0 e = i \<and> arg_i1 e = j)"
      using h ag i j by auto
    then show "sa ! i ! j = sb ! i ! j" using ag2 i j by blast
  qed
  then show ?case using ra rb sha shb st1 st2 by simp
qed

lemma list_update_zero_id:
  fixes w :: "'a::zero list"
  assumes "\<forall>s < length w. w ! s = 0"
  shows "w[k := 0] = w"
proof (cases "k < length w")
  case True
  then have "w ! k = 0" using assms by blast
  then show ?thesis using list_update_id [of w k] by simp
qed (simp add: list_update_beyond)

lemma getOp_not_input: "getOp nd \<noteq> OP_INPUT"
  by (cases nd) simp_all

lemma input_fold_marks:
  fixes alg :: "'a SXAlgEl list"
  assumes d: "distinct (map (\<lambda>l. snd (snd l)) L)"
      and pos: "\<forall>l \<in> set L. temp (snd (snd l)) \<ge> 1 \<and> nat (temp (snd (snd l)) - 1) < length alg"
      and inj: "inj_on (\<lambda>n. nat (temp n - 1)) ((\<lambda>l. snd (snd l)) ` set L)"
  shows "\<exists>alg' temp'. fold input_step L (alg, temp) = (alg', temp')
           \<and> length alg' = length alg
           \<and> (\<forall>l \<in> set L. alg' ! nat (temp (snd (snd l)) - 1)
                 = (alg ! nat (temp (snd (snd l)) - 1))\<lparr>op := OP_INPUT, arg_i0 := fst l, arg_i1 := fst (snd l)\<rparr>)
           \<and> (\<forall>p. p \<notin> (\<lambda>l. nat (temp (snd (snd l)) - 1)) ` set L \<longrightarrow> alg' ! p = alg ! p)"
  using d pos inj
proof (induction L arbitrary: alg temp)
  case Nil
  then show ?case by simp
next
  case (Cons l L)
  obtain i z n where l: "l = (i, z, n)" by (cases l)
  let ?P = "\<lambda>m. nat (temp m - 1)"
  let ?alg1 = "alg[?P n := (alg ! ?P n)\<lparr>op := OP_INPUT, arg_i0 := i, arg_i1 := z\<rparr>]"
  let ?temp1 = "temp(n := 0)"
  have tn: "temp n \<ge> 1" and pn: "?P n < length alg" using Cons.prems(2) l by simp_all
  have st: "input_step l (alg, temp) = (?alg1, ?temp1)"
    using tn by (simp add: input_step_def l Let_def)
  have nn: "\<forall>l' \<in> set L. snd (snd l') \<noteq> n" using Cons.prems(1) l by auto
  have t1: "\<forall>l' \<in> set L. ?temp1 (snd (snd l')) = temp (snd (snd l'))" using nn by simp
  have d1: "distinct (map (\<lambda>l. snd (snd l)) L)" using Cons.prems(1) by simp
  have pos1: "\<forall>l' \<in> set L. ?temp1 (snd (snd l')) \<ge> 1 \<and> nat (?temp1 (snd (snd l')) - 1) < length ?alg1"
    using Cons.prems(2) nn by simp
  have inj0: "inj_on ?P ((\<lambda>l. snd (snd l)) ` set L)"
    using Cons.prems(3) by (rule inj_on_subset) auto
  have inj1: "inj_on (\<lambda>m. nat (?temp1 m - 1)) ((\<lambda>l. snd (snd l)) ` set L)"
  proof (rule inj_onI)
    fix a b assume a: "a \<in> (\<lambda>l. snd (snd l)) ` set L" and b: "b \<in> (\<lambda>l. snd (snd l)) ` set L"
      and e: "nat (?temp1 a - 1) = nat (?temp1 b - 1)"
    have "a \<noteq> n" "b \<noteq> n" using a b nn by auto
    then have "?P a = ?P b" using e by simp
    then show "a = b" using inj0 a b by (meson inj_onD)
  qed
  obtain alg' temp' where
    r: "fold input_step L (?alg1, ?temp1) = (alg', temp')"
    and len: "length alg' = length ?alg1"
    and upd: "\<forall>l' \<in> set L. alg' ! nat (?temp1 (snd (snd l')) - 1)
                 = (?alg1 ! nat (?temp1 (snd (snd l')) - 1))\<lparr>op := OP_INPUT, arg_i0 := fst l', arg_i1 := fst (snd l')\<rparr>"
    and frame: "\<forall>p. p \<notin> (\<lambda>l'. nat (?temp1 (snd (snd l')) - 1)) ` set L \<longrightarrow> alg' ! p = ?alg1 ! p"
    using Cons.IH [OF d1 pos1 inj1] by blast
  have other: "\<forall>l' \<in> set L. ?P (snd (snd l')) \<noteq> ?P n"
  proof
    fix l' assume l': "l' \<in> set L"
    show "?P (snd (snd l')) \<noteq> ?P n"
    proof
      assume e: "?P (snd (snd l')) = ?P n"
      have "snd (snd l') \<in> (\<lambda>l. snd (snd l)) ` set (l # L)" using l' by simp
      moreover have "n \<in> (\<lambda>l. snd (snd l)) ` set (l # L)" using l by simp
      ultimately have "snd (snd l') = n" using Cons.prems(3) e by (meson inj_onD)
      then show False using nn l' by blast
    qed
  qed
  have img: "(\<lambda>l'. nat (?temp1 (snd (snd l')) - 1)) ` set L = (\<lambda>l'. ?P (snd (snd l'))) ` set L"
    using t1 by (intro image_cong) simp_all
  have head: "alg' ! ?P n = (alg ! ?P n)\<lparr>op := OP_INPUT, arg_i0 := i, arg_i1 := z\<rparr>"
  proof -
    have "?P n \<notin> (\<lambda>l'. ?P (snd (snd l'))) ` set L" using other by auto
    then have "alg' ! ?P n = ?alg1 ! ?P n" using frame img by simp
    then show ?thesis using pn by simp
  qed
  have tail: "\<forall>l' \<in> set L. alg' ! ?P (snd (snd l'))
                 = (alg ! ?P (snd (snd l')))\<lparr>op := OP_INPUT, arg_i0 := fst l', arg_i1 := fst (snd l')\<rparr>"
  proof
    fix l' assume l': "l' \<in> set L"
    have "alg' ! nat (?temp1 (snd (snd l')) - 1)
                 = (?alg1 ! nat (?temp1 (snd (snd l')) - 1))\<lparr>op := OP_INPUT, arg_i0 := fst l', arg_i1 := fst (snd l')\<rparr>"
      using upd l' by blast
    moreover have "?temp1 (snd (snd l')) = temp (snd (snd l'))" using t1 l' by blast
    moreover have "?alg1 ! ?P (snd (snd l')) = alg ! ?P (snd (snd l'))"
    proof -
      have "?P (snd (snd l')) \<noteq> ?P n" using other l' by blast
      then show ?thesis by (simp add: nth_upd)
    qed
    ultimately show "alg' ! ?P (snd (snd l'))
                 = (alg ! ?P (snd (snd l')))\<lparr>op := OP_INPUT, arg_i0 := fst l', arg_i1 := fst (snd l')\<rparr>"
      by simp
  qed
  have fr: "\<forall>p. p \<notin> (\<lambda>l'. ?P (snd (snd l'))) ` set (l # L) \<longrightarrow> alg' ! p = alg ! p"
  proof (intro allI impI)
    fix p assume p: "p \<notin> (\<lambda>l'. ?P (snd (snd l'))) ` set (l # L)"
    then have p1: "p \<noteq> ?P n" and p2: "p \<notin> (\<lambda>l'. ?P (snd (snd l'))) ` set L" using l by auto
    have "alg' ! p = ?alg1 ! p" using frame img p2 by simp
    then show "alg' ! p = alg ! p" using p1 by (simp add: nth_upd)
  qed
  have "fold input_step (l # L) (alg, temp) = (alg', temp')" using st r by simp
  moreover have "length alg' = length alg" using len by simp
  moreover have "\<forall>l' \<in> set (l # L). alg' ! ?P (snd (snd l'))
                 = (alg ! ?P (snd (snd l')))\<lparr>op := OP_INPUT, arg_i0 := fst l', arg_i1 := fst (snd l')\<rparr>"
    using head tail l by simp
  ultimately show ?case using fr by blast
qed

lemma located_set0:
  "l \<in> set (located 0 rows)
     \<longleftrightarrow> fst l < length rows \<and> fst (snd l) < length (rows ! fst l) \<and> snd (snd l) = rows ! fst l ! fst (snd l)"
  using located_set [of "fst l" "fst (snd l)" "snd (snd l)" 0 rows] by simp

lemma located_nodes_snd: "map (\<lambda>l. snd (snd l)) (located ind rows) = concat rows"
proof -
  have "(\<lambda>l. snd (snd l)) = (\<lambda>(i :: nat, z :: nat, n :: nat). n)" by (simp add: fun_eq_iff)
  then show ?thesis using located_nodes [of ind rows] by simp
qed

lemma build_inputs_ok:
  fixes g :: "'a::zero graph"
  assumes fok: "function_ok g inputv outputv"
      and memi: "\<forall>x \<in> set (concat inputv). Some x \<in> set nodes"
      and bi: "build_inv g outputv nodes nodes bs"
      and ai: "alloc_inv (bs_algorithm bs) (length (bs_algorithm bs)) alg1 st"
      and ii: "input_instructions 0 inputv (alg1, temp3) = (alg2, temp4)"
      and t3: "\<forall>i n. (i, n) \<in> set (bs_symb_loc bs) \<longrightarrow> temp3 n = int i + 1"
  shows "inputs_ok alg2 (map length inputv)"
proof -
  let ?L = "located 0 inputv"
  let ?P = "\<lambda>n. nat (temp3 n - 1)"
  let ?alg0 = "bs_algorithm bs"
  have inp: "\<forall>x \<in> set (concat inputv). x < length g \<and> isSymbolic (g ! x)"
    and dinp: "distinct (concat inputv)"
    using fok unfolding function_ok_def by (simp_all add: list_all_iff)
  have len0: "length ?alg0 = length nodes"
    and ins: "\<forall>p < length nodes. instr_ok g outputv nodes p (?alg0 ! p)"
    and s2: "\<forall>p < length nodes. \<forall>n. nodes ! p = Some n \<and> isSymbolic (g ! n)
               \<longrightarrow> (p, n) \<in> set (bs_symb_loc bs)"
    using bi unfolding build_inv_def by blast+
  have len1: "length alg1 = length nodes"
    and a_op: "\<forall>q < length nodes. op (alg1 ! q) = op (?alg0 ! q)"
    using ai len0 unfolding alloc_inv_def by simp_all
  have loc: "\<And>x. x \<in> set (concat inputv) \<Longrightarrow> \<exists>p < length nodes. nodes ! p = Some x \<and> temp3 x = int p + 1"
  proof -
    fix x assume x: "x \<in> set (concat inputv)"
    then have "Some x \<in> set nodes" using memi by blast
    then obtain p where p: "p < length nodes" "nodes ! p = Some x" by (auto simp: in_set_conv_nth)
    have "isSymbolic (g ! x)" using inp x by blast
    then have "(p, x) \<in> set (bs_symb_loc bs)" using s2 p by blast
    then have "temp3 x = int p + 1" using t3 by blast
    then show "\<exists>p < length nodes. nodes ! p = Some x \<and> temp3 x = int p + 1" using p by blast
  qed
  have nd: "(\<lambda>l. snd (snd l)) ` set ?L = set (concat inputv)"
    using located_nodes_snd [of 0 inputv] by (metis set_map)
  have d: "distinct (map (\<lambda>l. snd (snd l)) ?L)" using dinp by (simp add: located_nodes_snd)
  have pos: "\<forall>l \<in> set ?L. temp3 (snd (snd l)) \<ge> 1 \<and> ?P (snd (snd l)) < length alg1"
  proof
    fix l assume "l \<in> set ?L"
    then have "snd (snd l) \<in> set (concat inputv)" using nd by blast
    then obtain p where "p < length nodes" "temp3 (snd (snd l)) = int p + 1" using loc by blast
    then show "temp3 (snd (snd l)) \<ge> 1 \<and> ?P (snd (snd l)) < length alg1" using len1 by simp
  qed
  have inj: "inj_on ?P ((\<lambda>l. snd (snd l)) ` set ?L)"
    unfolding nd
  proof (rule inj_onI)
    fix x y assume x: "x \<in> set (concat inputv)" and y: "y \<in> set (concat inputv)" and e: "?P x = ?P y"
    obtain p where p: "nodes ! p = Some x" "temp3 x = int p + 1" using loc [OF x] by blast
    obtain q where q: "nodes ! q = Some y" "temp3 y = int q + 1" using loc [OF y] by blast
    have "p = q" using e p(2) q(2) by simp
    then show "x = y" using p(1) q(1) by simp
  qed
  obtain alg' temp' where
    r: "fold input_step ?L (alg1, temp3) = (alg', temp')"
    and len: "length alg' = length alg1"
    and upd: "\<forall>l \<in> set ?L. alg' ! ?P (snd (snd l))
                 = (alg1 ! ?P (snd (snd l)))\<lparr>op := OP_INPUT, arg_i0 := fst l, arg_i1 := fst (snd l)\<rparr>"
    and frame: "\<forall>p. p \<notin> (\<lambda>l. ?P (snd (snd l))) ` set ?L \<longrightarrow> alg' ! p = alg1 ! p"
    using input_fold_marks [OF d pos inj] by blast
  have a2: "alg' = alg2" using r ii by (simp add: input_instructions_fold)
  have noinp: "\<forall>p < length alg1. op (alg1 ! p) \<noteq> OP_INPUT"
  proof (intro allI impI)
    fix p assume "p < length alg1"
    then have p: "p < length nodes" using len1 by simp
    have io: "instr_ok g outputv nodes p (?alg0 ! p)" using ins p by blast
    have "op (?alg0 ! p) \<noteq> OP_INPUT"
    proof (cases "nodes ! p")
      case None
      then show ?thesis using io unfolding instr_ok_def by simp
    next
      case (Some n)
      then show ?thesis using io getOp_not_input [of "g ! n"] unfolding instr_ok_def by simp
    qed
    then show "op (alg1 ! p) \<noteq> OP_INPUT" using a_op p by simp
  qed
  have charac: "\<And>p. p < length alg2 \<Longrightarrow> op (alg2 ! p) = OP_INPUT \<Longrightarrow>
                  \<exists>l \<in> set ?L. p = ?P (snd (snd l)) \<and> arg_i0 (alg2 ! p) = fst l \<and> arg_i1 (alg2 ! p) = fst (snd l)"
  proof -
    fix p assume p: "p < length alg2" and o: "op (alg2 ! p) = OP_INPUT"
    have "p \<in> (\<lambda>l. ?P (snd (snd l))) ` set ?L"
    proof (rule ccontr)
      assume "p \<notin> (\<lambda>l. ?P (snd (snd l))) ` set ?L"
      then have "alg2 ! p = alg1 ! p" using frame a2 by blast
      then show False using noinp p o len a2 by simp
    qed
    then obtain l where l: "l \<in> set ?L" "p = ?P (snd (snd l))" by blast
    have "alg2 ! p = (alg1 ! p)\<lparr>op := OP_INPUT, arg_i0 := fst l, arg_i1 := fst (snd l)\<rparr>"
      using upd l a2 by simp
    then have "arg_i0 (alg2 ! p) = fst l \<and> arg_i1 (alg2 ! p) = fst (snd l)" by simp
    then show "\<exists>l \<in> set ?L. p = ?P (snd (snd l)) \<and> arg_i0 (alg2 ! p) = fst l \<and> arg_i1 (alg2 ! p) = fst (snd l)"
      using l by blast
  qed
  have i1: "\<forall>p < length alg2. op (alg2 ! p) = OP_INPUT \<longrightarrow>
         arg_i0 (alg2 ! p) < length (map length inputv)
         \<and> arg_i1 (alg2 ! p) < map length inputv ! arg_i0 (alg2 ! p)"
  proof (intro allI impI)
    fix p assume p: "p < length alg2" and o: "op (alg2 ! p) = OP_INPUT"
    obtain l where l: "l \<in> set ?L" "arg_i0 (alg2 ! p) = fst l" "arg_i1 (alg2 ! p) = fst (snd l)"
      using charac [OF p o] by blast
    have "fst l < length inputv \<and> fst (snd l) < length (inputv ! fst l)"
      using l(1) located_set0 by blast
    then show "arg_i0 (alg2 ! p) < length (map length inputv)
         \<and> arg_i1 (alg2 ! p) < map length inputv ! arg_i0 (alg2 ! p)" using l by simp
  qed
  have i2: "\<forall>p < length alg2. \<forall>q < length alg2.
            op (alg2 ! p) = OP_INPUT \<and> op (alg2 ! q) = OP_INPUT
            \<and> arg_i0 (alg2 ! p) = arg_i0 (alg2 ! q) \<and> arg_i1 (alg2 ! p) = arg_i1 (alg2 ! q) \<longrightarrow> p = q"
  proof (intro allI impI)
    fix p q assume p: "p < length alg2" and q: "q < length alg2"
      and h: "op (alg2 ! p) = OP_INPUT \<and> op (alg2 ! q) = OP_INPUT
            \<and> arg_i0 (alg2 ! p) = arg_i0 (alg2 ! q) \<and> arg_i1 (alg2 ! p) = arg_i1 (alg2 ! q)"
    obtain l where l: "l \<in> set ?L" "p = ?P (snd (snd l))"
        "arg_i0 (alg2 ! p) = fst l" "arg_i1 (alg2 ! p) = fst (snd l)"
      using charac [OF p] h by blast
    obtain l' where l': "l' \<in> set ?L" "q = ?P (snd (snd l'))"
        "arg_i0 (alg2 ! q) = fst l'" "arg_i1 (alg2 ! q) = fst (snd l')"
      using charac [OF q] h by blast
    have "snd (snd l) = inputv ! fst l ! fst (snd l)" using l(1) located_set0 by blast
    moreover have "snd (snd l') = inputv ! fst l' ! fst (snd l')" using l'(1) located_set0 by blast
    ultimately have "snd (snd l) = snd (snd l')" using l(3,4) l'(3,4) h by simp
    then show "p = q" using l(2) l'(2) by simp
  qed
  have i3: "\<forall>ind < length (map length inputv). \<forall>nz < map length inputv ! ind.
            \<exists>p < length alg2. op (alg2 ! p) = OP_INPUT \<and> arg_i0 (alg2 ! p) = ind \<and> arg_i1 (alg2 ! p) = nz"
  proof (intro allI impI)
    fix ind nz assume "ind < length (map length inputv)" and "nz < map length inputv ! ind"
    then have il: "ind < length inputv" and nl: "nz < length (inputv ! ind)" by simp_all
    let ?l = "(ind, nz, inputv ! ind ! nz)"
    have m: "?l \<in> set ?L" using il nl by (simp add: located_set0)
    have e: "alg2 ! ?P (snd (snd ?l))
                 = (alg1 ! ?P (snd (snd ?l)))\<lparr>op := OP_INPUT, arg_i0 := fst ?l, arg_i1 := fst (snd ?l)\<rparr>"
      using upd m a2 by blast
    have "?P (snd (snd ?l)) < length alg1" using pos m by (meson bspec)
    then have "?P (snd (snd ?l)) < length alg2" using len a2 by simp
    then show "\<exists>p < length alg2. op (alg2 ! p) = OP_INPUT \<and> arg_i0 (alg2 ! p) = ind \<and> arg_i1 (alg2 ! p) = nz"
      using e by (intro exI [of _ "?P (snd (snd ?l))"]) simp
  qed
  show ?thesis unfolding inputs_ok_def using i1 i2 i3 by blast
qed

text \<open>The algorithm of a declared function, as the sweeps need it.\<close>

lemma init_sweeps_ok:
  fixes g :: "'a::zero graph"
  assumes fok: "function_ok g inputv outputv" and t0: "\<forall>n < length g. temp0 n = 0"
  shows "\<exists>f. init g inputv outputv live temp0 = Some f
            \<and> alg_wf (algorithm f) (worksize f)
            \<and> (free_vars f = [] \<longrightarrow> (\<forall>p < length (algorithm f). op (algorithm f ! p) \<noteq> OP_PARAMETER))
            \<and> outputs_ok (algorithm f) (map length outputv)
            \<and> inputs_ok (algorithm f) (map length inputv)"
proof -
  obtain nodes temp2 bs alg1 st alg2 temp4 fv temp5 where
    nok: "nodes_ok g nodes"
    and opl: "outputs_placed nodes (concat outputv)"
    and memo: "\<forall>x \<in> set (concat outputv). Some x \<in> set nodes"
    and memi: "\<forall>x \<in> set (concat inputv). Some x \<in> set nodes"
    and tp: "temp_pos nodes temp2"
    and bi: "build_inv g outputv nodes nodes bs"
    and pos: "pos_ok (bs_algorithm bs)"
    and ai: "alloc_inv (bs_algorithm bs) (length (bs_algorithm bs)) alg1 st"
    and slok: "symb_loc_ok (bs_symb_loc bs) alg1"
    and mi: "mark_inv (length g) (bs_symb_loc bs) alg1 alg2 temp4"
    and ii: "input_instructions 0 inputv
       (alg1, mark_symb_loc (bs_symb_loc bs) (reset_temp nodes temp2)) = (alg2, temp4)"
    and t3: "\<forall>i n. (i, n) \<in> set (bs_symb_loc bs)
       \<longrightarrow> mark_symb_loc (bs_symb_loc bs) (reset_temp nodes temp2) n = int i + 1"
    and lf: "locate_free (bs_symb_loc bs) ([], temp4) = (fv, temp5)"
    and res: "init g inputv outputv live temp0 =
       Some \<lparr>algorithm = alg2, worksize = as_worksize st, free_vars = fv,
             constants = filter (\<lambda>n. isConstant (g ! n)) (nodes_of nodes),
             operations = filter (\<lambda>n. \<not> isConstant (g ! n) \<and> \<not> isSymbolic (g ! n)) (nodes_of nodes),
             temp_after = temp5\<rparr>"
    by (rule init_run [OF fok t0])
  have oo: "outputs_ok alg2 (map length outputv)" using opl bi ai mi by (rule build_outputs_ok)
  have io: "inputs_ok alg2 (map length inputv)" using fok memi bi ai ii t3 by (rule build_inputs_ok)
  obtain f where f: "init g inputv outputv live temp0 = Some f"
    and w: "alg_wf (algorithm f) (worksize f)"
    and np: "free_vars f = [] \<longrightarrow> (\<forall>p < length (algorithm f). op (algorithm f ! p) \<noteq> OP_PARAMETER)"
    using init_alg_wf [OF fok t0, of live] by blast
  have "algorithm f = alg2" using f res by auto
  then show ?thesis using f w np oo io by simp
qed

lemma fwd_sweep_fields:
  fixes alg :: "'a::{zero,plus,times} SXAlgEl list"
  assumes w: "alg_wf alg ws" and nopar: "\<forall>p < length alg. op (alg ! p) \<noteq> OP_PARAMETER"
      and o: "outputs_ok alg osz"
      and d: "dir < length (fwdSens st)" and l: "length (work st) = ws"
      and sh: "map length (fwdSens st ! dir) = osz"
  shows "fwdSens (fwd_sweep alg dir st)
           = (fwdSens st)[dir := fwd_sens_of alg ws osz (pdwork st) (fwdSeed st ! dir)]"
    and "length (work (fwd_sweep alg dir st)) = ws"
    and "pdwork (fwd_sweep alg dir st) = pdwork st"
    and "fwdSeed (fwd_sweep alg dir st) = fwdSeed st"
    and "adjSeed (fwd_sweep alg dir st) = adjSeed st"
    and "adjSens (fwd_sweep alg dir st) = adjSens st"
    and "input_data (fwd_sweep alg dir st) = input_data st"
    and "output_data (fwd_sweep alg dir st) = output_data st"
proof -
  let ?f = "fwd_dir_step (pdwork st) (fwdSeed st ! dir)"
  obtain wa sa na where r: "fold ?f alg (work st, fwdSens st ! dir, 0) = (wa, sa, na)"
    by (cases "fold ?f alg (work st, fwdSens st ! dir, 0)")
  have e: "fwd_sweep alg dir st = st\<lparr>work := wa, fwdSens := (fwdSens st)[dir := sa]\<rparr>"
    using fwd_fold_proj [OF d, of alg 0] r by (simp add: fwd_sweep_def)
  have l0: "length (replicate ws (0::'a)) = ws" by simp
  have "fst (snd (fold ?f alg (work st, fwdSens st ! dir, 0)))
        = fst (snd (fold ?f alg (replicate ws 0, zero_bundle osz, 0)))"
    using w nopar o l l0 sh zero_bundle_shape by (rule fwd_dir_determined(1))
  then have sa: "sa = fwd_sens_of alg ws osz (pdwork st) (fwdSeed st ! dir)"
    using r by (simp add: fwd_sens_of_def)
  have "length (fst (fold ?f alg (work st, fwdSens st ! dir, 0))) = ws"
    using w nopar o l l0 sh zero_bundle_shape by (rule fwd_dir_determined(2))
  then have la: "length wa = ws" using r by simp
  show "fwdSens (fwd_sweep alg dir st)
           = (fwdSens st)[dir := fwd_sens_of alg ws osz (pdwork st) (fwdSeed st ! dir)]"
    using e sa by simp
  show "length (work (fwd_sweep alg dir st)) = ws" using e la by simp
  show "pdwork (fwd_sweep alg dir st) = pdwork st" using e by simp
  show "fwdSeed (fwd_sweep alg dir st) = fwdSeed st" using e by simp
  show "adjSeed (fwd_sweep alg dir st) = adjSeed st" using e by simp
  show "adjSens (fwd_sweep alg dir st) = adjSens st" using e by simp
  show "input_data (fwd_sweep alg dir st) = input_data st" using e by simp
  show "output_data (fwd_sweep alg dir st) = output_data st" using e by simp
qed

lemma fwd_sens_of_shape:
  fixes alg :: "'a::{zero,plus,times} SXAlgEl list"
  assumes w: "alg_wf alg ws" and nopar: "\<forall>p < length alg. op (alg ! p) \<noteq> OP_PARAMETER"
      and o: "outputs_ok alg osz"
  shows "map length (fwd_sens_of alg ws osz tape seed) = osz"
proof -
  have l0: "length (replicate ws (0::'a)) = ws" by simp
  show ?thesis unfolding fwd_sens_of_def
    using w nopar o l0 l0 zero_bundle_shape zero_bundle_shape by (rule fwd_dir_determined(3))
qed

lemma map_upd_dirs:
  assumes "n < len"
  shows "(map (\<lambda>d. if d < n then F d else G d) [0 ..< len])[n := F n]
         = map (\<lambda>d. if d < Suc n then F d else G d) [0 ..< len]"
proof (rule nth_equalityI)
  show "length ((map (\<lambda>d. if d < n then F d else G d) [0 ..< len])[n := F n])
        = length (map (\<lambda>d. if d < Suc n then F d else G d) [0 ..< len])" by simp
  fix i assume "i < length ((map (\<lambda>d. if d < n then F d else G d) [0 ..< len])[n := F n])"
  then have i: "i < len" by simp
  show "(map (\<lambda>d. if d < n then F d else G d) [0 ..< len])[n := F n] ! i
        = map (\<lambda>d. if d < Suc n then F d else G d) [0 ..< len] ! i"
    using i assms by (cases "i = n") (auto simp: nth_upd)
qed

lemma fwd_sweeps_fields:
  fixes alg :: "'a::{zero,plus,times} SXAlgEl list"
  assumes w: "alg_wf alg ws" and nopar: "\<forall>p < length alg. op (alg ! p) \<noteq> OP_PARAMETER"
      and o: "outputs_ok alg osz"
      and l: "length (work st) = ws"
  shows "n \<le> length (fwdSens st) \<Longrightarrow> \<forall>d < n. map length (fwdSens st ! d) = osz \<Longrightarrow>
         fwdSens (fold (fwd_sweep alg) [0 ..< n] st)
           = map (\<lambda>d. if d < n then fwd_sens_of alg ws osz (pdwork st) (fwdSeed st ! d)
                       else fwdSens st ! d) [0 ..< length (fwdSens st)]
         \<and> length (work (fold (fwd_sweep alg) [0 ..< n] st)) = ws
         \<and> pdwork (fold (fwd_sweep alg) [0 ..< n] st) = pdwork st
         \<and> fwdSeed (fold (fwd_sweep alg) [0 ..< n] st) = fwdSeed st
         \<and> adjSeed (fold (fwd_sweep alg) [0 ..< n] st) = adjSeed st
         \<and> adjSens (fold (fwd_sweep alg) [0 ..< n] st) = adjSens st
         \<and> input_data (fold (fwd_sweep alg) [0 ..< n] st) = input_data st
         \<and> output_data (fold (fwd_sweep alg) [0 ..< n] st) = output_data st"
proof (induction n)
  case 0
  then show ?case using l by (simp add: map_nth)
next
  case (Suc n)
  let ?st = "fold (fwd_sweep alg) [0 ..< n] st"
  let ?F = "\<lambda>d. fwd_sens_of alg ws osz (pdwork st) (fwdSeed st ! d)"
  have nl: "n < length (fwdSens st)" using Suc.prems(1) by simp
  have ih: "fwdSens ?st = map (\<lambda>d. if d < n then ?F d else fwdSens st ! d) [0 ..< length (fwdSens st)]"
    and ihw: "length (work ?st) = ws"
    and ihp: "pdwork ?st = pdwork st" and ihs: "fwdSeed ?st = fwdSeed st"
    and iha: "adjSeed ?st = adjSeed st" and ihb: "adjSens ?st = adjSens st"
    and ihi: "input_data ?st = input_data st" and iho: "output_data ?st = output_data st"
    using Suc.IH Suc.prems by simp_all
  have d: "n < length (fwdSens ?st)" using ih nl by simp
  have "fwdSens ?st ! n = fwdSens st ! n" using ih nl by simp
  then have sh: "map length (fwdSens ?st ! n) = osz" using Suc.prems(2) by simp
  have e: "fold (fwd_sweep alg) [0 ..< Suc n] st = fwd_sweep alg n ?st" by simp
  have "fwdSens (fwd_sweep alg n ?st)
        = (fwdSens ?st)[n := fwd_sens_of alg ws osz (pdwork ?st) (fwdSeed ?st ! n)]"
    using w nopar o d ihw sh by (rule fwd_sweep_fields(1))
  then have "fwdSens (fwd_sweep alg n ?st)
        = (map (\<lambda>d. if d < n then ?F d else fwdSens st ! d) [0 ..< length (fwdSens st)])[n := ?F n]"
    using ih ihp ihs by simp
  then have c1: "fwdSens (fwd_sweep alg n ?st)
        = map (\<lambda>d. if d < Suc n then ?F d else fwdSens st ! d) [0 ..< length (fwdSens st)]"
    using map_upd_dirs [OF nl, of ?F "\<lambda>d. fwdSens st ! d"] by simp
  have c2: "length (work (fwd_sweep alg n ?st)) = ws"
    using w nopar o d ihw sh by (rule fwd_sweep_fields(2))
  have c3: "pdwork (fwd_sweep alg n ?st) = pdwork st"
    using fwd_sweep_fields(3) [OF w nopar o d ihw sh] ihp by simp
  have c4: "fwdSeed (fwd_sweep alg n ?st) = fwdSeed st"
    using fwd_sweep_fields(4) [OF w nopar o d ihw sh] ihs by simp
  have c5: "adjSeed (fwd_sweep alg n ?st) = adjSeed st"
    using fwd_sweep_fields(5) [OF w nopar o d ihw sh] iha by simp
  have c6: "adjSens (fwd_sweep alg n ?st) = adjSens st"
    using fwd_sweep_fields(6) [OF w nopar o d ihw sh] ihb by simp
  have c7: "input_data (fwd_sweep alg n ?st) = input_data st"
    using fwd_sweep_fields(7) [OF w nopar o d ihw sh] ihi by simp
  have c8: "output_data (fwd_sweep alg n ?st) = output_data st"
    using fwd_sweep_fields(8) [OF w nopar o d ihw sh] iho by simp
  show ?case unfolding e using c1 c2 c3 c4 c5 c6 c7 c8 by blast
qed

lemma adj_sweep_fields:
  fixes alg :: "'a::{zero,plus,times} SXAlgEl list"
  assumes i: "inputs_ok alg isz"
      and d: "dir < length (adjSens st)" and l: "length (work st) = ws"
      and z: "\<forall>s < ws. work st ! s = 0"
      and sh: "map length (adjSens st ! dir) = isz"
  shows "adjSens (adj_sweep alg dir st)
           = (adjSens st)[dir := adj_sens_of alg ws isz (pdwork st) (adjSeed st ! dir)]"
    and "pdwork (adj_sweep alg dir st) = pdwork st"
    and "fwdSeed (adj_sweep alg dir st) = fwdSeed st"
    and "adjSeed (adj_sweep alg dir st) = adjSeed st"
    and "fwdSens (adj_sweep alg dir st) = fwdSens st"
    and "input_data (adj_sweep alg dir st) = input_data st"
    and "output_data (adj_sweep alg dir st) = output_data st"
proof -
  let ?f = "adj_dir_step (pdwork st) (adjSeed st ! dir)"
  have w0: "work st = replicate ws 0" using l z by (intro nth_equalityI) simp_all
  have inb: "\<forall>e \<in> set (rev alg). op e = OP_INPUT \<longrightarrow> arg_i0 e < length isz \<and> arg_i1 e < isz ! arg_i0 e"
  proof (intro ballI impI)
    fix e assume "e \<in> set (rev alg)" and oe: "op e = OP_INPUT"
    then obtain p where p: "p < length alg" "alg ! p = e" by (auto simp: in_set_conv_nth)
    show "arg_i0 e < length isz \<and> arg_i1 e < isz ! arg_i0 e"
      using inputs_okD [OF i p(1)] oe p(2) by simp
  qed
  obtain wa sa sb na where
    ra: "fold ?f (rev alg) (work st, adjSens st ! dir, 0) = (wa, sa, na)"
    and rb: "fold ?f (rev alg) (work st, zero_bundle isz, 0) = (wa, sb, na)"
    and sha: "map length sa = isz" and shb: "map length sb = isz"
    and ag: "\<forall>i < length isz. \<forall>j < isz ! i.
              (adjSens st ! dir ! i ! j = zero_bundle isz ! i ! j
                \<or> (\<exists>e \<in> set (rev alg). op e = OP_INPUT \<and> arg_i0 e = i \<and> arg_i1 e = j))
              \<longrightarrow> sa ! i ! j = sb ! i ! j"
    using adj_dir_agree [OF inb sh zero_bundle_shape, of "pdwork st" "adjSeed st ! dir" "work st" 0]
    by blast
  have "\<forall>i < length isz. \<forall>j < isz ! i. sa ! i ! j = sb ! i ! j"
  proof (intro allI impI)
    fix a b assume a: "a < length isz" and b: "b < isz ! a"
    obtain p where p: "p < length alg" "op (alg ! p) = OP_INPUT" "arg_i0 (alg ! p) = a" "arg_i1 (alg ! p) = b"
      using i a b unfolding inputs_ok_def by blast
    have "alg ! p \<in> set (rev alg)" using p(1) by simp
    then have "\<exists>e \<in> set (rev alg). op e = OP_INPUT \<and> arg_i0 e = a \<and> arg_i1 e = b" using p by blast
    then show "sa ! a ! b = sb ! a ! b" using ag a b by blast
  qed
  then have "sa = sb" using shape_eqI [OF sha shb] by blast
  then have sa: "sa = adj_sens_of alg ws isz (pdwork st) (adjSeed st ! dir)"
    using rb w0 by (simp add: adj_sens_of_def)
  have e: "adj_sweep alg dir st = st\<lparr>work := wa, adjSens := (adjSens st)[dir := sa]\<rparr>"
    using adj_fold_proj [OF d, of "rev alg" 0] ra by (simp add: adj_sweep_def)
  show "adjSens (adj_sweep alg dir st)
           = (adjSens st)[dir := adj_sens_of alg ws isz (pdwork st) (adjSeed st ! dir)]"
    using e sa by simp
  show "pdwork (adj_sweep alg dir st) = pdwork st" using e by simp
  show "fwdSeed (adj_sweep alg dir st) = fwdSeed st" using e by simp
  show "adjSeed (adj_sweep alg dir st) = adjSeed st" using e by simp
  show "fwdSens (adj_sweep alg dir st) = fwdSens st" using e by simp
  show "input_data (adj_sweep alg dir st) = input_data st" using e by simp
  show "output_data (adj_sweep alg dir st) = output_data st" using e by simp
qed

lemma adj_sens_of_shape:
  fixes alg :: "'a::{zero,plus,times} SXAlgEl list"
  assumes i: "inputs_ok alg isz"
  shows "map length (adj_sens_of alg ws isz tape seed) = isz"
proof -
  have inb: "\<forall>e \<in> set (rev alg). op e = OP_INPUT \<longrightarrow> arg_i0 e < length isz \<and> arg_i1 e < isz ! arg_i0 e"
  proof (intro ballI impI)
    fix e assume "e \<in> set (rev alg)" and oe: "op e = OP_INPUT"
    then obtain p where p: "p < length alg" "alg ! p = e" by (auto simp: in_set_conv_nth)
    show "arg_i0 e < length isz \<and> arg_i1 e < isz ! arg_i0 e"
      using inputs_okD [OF i p(1)] oe p(2) by simp
  qed
  obtain wa sa sb na where
    "fold (adj_dir_step tape seed) (rev alg) (replicate ws 0, zero_bundle isz, 0) = (wa, sa, na)"
    "map length sa = isz"
    using adj_dir_agree [OF inb zero_bundle_shape zero_bundle_shape, of tape seed "replicate ws 0" 0]
    by blast
  then show ?thesis by (simp add: adj_sens_of_def)
qed

lemma adj_sweeps_fields:
  fixes alg :: "'a::{zero,plus,times} SXAlgEl list"
  assumes w: "alg_wf alg ws" and nopar: "\<forall>p < length alg. op (alg ! p) \<noteq> OP_PARAMETER"
      and i: "inputs_ok alg isz"
      and l: "length (work st) = ws" and z: "\<forall>s < ws. work st ! s = 0"
  shows "n \<le> length (adjSens st) \<Longrightarrow> \<forall>d < n. map length (adjSens st ! d) = isz \<Longrightarrow>
         adjSens (fold (adj_sweep alg) [0 ..< n] st)
           = map (\<lambda>d. if d < n then adj_sens_of alg ws isz (pdwork st) (adjSeed st ! d)
                       else adjSens st ! d) [0 ..< length (adjSens st)]
         \<and> length (work (fold (adj_sweep alg) [0 ..< n] st)) = ws
         \<and> (\<forall>s < ws. work (fold (adj_sweep alg) [0 ..< n] st) ! s = 0)
         \<and> pdwork (fold (adj_sweep alg) [0 ..< n] st) = pdwork st
         \<and> fwdSeed (fold (adj_sweep alg) [0 ..< n] st) = fwdSeed st
         \<and> adjSeed (fold (adj_sweep alg) [0 ..< n] st) = adjSeed st
         \<and> fwdSens (fold (adj_sweep alg) [0 ..< n] st) = fwdSens st
         \<and> input_data (fold (adj_sweep alg) [0 ..< n] st) = input_data st
         \<and> output_data (fold (adj_sweep alg) [0 ..< n] st) = output_data st"
proof (induction n)
  case 0
  then show ?case using l z by (simp add: map_nth)
next
  case (Suc n)
  let ?st = "fold (adj_sweep alg) [0 ..< n] st"
  let ?F = "\<lambda>d. adj_sens_of alg ws isz (pdwork st) (adjSeed st ! d)"
  have nl: "n < length (adjSens st)" using Suc.prems(1) by simp
  have ih: "adjSens ?st = map (\<lambda>d. if d < n then ?F d else adjSens st ! d) [0 ..< length (adjSens st)]"
    and ihw: "length (work ?st) = ws" and ihz: "\<forall>s < ws. work ?st ! s = 0"
    and ihp: "pdwork ?st = pdwork st" and ihs: "fwdSeed ?st = fwdSeed st"
    and iha: "adjSeed ?st = adjSeed st" and ihb: "fwdSens ?st = fwdSens st"
    and ihi: "input_data ?st = input_data st" and iho: "output_data ?st = output_data st"
    using Suc.IH Suc.prems by simp_all
  have d: "n < length (adjSens ?st)" using ih nl by simp
  have "adjSens ?st ! n = adjSens st ! n" using ih nl by simp
  then have sh: "map length (adjSens ?st ! n) = isz" using Suc.prems(2) by simp
  have e: "fold (adj_sweep alg) [0 ..< Suc n] st = adj_sweep alg n ?st" by simp
  have "adjSens (adj_sweep alg n ?st)
        = (adjSens ?st)[n := adj_sens_of alg ws isz (pdwork ?st) (adjSeed ?st ! n)]"
    using i d ihw ihz sh by (rule adj_sweep_fields(1))
  then have "adjSens (adj_sweep alg n ?st)
        = (map (\<lambda>d. if d < n then ?F d else adjSens st ! d) [0 ..< length (adjSens st)])[n := ?F n]"
    using ih ihp iha by simp
  then have c1: "adjSens (adj_sweep alg n ?st)
        = map (\<lambda>d. if d < Suc n then ?F d else adjSens st ! d) [0 ..< length (adjSens st)]"
    using map_upd_dirs [OF nl, of ?F "\<lambda>d. adjSens st ! d"] by simp
  have c2: "length (work (adj_sweep alg n ?st)) = ws"
    using w nopar ihw by (rule adj_sweep_zero(1))
  have c2z: "\<forall>s < ws. work (adj_sweep alg n ?st) ! s = 0"
    using w nopar ihw by (rule adj_sweep_zero(2))
  have c3: "pdwork (adj_sweep alg n ?st) = pdwork st"
    using adj_sweep_fields(2) [OF i d ihw ihz sh] ihp by simp
  have c4: "fwdSeed (adj_sweep alg n ?st) = fwdSeed st"
    using adj_sweep_fields(3) [OF i d ihw ihz sh] ihs by simp
  have c5: "adjSeed (adj_sweep alg n ?st) = adjSeed st"
    using adj_sweep_fields(4) [OF i d ihw ihz sh] iha by simp
  have c6: "fwdSens (adj_sweep alg n ?st) = fwdSens st"
    using adj_sweep_fields(5) [OF i d ihw ihz sh] ihb by simp
  have c7: "input_data (adj_sweep alg n ?st) = input_data st"
    using adj_sweep_fields(6) [OF i d ihw ihz sh] ihi by simp
  have c8: "output_data (adj_sweep alg n ?st) = output_data st"
    using adj_sweep_fields(7) [OF i d ihw ihz sh] iho by simp
  show ?case unfolding e using c1 c2 c2z c3 c4 c5 c6 c7 c8 by blast
qed

lemma eval_step_frame:
  "fwdSeed (eval_step fcn it st) = fwdSeed st"
  "fwdSens (eval_step fcn it st) = fwdSens st"
  "adjSeed (eval_step fcn it st) = adjSeed st"
  "adjSens (eval_step fcn it st) = adjSens st"
  "input_data (eval_step fcn it st) = input_data st"
  "length (output_data (eval_step fcn it st)) = length (output_data st)"
  "length (work (eval_step fcn it st)) = length (work st)"
  by (cases "op it"; simp add: eval_step_def)+

lemma tape_step_frame:
  "fwdSeed (fst (tape_step fcn der it sti)) = fwdSeed (fst sti)"
  "fwdSens (fst (tape_step fcn der it sti)) = fwdSens (fst sti)"
  "adjSeed (fst (tape_step fcn der it sti)) = adjSeed (fst sti)"
  "adjSens (fst (tape_step fcn der it sti)) = adjSens (fst sti)"
  "input_data (fst (tape_step fcn der it sti)) = input_data (fst sti)"
  "length (output_data (fst (tape_step fcn der it sti))) = length (output_data (fst sti))"
  "length (work (fst (tape_step fcn der it sti))) = length (work (fst sti))"
  by (simp_all add: tape_step_def Let_def eval_step_frame)

lemma eval_fold_frame:
  "fwdSeed (fold (eval_step fcn) alg st) = fwdSeed st
   \<and> fwdSens (fold (eval_step fcn) alg st) = fwdSens st
   \<and> adjSeed (fold (eval_step fcn) alg st) = adjSeed st
   \<and> adjSens (fold (eval_step fcn) alg st) = adjSens st
   \<and> input_data (fold (eval_step fcn) alg st) = input_data st
   \<and> length (output_data (fold (eval_step fcn) alg st)) = length (output_data st)
   \<and> length (work (fold (eval_step fcn) alg st)) = length (work st)"
  by (induction alg arbitrary: st) (simp_all add: eval_step_frame)

lemma tape_fold_frame:
  "fwdSeed (fst (fold (tape_step fcn der) alg sti)) = fwdSeed (fst sti)
   \<and> fwdSens (fst (fold (tape_step fcn der) alg sti)) = fwdSens (fst sti)
   \<and> adjSeed (fst (fold (tape_step fcn der) alg sti)) = adjSeed (fst sti)
   \<and> adjSens (fst (fold (tape_step fcn der) alg sti)) = adjSens (fst sti)
   \<and> input_data (fst (fold (tape_step fcn der) alg sti)) = input_data (fst sti)
   \<and> length (output_data (fst (fold (tape_step fcn der) alg sti))) = length (output_data (fst sti))
   \<and> length (work (fst (fold (tape_step fcn der) alg sti))) = length (work (fst sti))"
  by (induction alg arbitrary: sti) (simp_all add: tape_step_frame)

lemma eval_step_seeds:
  "eval_step fcn it (st\<lparr>fwdSeed := a, adjSeed := b\<rparr>) = (eval_step fcn it st)\<lparr>fwdSeed := a, adjSeed := b\<rparr>"
  by (cases "op it") (simp_all add: eval_step_def)

lemma tape_step_seeds:
  "tape_step fcn der it (st\<lparr>fwdSeed := a, adjSeed := b\<rparr>, n)
   = ((fst (tape_step fcn der it (st, n)))\<lparr>fwdSeed := a, adjSeed := b\<rparr>, snd (tape_step fcn der it (st, n)))"
  by (simp add: tape_step_def Let_def eval_step_seeds)

lemma tape_fold_seeds:
  "fold (tape_step fcn der) alg (st\<lparr>fwdSeed := a, adjSeed := b\<rparr>, n)
   = ((fst (fold (tape_step fcn der) alg (st, n)))\<lparr>fwdSeed := a, adjSeed := b\<rparr>,
      snd (fold (tape_step fcn der) alg (st, n)))"
proof (induction alg arbitrary: st n)
  case Nil
  then show ?case by simp
next
  case (Cons it alg)
  obtain r n' where r: "tape_step fcn der it (st, n) = (r, n')"
    by (cases "tape_step fcn der it (st, n)")
  show ?case using Cons.IH [of r n'] by (simp add: tape_step_seeds r)
qed

lemma list_all_takeD:
  assumes "n \<le> length bs" and "list_all P (take n bs)" and "d < n"
  shows "P (bs ! d)"
proof -
  have "d < length (take n bs)" using assms(1,3) by simp
  then have "P (take n bs ! d)" using assms(2) by (simp add: list_all_length)
  then show ?thesis using assms(3) by simp
qed

lemma buffers_okD:
  assumes "buffers_ok isz osz ws nfdir nadir st"
  shows "length (work st) = ws"
    and "length (input_data st) = length isz" and "length (output_data st) = length osz"
    and "nfdir \<le> length (fwdSeed st)" and "nfdir \<le> length (fwdSens st)"
    and "nadir \<le> length (adjSeed st)" and "nadir \<le> length (adjSens st)"
    and "\<forall>d < nfdir. map length (fwdSeed st ! d) = isz"
    and "\<forall>d < nfdir. map length (fwdSens st ! d) = osz"
    and "\<forall>d < nadir. map length (adjSeed st ! d) = osz"
    and "\<forall>d < nadir. map length (adjSens st ! d) = isz"
  using assms unfolding buffers_ok_def by (auto dest: list_all_takeD)

lemma evaluate_sens:
  fixes f :: "'a::{zero,plus,times} SXFunctionInternal"
  assumes w: "alg_wf (algorithm f) (worksize f)"
      and nopar: "\<forall>p < length (algorithm f). op (algorithm f ! p) \<noteq> OP_PARAMETER"
      and o: "outputs_ok (algorithm f) osz" and i: "inputs_ok (algorithm f) isz"
      and fv: "free_vars f = []"
      and l: "length (work st) = worksize f"
      and nf: "nfdir \<le> length (fwdSens st)" and na: "nadir \<le> length (adjSens st)"
      and shf: "\<forall>d < nfdir. map length (fwdSens st ! d) = osz"
      and sha: "\<forall>d < nadir. map length (adjSens st ! d) = isz"
  shows "\<exists>st'. evaluate fcn der f nfdir nadir st = Inr st'
          \<and> fwdSens st' = map (\<lambda>d. if d < nfdir
                 then fwd_sens_of (algorithm f) (worksize f) osz
                        (pdwork (fst (fold (tape_step fcn der) (algorithm f) (st, 0)))) (fwdSeed st ! d)
                 else fwdSens st ! d) [0 ..< length (fwdSens st)]
          \<and> adjSens st' = map (\<lambda>d. if d < nadir
                 then adj_sens_of (algorithm f) (worksize f) isz
                        (pdwork (fst (fold (tape_step fcn der) (algorithm f) (st, 0)))) (adjSeed st ! d)
                 else adjSens st ! d) [0 ..< length (adjSens st)]
          \<and> length (input_data st') = length (input_data st)
          \<and> length (output_data st') = length (output_data st)"
proof (cases "nfdir > 0 \<or> nadir > 0")
  case False
  then have z: "nfdir = 0" "nadir = 0" by simp_all
  have e: "evaluate fcn der f nfdir nadir st = Inr (fold (eval_step fcn) (algorithm f) st)"
    using fv z by (simp add: evaluate_def)
  show ?thesis unfolding e using eval_fold_frame [of fcn "algorithm f" st] z by (simp add: map_nth)
next
  case True
  let ?alg = "algorithm f"
  let ?ws = "worksize f"
  let ?st1 = "fst (fold (tape_step fcn der) ?alg (st, 0))"
  let ?st2 = "fold (fwd_sweep ?alg) [0 ..< nfdir] ?st1"
  let ?st3 = "if nadir > 0 then ?st2\<lparr>work := replicate (length (work ?st2)) 0\<rparr> else ?st2"
  let ?st4 = "fold (adj_sweep ?alg) [0 ..< nadir] ?st3"
  let ?F = "\<lambda>d. fwd_sens_of ?alg ?ws osz (pdwork ?st1) (fwdSeed st ! d)"
  let ?A = "\<lambda>d. adj_sens_of ?alg ?ws isz (pdwork ?st1) (adjSeed st ! d)"
  have e: "evaluate fcn der f nfdir nadir st = Inr ?st4"
    using fv True by (simp add: evaluate_def Let_def)
  have f1: "fwdSeed ?st1 = fwdSeed st" "fwdSens ?st1 = fwdSens st" "adjSeed ?st1 = adjSeed st"
    "adjSens ?st1 = adjSens st" "input_data ?st1 = input_data st"
    "length (output_data ?st1) = length (output_data st)" "length (work ?st1) = length (work st)"
    using tape_fold_frame [of fcn der ?alg "(st, 0)"] by simp_all
  have l1: "length (work ?st1) = ?ws" using f1 l by simp
  have nf1: "nfdir \<le> length (fwdSens ?st1)" using nf f1 by simp
  have shf1: "\<forall>d < nfdir. map length (fwdSens ?st1 ! d) = osz" using shf f1 by simp
  have f2: "fwdSens ?st2 = map (\<lambda>d. if d < nfdir then ?F d else fwdSens st ! d) [0 ..< length (fwdSens st)]"
    and w2: "length (work ?st2) = ?ws" and p2: "pdwork ?st2 = pdwork ?st1"
    and a2: "adjSeed ?st2 = adjSeed st" and b2: "adjSens ?st2 = adjSens st"
    and i2: "input_data ?st2 = input_data st" and o2: "length (output_data ?st2) = length (output_data st)"
    using fwd_sweeps_fields [OF w nopar o l1 nf1 shf1] f1 by simp_all
  show ?thesis
  proof (cases "nadir > 0")
    case False
    then have "?st4 = ?st2" by simp
    then show ?thesis unfolding e using f2 b2 i2 o2 False by (simp add: map_nth)
  next
    case True
    let ?z = "?st2\<lparr>work := replicate (length (work ?st2)) 0\<rparr>"
    have s3: "?st3 = ?z" using True by simp
    have l3: "length (work ?z) = ?ws" using w2 by simp
    have z3: "\<forall>s < ?ws. work ?z ! s = 0" using w2 by simp
    have na3: "nadir \<le> length (adjSens ?z)" using na b2 by simp
    have sha3: "\<forall>d < nadir. map length (adjSens ?z ! d) = isz" using sha b2 by simp
    have r: "adjSens (fold (adj_sweep ?alg) [0 ..< nadir] ?z)
           = map (\<lambda>d. if d < nadir then adj_sens_of ?alg ?ws isz (pdwork ?z) (adjSeed ?z ! d)
                       else adjSens ?z ! d) [0 ..< length (adjSens ?z)]"
      and r2: "fwdSens (fold (adj_sweep ?alg) [0 ..< nadir] ?z) = fwdSens ?z"
      and r3: "input_data (fold (adj_sweep ?alg) [0 ..< nadir] ?z) = input_data ?z"
      and r4: "output_data (fold (adj_sweep ?alg) [0 ..< nadir] ?z) = output_data ?z"
      using adj_sweeps_fields [OF w nopar i l3 z3 na3 sha3] by simp_all
    have c1: "fwdSens ?st4 = map (\<lambda>d. if d < nfdir then ?F d else fwdSens st ! d) [0 ..< length (fwdSens st)]"
      unfolding s3 using r2 f2 by simp
    have c2: "adjSens ?st4 = map (\<lambda>d. if d < nadir then ?A d else adjSens st ! d) [0 ..< length (adjSens st)]"
      unfolding s3 using r p2 a2 b2 by simp
    have c3: "length (input_data ?st4) = length (input_data st)" unfolding s3 using r3 i2 by simp
    have c4: "length (output_data ?st4) = length (output_data st)" unfolding s3 using r4 o2 by simp
    show ?thesis unfolding e using c1 c2 c3 c4 by blast
  qed
qed

section \<open>Compression and decompression of directions\<close>

lemma copy_data_same: "length a = length b \<Longrightarrow> copy_data a b = a"
  by (simp add: copy_data_def)

lemma update_take_drop:
  assumes "k < length S" and "k < length D"
  shows "(take k S @ drop k D)[k := S ! k] = take (Suc k) S @ drop (Suc k) D"
proof -
  have "drop k D = D ! k # drop (Suc k) D" using assms(2) by (simp add: Cons_nth_drop_Suc)
  then have "(take k S @ drop k D)[k := S ! k] = take k S @ (S ! k # drop (Suc k) D)"
    using assms(1) by (simp add: list_update_append)
  also have "\<dots> = take (Suc k) S @ drop (Suc k) D"
    using assms(1) by (simp add: take_Suc_conv_app_nth)
  finally show ?thesis .
qed

lemma move_dir_prefix:
  assumes ne: "src \<noteq> dst" and s: "src < length b" and d: "dst < length b"
      and len: "\<forall>ind < length (b ! src). ind < length (b ! dst)
                  \<longrightarrow> length (b ! src ! ind) = length (b ! dst ! ind)"
  shows "k \<le> length (b ! src) \<Longrightarrow> k \<le> length (b ! dst) \<Longrightarrow>
         fold (\<lambda>ind b'. b'[dst := (b' ! dst)[ind := copy_data (b' ! src ! ind) (b' ! dst ! ind)]])
           [0 ..< k] b
         = b[dst := take k (b ! src) @ drop k (b ! dst)]"
proof (induction k)
  case 0
  then show ?case by simp
next
  case (Suc k)
  let ?S = "b ! src" and ?D = "b ! dst"
  let ?bk = "b[dst := take k ?S @ drop k ?D]"
  have ks: "k < length ?S" and kd: "k < length ?D" using Suc.prems by simp_all
  have ih: "fold (\<lambda>ind b'. b'[dst := (b' ! dst)[ind := copy_data (b' ! src ! ind) (b' ! dst ! ind)]])
           [0 ..< k] b = ?bk" using Suc.IH Suc.prems by simp
  have r1: "?bk ! dst = take k ?S @ drop k ?D" using d by simp
  have r2: "?bk ! src = ?S" using ne by simp
  have r3: "(take k ?S @ drop k ?D) ! k = ?D ! k" using ks kd by (simp add: nth_append)
  have r4: "copy_data (?S ! k) (?D ! k) = ?S ! k" using len ks kd by (simp add: copy_data_same)
  have "?bk[dst := (?bk ! dst)[k := copy_data (?bk ! src ! k) (?bk ! dst ! k)]]
        = b[dst := (take k ?S @ drop k ?D)[k := ?S ! k]]"
    unfolding r1 r2 r3 r4 by simp
  also have "\<dots> = b[dst := take (Suc k) ?S @ drop (Suc k) ?D]"
    using update_take_drop [OF ks kd] by simp
  finally show ?case using ih by simp
qed

lemma move_dir_copy:
  assumes ne: "src \<noteq> dst" and s: "src < length b" and d: "dst < length b"
      and ss: "map length (b ! src) = sz" and sd: "map length (b ! dst) = sz"
      and n: "n = length sz"
  shows "move_dir n src dst b = b[dst := b ! src]"
proof -
  have ls: "length (b ! src) = n" and ld: "length (b ! dst) = n"
    using ss sd n by (metis length_map)+
  have len: "\<forall>ind < length (b ! src). ind < length (b ! dst)
                  \<longrightarrow> length (b ! src ! ind) = length (b ! dst ! ind)"
  proof (intro allI impI)
    fix ind assume "ind < length (b ! src)" and "ind < length (b ! dst)"
    then have "ind < length sz" using ls n by simp
    then show "length (b ! src ! ind) = length (b ! dst ! ind)"
      using shape_nth(2) [OF ss] shape_nth(2) [OF sd] by simp
  qed
  have "move_dir n src dst b = b[dst := take n (b ! src) @ drop n (b ! dst)]"
    unfolding move_dir_def using move_dir_prefix [OF ne s d len, of n] ls ld by simp
  then show ?thesis using ls ld by simp
qed

lemma set_zero_dir_prefix:
  fixes b :: "'a::zero list list list"
  assumes d: "dir < length b"
  shows "k \<le> length (b ! dir) \<Longrightarrow>
         fold (\<lambda>ind b'. b'[dir := (b' ! dir)[ind := replicate (length (b' ! dir ! ind)) 0]]) [0 ..< k] b
         = b[dir := map (\<lambda>v. replicate (length v) 0) (take k (b ! dir)) @ drop k (b ! dir)]"
proof (induction k)
  case 0
  then show ?case by simp
next
  case (Suc k)
  let ?D = "b ! dir"
  let ?Z = "map (\<lambda>v. replicate (length v) (0::'a)) ?D"
  let ?bk = "b[dir := map (\<lambda>v. replicate (length v) 0) (take k ?D) @ drop k ?D]"
  have kd: "k < length ?D" using Suc.prems by simp
  have kz: "k < length ?Z" using kd by simp
  have ih: "fold (\<lambda>ind b'. b'[dir := (b' ! dir)[ind := replicate (length (b' ! dir ! ind)) 0]]) [0 ..< k] b
            = ?bk" using Suc.IH Suc.prems by simp
  have tk: "\<And>m. map (\<lambda>v. replicate (length v) (0::'a)) (take m ?D) = take m ?Z" by (simp add: take_map)
  have r1: "?bk ! dir = take k ?Z @ drop k ?D" using d by (simp add: tk)
  have r3: "(take k ?Z @ drop k ?D) ! k = ?D ! k" using kd by (simp add: nth_append)
  have zk: "?Z ! k = replicate (length (?D ! k)) 0" using kd by simp
  have "?bk[dir := (?bk ! dir)[k := replicate (length (?bk ! dir ! k)) 0]]
        = b[dir := (take k ?Z @ drop k ?D)[k := ?Z ! k]]"
    unfolding r1 r3 zk by simp
  also have "\<dots> = b[dir := take (Suc k) ?Z @ drop (Suc k) ?D]"
    using update_take_drop [OF kz kd] by simp
  finally show ?case using ih by (simp add: tk)
qed

lemma set_zero_dir_zero:
  fixes b :: "'a::zero list list list"
  assumes d: "dir < length b" and sd: "map length (b ! dir) = sz" and n: "n = length sz"
  shows "set_zero_dir n dir b = b[dir := zero_bundle sz]"
proof -
  have ld: "length (b ! dir) = n" using sd n by (metis length_map)
  have "set_zero_dir n dir b = b[dir := map (\<lambda>v. replicate (length v) 0) (b ! dir)]"
    unfolding set_zero_dir_def using set_zero_dir_prefix [OF d, of n] ld by simp
  moreover have "map (\<lambda>v. replicate (length v) (0::'a)) (b ! dir) = zero_bundle sz"
  proof -
    have "map (\<lambda>n. replicate n (0::'a)) (map length (b ! dir))
          = map (\<lambda>v. replicate (length v) 0) (b ! dir)" by (simp add: comp_def)
    then show ?thesis unfolding zero_bundle_def using sd by simp
  qed
  ultimately show ?thesis by simp
qed

lemma all_zeroD:
  fixes seeds :: "'a::zero list list"
  assumes a: "all_zero n seeds" and sh: "map length seeds = sz" and n: "n = length sz"
  shows "\<forall>i < length sz. \<forall>j < sz ! i. seeds ! i ! j = 0"
proof (intro allI impI)
  fix i j assume i: "i < length sz" and j: "j < sz ! i"
  have ls: "length seeds = n" using sh n by (metis length_map)
  have "list_all (\<lambda>v. list_all (\<lambda>x. x = 0) v) seeds" using a ls by (simp add: all_zero_def)
  then have "list_all (\<lambda>x. x = 0) (seeds ! i)" using i ls n by (simp add: list_all_length)
  moreover have "j < length (seeds ! i)" using shape_nth(2) [OF sh i] j by simp
  ultimately show "seeds ! i ! j = 0" by (simp add: list_all_length)
qed

lemma compress_loop:
  fixes b0 :: "'a::zero list list list"
  assumes N: "N \<le> length b0" and sh: "\<forall>d < N. map length (b0 ! d) = sz" and n: "n = length sz"
  shows "m \<le> N \<Longrightarrow>
     \<exists>b c flags. fold (compress_step n) [0 ..< m] (b0, 0, replicate N False) = (b, c, flags)
      \<and> length b = length b0
      \<and> c = length (filter (\<lambda>d. \<not> all_zero n (b0 ! d)) [0 ..< m]) \<and> c \<le> m
      \<and> (\<forall>k < c. b ! k = b0 ! (filter (\<lambda>d. \<not> all_zero n (b0 ! d)) [0 ..< m] ! k))
      \<and> (\<forall>d. m \<le> d \<and> d < length b0 \<longrightarrow> b ! d = b0 ! d)
      \<and> (\<forall>d < N. map length (b ! d) = sz)
      \<and> length flags = N \<and> (\<forall>d < m. flags ! d = all_zero n (b0 ! d))"
proof (induction m)
  case 0
  then show ?case using sh by simp
next
  case (Suc m)
  let ?nz = "\<lambda>m. filter (\<lambda>d. \<not> all_zero n (b0 ! d)) [0 ..< m]"
  have mN: "m < N" using Suc.prems by simp
  obtain b c flags where
    r: "fold (compress_step n) [0 ..< m] (b0, 0, replicate N False) = (b, c, flags)"
    and lb: "length b = length b0"
    and c: "c = length (?nz m)" and cm: "c \<le> m"
    and bk: "\<forall>k < c. b ! k = b0 ! (?nz m ! k)"
    and un: "\<forall>d. m \<le> d \<and> d < length b0 \<longrightarrow> b ! d = b0 ! d"
    and shb: "\<forall>d < N. map length (b ! d) = sz"
    and lf: "length flags = N" and fl: "\<forall>d < m. flags ! d = all_zero n (b0 ! d)"
    using Suc.IH mN by auto
  have bm: "b ! m = b0 ! m" using un mN N by simp
  let ?z = "all_zero n (b0 ! m)"
  let ?flags = "flags[m := ?z]"
  have lf': "length ?flags = N" using lf by simp
  have fl': "\<forall>d < Suc m. ?flags ! d = all_zero n (b0 ! d)"
  proof (intro allI impI)
    fix d assume "d < Suc m"
    then show "?flags ! d = all_zero n (b0 ! d)" using fl lf mN by (cases "d = m") (simp_all add: nth_upd)
  qed
  have e: "fold (compress_step n) [0 ..< Suc m] (b0, 0, replicate N False)
           = compress_step n m (b, c, flags)" using r by simp
  show ?case
  proof (cases ?z)
    case True
    have s: "compress_step n m (b, c, flags) = (b, c, ?flags)"
      using True bm by (simp add: compress_step_def Let_def)
    have nz: "?nz (Suc m) = ?nz m" using True by simp
    have un': "\<forall>d. Suc m \<le> d \<and> d < length b0 \<longrightarrow> b ! d = b0 ! d" using un by simp
    have cm': "c \<le> Suc m" using cm by simp
    show ?thesis unfolding e s nz using lb c cm' bk un' shb lf' fl' by blast
  next
    case False
    let ?b = "if m \<noteq> c then move_dir n m c b else b"
    have s: "compress_step n m (b, c, flags) = (?b, Suc c, ?flags)"
      using False bm by (simp add: compress_step_def Let_def)
    have nz: "?nz (Suc m) = ?nz m @ [m]" using False by simp
    have cN: "c < N" using cm mN by simp
    have be: "?b = b[c := b0 ! m]"
    proof (cases "m = c")
      case True
      then have "b ! c = b0 ! m" using bm by simp
      then have "b[c := b0 ! m] = b" by (metis list_update_id)
      then show ?thesis using True by simp
    next
      case ne: False
      have "move_dir n m c b = b[c := b ! m]"
      proof (rule move_dir_copy)
        show "m \<noteq> c" using ne .
        show "m < length b" using mN N lb by simp
        show "c < length b" using cN N lb by simp
        show "map length (b ! m) = sz" using shb mN by blast
        show "map length (b ! c) = sz" using shb cN by blast
        show "n = length sz" using n .
      qed
      then show ?thesis using ne bm by simp
    qed
    have lb': "length ?b = length b0" unfolding be using lb by simp
    have c': "Suc c = length (?nz m @ [m])" using c by simp
    have cm': "Suc c \<le> Suc m" using cm by simp
    have bk': "\<forall>k < Suc c. ?b ! k = b0 ! ((?nz m @ [m]) ! k)"
    proof (intro allI impI)
      fix k assume k: "k < Suc c"
      show "?b ! k = b0 ! ((?nz m @ [m]) ! k)"
      proof (cases "k = c")
        case True
        then show ?thesis unfolding be using c cN N lb by (simp add: nth_append)
      next
        case False
        then have kc: "k < c" using k by simp
        then show ?thesis unfolding be using bk c False by (simp add: nth_append)
      qed
    qed
    have un': "\<forall>d. Suc m \<le> d \<and> d < length b0 \<longrightarrow> ?b ! d = b0 ! d"
      unfolding be using un cm by (simp add: nth_upd)
    have shb': "\<forall>d < N. map length (?b ! d) = sz"
    proof (intro allI impI)
      fix d assume d: "d < N"
      show "map length (?b ! d) = sz"
        unfolding be using shb sh d mN by (cases "d = c") (simp_all add: nth_upd)
    qed
    show ?thesis unfolding e s nz using lb' c' cm' bk' un' shb' lf' fl' by blast
  qed
qed

lemma rank_Suc:
  "length (filter P [0 ..< Suc m]) = length (filter P [0 ..< m]) + (if P m then 1 else 0)"
  by simp

lemma rank_le: "length (filter P [0 ..< m]) \<le> m"
  using length_filter_le [of P "[0 ..< m]"] by simp

lemma filter_nth_rank:
  assumes "d < N" and "P d"
  shows "filter P [0 ..< N] ! length (filter P [0 ..< d]) = d"
proof -
  have "[0 ..< N] = [0 ..< d] @ d # [Suc d ..< N]"
    using assms(1) by (metis le_add1 le_add_same_cancel1 less_imp_add_positive upt_add_eq_append upt_conv_Cons)
  then have "filter P [0 ..< N] = filter P [0 ..< d] @ d # filter P [Suc d ..< N]"
    using assms(2) by simp
  then show ?thesis by (simp add: nth_append)
qed

lemma rank_less:
  assumes "d < N" and "P d"
  shows "length (filter P [0 ..< d]) < length (filter P [0 ..< N])"
proof -
  have "[0 ..< N] = [0 ..< d] @ d # [Suc d ..< N]"
    using assms(1) by (metis le_add1 le_add_same_cancel1 less_imp_add_positive upt_add_eq_append upt_conv_Cons)
  then have "filter P [0 ..< N] = filter P [0 ..< d] @ d # filter P [Suc d ..< N]"
    using assms(2) by simp
  then show ?thesis by simp
qed

lemma decompress_loop:
  fixes S :: "'a::zero list list list"
  assumes N: "N \<le> length S" and sh: "\<forall>d < N. map length (S ! d) = sz" and n: "n = length sz"
  shows "m \<le> N \<Longrightarrow>
     \<exists>R. fold (decompress_step n flags) (rev [m ..< N])
            (S, length (filter (\<lambda>d. \<not> flags ! d) [0 ..< N]))
          = (R, length (filter (\<lambda>d. \<not> flags ! d) [0 ..< m]))
      \<and> length R = length S
      \<and> (\<forall>d < m. R ! d = S ! d)
      \<and> (\<forall>d. N \<le> d \<and> d < length S \<longrightarrow> R ! d = S ! d)
      \<and> (\<forall>d. m \<le> d \<and> d < N \<longrightarrow>
            R ! d = (if flags ! d then zero_bundle sz
                     else S ! length (filter (\<lambda>d. \<not> flags ! d) [0 ..< d])))"
proof (induction k \<equiv> "N - m" arbitrary: m)
  case 0
  then have "m = N" by simp
  then show ?case by auto
next
  case (Suc k)
  let ?rank = "\<lambda>m. length (filter (\<lambda>d. \<not> flags ! d) [0 ..< m])"
  have mN: "m < N" using Suc.hyps(2) by simp
  have k: "k = N - Suc m" using Suc.hyps(2) by simp
  obtain R where
    r: "fold (decompress_step n flags) (rev [Suc m ..< N]) (S, ?rank N) = (R, ?rank (Suc m))"
    and lR: "length R = length S"
    and lo: "\<forall>d < Suc m. R ! d = S ! d"
    and hi: "\<forall>d. N \<le> d \<and> d < length S \<longrightarrow> R ! d = S ! d"
    and mid: "\<forall>d. Suc m \<le> d \<and> d < N \<longrightarrow>
            R ! d = (if flags ! d then zero_bundle sz else S ! ?rank d)"
    using Suc.hyps(1) [OF k] mN by auto
  have up: "[m ..< N] = m # [Suc m ..< N]" using mN by (simp add: upt_conv_Cons)
  have e: "fold (decompress_step n flags) (rev [m ..< N]) (S, ?rank N)
           = decompress_step n flags m (R, ?rank (Suc m))"
    unfolding up using r by simp
  have mR: "m < length R" using mN N lR by simp
  have shm: "map length (R ! m) = sz" using lo sh mN by simp
  show ?case
  proof (cases "flags ! m")
    case True
    have rk: "?rank (Suc m) = ?rank m" using True by simp
    have z: "set_zero_dir n m R = R[m := zero_bundle sz]"
      using mR shm n by (rule set_zero_dir_zero)
    have s: "decompress_step n flags m (R, ?rank (Suc m)) = (R[m := zero_bundle sz], ?rank m)"
      using True z rk by (simp add: decompress_step_def)
    have c1: "\<forall>d < m. R[m := zero_bundle sz] ! d = S ! d" using lo by (simp add: nth_upd)
    have c2: "\<forall>d. N \<le> d \<and> d < length S \<longrightarrow> R[m := zero_bundle sz] ! d = S ! d"
      using hi mN by (simp add: nth_upd)
    have c3: "\<forall>d. m \<le> d \<and> d < N \<longrightarrow>
            R[m := zero_bundle sz] ! d = (if flags ! d then zero_bundle sz else S ! ?rank d)"
    proof (intro allI impI)
      fix d assume d: "m \<le> d \<and> d < N"
      show "R[m := zero_bundle sz] ! d = (if flags ! d then zero_bundle sz else S ! ?rank d)"
      proof (cases "d = m")
        case True
        then show ?thesis using \<open>flags ! m\<close> mR by simp
      next
        case False
        then have "Suc m \<le> d \<and> d < N" using d by simp
        then show ?thesis using mid False by (simp add: nth_upd)
      qed
    qed
    show ?thesis unfolding e s using lR c1 c2 c3 by simp
  next
    case False
    have rk: "?rank (Suc m) - 1 = ?rank m" using False by simp
    have rl: "?rank m \<le> m" by (rule rank_le)
    let ?R = "if ?rank m \<noteq> m then move_dir n (?rank m) m R else R"
    have s: "decompress_step n flags m (R, ?rank (Suc m)) = (?R, ?rank m)"
      using False rk by (simp add: decompress_step_def Let_def)
    have Re: "?R = R[m := S ! ?rank m]"
    proof (cases "?rank m = m")
      case True
      have "R ! m = S ! m" using lo by simp
      then have "R[m := S ! m] = R" by (metis list_update_id)
      then show ?thesis using True by simp
    next
      case ne: False
      then have lt: "?rank m < m" using rl by simp
      have "move_dir n (?rank m) m R = R[m := R ! ?rank m]"
      proof (rule move_dir_copy)
        show "?rank m \<noteq> m" using ne .
        show "?rank m < length R" using lt mR by simp
        show "m < length R" using mR .
        show "map length (R ! ?rank m) = sz" using lo sh lt mN by simp
        show "map length (R ! m) = sz" using shm .
        show "n = length sz" using n .
      qed
      moreover have "R ! ?rank m = S ! ?rank m" using lo lt by simp
      ultimately show ?thesis using ne by simp
    qed
    have c1: "\<forall>d < m. R[m := S ! ?rank m] ! d = S ! d" using lo by (simp add: nth_upd)
    have c2: "\<forall>d. N \<le> d \<and> d < length S \<longrightarrow> R[m := S ! ?rank m] ! d = S ! d"
      using hi mN by (simp add: nth_upd)
    have c3: "\<forall>d. m \<le> d \<and> d < N \<longrightarrow>
            R[m := S ! ?rank m] ! d = (if flags ! d then zero_bundle sz else S ! ?rank d)"
    proof (intro allI impI)
      fix d assume d: "m \<le> d \<and> d < N"
      show "R[m := S ! ?rank m] ! d = (if flags ! d then zero_bundle sz else S ! ?rank d)"
      proof (cases "d = m")
        case True
        then show ?thesis using \<open>\<not> flags ! m\<close> mR by simp
      next
        case False
        then have "Suc m \<le> d \<and> d < N" using d by simp
        then show ?thesis using mid False by (simp add: nth_upd)
      qed
    qed
    show ?thesis unfolding e s Re using lR c1 c2 c3 by simp
  qed
qed

lemma compress_decompress:
  fixes b0 S0 :: "'a::zero list list list"
  assumes Nb: "N \<le> length b0" and shb: "\<forall>d < N. map length (b0 ! d) = isz"
      and NS: "N \<le> length S0" and shS: "\<forall>d < N. map length (S0 ! d) = osz"
      and shF: "\<And>seed. map length (F seed) = osz"
      and Fz: "\<forall>d < N. all_zero (length isz) (b0 ! d) \<longrightarrow> F (b0 ! d) = zero_bundle osz"
      and cr: "fold (compress_step (length isz)) [0 ..< N] (b0, 0, replicate N False) = (b, c, flags)"
  shows "c \<le> N"
    and "fst (fold (decompress_step (length osz) flags) (rev [0 ..< N])
                (map (\<lambda>k. if k < c then F (b ! k) else S0 ! k) [0 ..< length S0], c))
         = map (\<lambda>d. if d < N then F (b0 ! d) else S0 ! d) [0 ..< length S0]"
proof -
  let ?P = "\<lambda>d. \<not> all_zero (length isz) (b0 ! d)"
  let ?S = "map (\<lambda>k. if k < c then F (b ! k) else S0 ! k) [0 ..< length S0]"
  obtain b' c' flags' where
    cr': "fold (compress_step (length isz)) [0 ..< N] (b0, 0, replicate N False) = (b', c', flags')"
    and c': "c' = length (filter ?P [0 ..< N])" and cN': "c' \<le> N"
    and bk': "\<forall>k < c'. b' ! k = b0 ! (filter ?P [0 ..< N] ! k)"
    and fl': "\<forall>d < N. flags' ! d = all_zero (length isz) (b0 ! d)"
    using compress_loop [OF Nb shb refl, of N] by blast
  have eqs: "b' = b" "c' = c" "flags' = flags" using cr cr' by simp_all
  have c: "c = length (filter ?P [0 ..< N])" and cN: "c \<le> N"
    and bk: "\<forall>k < c. b ! k = b0 ! (filter ?P [0 ..< N] ! k)"
    and fl: "\<forall>d < N. flags ! d = all_zero (length isz) (b0 ! d)"
    using c' cN' bk' fl' unfolding eqs by blast+
  show "c \<le> N" using cN .
  have rk: "\<And>m. m \<le> N \<Longrightarrow> filter (\<lambda>d. \<not> flags ! d) [0 ..< m] = filter ?P [0 ..< m]"
  proof -
    fix m assume m: "m \<le> N"
    show "filter (\<lambda>d. \<not> flags ! d) [0 ..< m] = filter ?P [0 ..< m]"
    proof (rule filter_cong [OF refl])
      fix x assume "x \<in> set [0 ..< m]"
      then have "x < N" using m by simp
      then show "(\<not> flags ! x) = (\<not> all_zero (length isz) (b0 ! x))" using fl by simp
    qed
  qed
  have NS': "N \<le> length ?S" using NS by simp
  have shS': "\<forall>d < N. map length (?S ! d) = osz"
  proof (intro allI impI)
    fix d assume "d < N"
    then show "map length (?S ! d) = osz" using NS shS shF by simp
  qed
  have z0: "(0::nat) \<le> N" by simp
  obtain R where A:
    "fold (decompress_step (length osz) flags) (rev [0 ..< N])
            (?S, length (filter (\<lambda>d. \<not> flags ! d) [0 ..< N]))
          = (R, length (filter (\<lambda>d. \<not> flags ! d) [0 ..< 0]))
      \<and> length R = length ?S
      \<and> (\<forall>d < 0. R ! d = ?S ! d)
      \<and> (\<forall>d. N \<le> d \<and> d < length ?S \<longrightarrow> R ! d = ?S ! d)
      \<and> (\<forall>d. 0 \<le> d \<and> d < N \<longrightarrow>
            R ! d = (if flags ! d then zero_bundle osz
                     else ?S ! length (filter (\<lambda>d. \<not> flags ! d) [0 ..< d])))"
    using decompress_loop [OF NS' shS' refl z0, of flags] by (rule exE)
  note r = A [THEN conjunct1]
  note lR = A [THEN conjunct2, THEN conjunct1]
  note hi = A [THEN conjunct2, THEN conjunct2, THEN conjunct2, THEN conjunct1]
  note mid = A [THEN conjunct2, THEN conjunct2, THEN conjunct2, THEN conjunct2]
  have cc: "length (filter (\<lambda>d. \<not> flags ! d) [0 ..< N]) = c" using rk [of N] c by simp
  have "R = map (\<lambda>d. if d < N then F (b0 ! d) else S0 ! d) [0 ..< length S0]"
  proof (rule nth_equalityI)
    show "length R = length (map (\<lambda>d. if d < N then F (b0 ! d) else S0 ! d) [0 ..< length S0])"
      using lR by simp
    fix d assume "d < length R"
    then have d: "d < length S0" using lR by simp
    show "R ! d = map (\<lambda>d. if d < N then F (b0 ! d) else S0 ! d) [0 ..< length S0] ! d"
    proof (cases "d < N")
      case False
      then have "R ! d = ?S ! d" using hi d by simp
      then show ?thesis using False d cN by simp
    next
      case True
      show ?thesis
      proof (cases "flags ! d")
        case f: True
        then have "R ! d = zero_bundle osz" using mid True by simp
        moreover have "F (b0 ! d) = zero_bundle osz" using Fz fl True f by simp
        ultimately show ?thesis using True d by simp
      next
        case f: False
        let ?r = "length (filter ?P [0 ..< d])"
        have pd: "?P d" using fl True f by simp
        have "length (filter (\<lambda>d. \<not> flags ! d) [0 ..< d]) = ?r" using rk [of d] True by simp
        then have e1: "R ! d = ?S ! ?r" using mid True f by simp
        have rc: "?r < c" unfolding c using True pd by (rule rank_less)
        have "?r < length S0" using rc cN NS by simp
        then have e2: "?S ! ?r = F (b ! ?r)" using rc by simp
        have "b ! ?r = b0 ! (filter ?P [0 ..< N] ! ?r)" using bk rc by blast
        also have "\<dots> = b0 ! d" using filter_nth_rank [of d N ?P] True pd by simp
        finally have "?S ! ?r = F (b0 ! d)" using e2 by simp
        then show ?thesis using e1 True d by simp
      qed
    qed
  qed
  then show "fst (fold (decompress_step (length osz) flags) (rev [0 ..< N]) (?S, c))
         = map (\<lambda>d. if d < N then F (b0 ! d) else S0 ! d) [0 ..< length S0]"
    using r cc by simp
qed


section \<open>Forward and adjoint sweeps are transposes of each other\<close>

lemma vdot_zero_left [simp]: "vdot ws (replicate ws 0) w = 0"
  by (simp add: vdot_def)

lemma vdot_zero_right [simp]: "vdot ws a (replicate ws 0) = 0"
  by (simp add: vdot_def)

lemma vdot_split:
  fixes a w :: "'a::comm_semiring_0 list"
  assumes "k < ws"
  shows "vdot ws a w = a ! k * w ! k + (\<Sum>s \<in> {..< ws} - {k}. a ! s * w ! s)"
  unfolding vdot_def using assms by (intro sum.remove) simp_all

lemma vdot_upd_left:
  fixes a w :: "'a::comm_semiring_0 list"
  assumes k: "k < ws" and l: "length a = ws"
  shows "vdot ws (a[k := v]) w = v * w ! k + (\<Sum>s \<in> {..< ws} - {k}. a ! s * w ! s)"
proof -
  have "vdot ws (a[k := v]) w
        = a[k := v] ! k * w ! k + (\<Sum>s \<in> {..< ws} - {k}. a[k := v] ! s * w ! s)"
    using k by (rule vdot_split)
  moreover have "(\<Sum>s \<in> {..< ws} - {k}. a[k := v] ! s * w ! s) = (\<Sum>s \<in> {..< ws} - {k}. a ! s * w ! s)"
    by (rule sum.cong) simp_all
  ultimately show ?thesis using k l by simp
qed

lemma vdot_upd_right:
  fixes a w :: "'a::comm_semiring_0 list"
  assumes k: "k < ws" and l: "length w = ws"
  shows "vdot ws a (w[k := v]) = a ! k * v + (\<Sum>s \<in> {..< ws} - {k}. a ! s * w ! s)"
proof -
  have "vdot ws a (w[k := v])
        = a ! k * w[k := v] ! k + (\<Sum>s \<in> {..< ws} - {k}. a ! s * w[k := v] ! s)"
    using k by (rule vdot_split)
  moreover have "(\<Sum>s \<in> {..< ws} - {k}. a ! s * w[k := v] ! s) = (\<Sum>s \<in> {..< ws} - {k}. a ! s * w ! s)"
    by (rule sum.cong) simp_all
  ultimately show ?thesis using k l by simp
qed

text \<open>Writing a value into a slot of one vector against clearing the slot in the other.\<close>

lemma vdot_write_clear:
  fixes a w :: "'a::comm_semiring_0 list"
  assumes k: "k < ws" and la: "length a = ws" and lw: "length w = ws"
  shows "vdot ws a (w[k := v]) = vdot ws (a[k := 0]) w + a ! k * v"
  using vdot_upd_right [OF k lw, of a v] vdot_upd_left [OF k la, of 0 w]
  by (simp add: add.commute)

lemma vdot_add_left:
  fixes a w :: "'a::comm_semiring_0 list"
  assumes k: "k < ws" and la: "length a = ws"
  shows "vdot ws (a[k := a ! k + c]) w = vdot ws a w + c * w ! k"
proof -
  let ?R = "\<Sum>s \<in> {..< ws} - {k}. a ! s * w ! s"
  have "vdot ws (a[k := a ! k + c]) w = (a ! k + c) * w ! k + ?R"
    using k la by (rule vdot_upd_left)
  also have "\<dots> = (a ! k * w ! k + ?R) + c * w ! k" by (simp add: algebra_simps)
  also have "a ! k * w ! k + ?R = vdot ws a w" using vdot_split [OF k, of a w] by simp
  finally show ?thesis .
qed

lemma foldr_plus_sum_list:
  fixes f :: "'b \<Rightarrow> 'a::monoid_add"
  shows "foldr (\<lambda>p acc. f p + acc) ps 0 = sum_list (map f ps)"
  by (induction ps) simp_all

lemma dot_sum_list:
  fixes xs ys :: "'a::comm_semiring_0 list"
  shows "dot xs ys = sum_list (map2 (\<lambda>x y. x * y) xs ys)"
  unfolding dot_def foldr_plus_sum_list by (simp add: case_prod_unfold)

lemma dot2_sum_list:
  fixes a b :: "'a::comm_semiring_0 list list"
  shows "dot2 a b = sum_list (map2 dot a b)"
  unfolding dot2_def foldr_plus_sum_list by (simp add: case_prod_unfold)

lemma dot_sum:
  fixes xs ys :: "'a::comm_semiring_0 list"
  assumes "length xs = length ys"
  shows "dot xs ys = (\<Sum>i < length xs. xs ! i * ys ! i)"
proof -
  have "dot xs ys = (\<Sum>i = 0 ..< length (map2 (\<lambda>x y. x * y) xs ys). map2 (\<lambda>x y. x * y) xs ys ! i)"
    unfolding dot_sum_list by (rule sum_list_sum_nth)
  also have "\<dots> = (\<Sum>i = 0 ..< length xs. xs ! i * ys ! i)"
    using assms by (intro sum.cong) simp_all
  finally show ?thesis by (simp add: atLeast0LessThan)
qed

lemma dot2_entries:
  fixes a b :: "'a::comm_semiring_0 list list"
  assumes sa: "map length a = sz" and sb: "map length b = sz"
  shows "dot2 a b = bsum (entries sz) a b"
proof -
  have la: "length a = length sz" and lb: "length b = length sz" using sa sb by (metis length_map)+
  have "dot2 a b = (\<Sum>i = 0 ..< length (map2 dot a b). map2 dot a b ! i)"
    unfolding dot2_sum_list by (rule sum_list_sum_nth)
  also have "\<dots> = (\<Sum>i \<in> {..< length sz}. dot (a ! i) (b ! i))"
    using la lb by (simp add: atLeast0LessThan)
  also have "\<dots> = (\<Sum>i \<in> {..< length sz}. \<Sum>j \<in> {..< sz ! i}. a ! i ! j * b ! i ! j)"
  proof (rule sum.cong [OF refl])
    fix i assume "i \<in> {..< length sz}"
    then have i: "i < length sz" by simp
    have ea: "length (a ! i) = sz ! i" and eb: "length (b ! i) = sz ! i"
      using shape_nth(2) [OF sa i] shape_nth(2) [OF sb i] by simp_all
    show "dot (a ! i) (b ! i) = (\<Sum>j \<in> {..< sz ! i}. a ! i ! j * b ! i ! j)"
      using dot_sum [of "a ! i" "b ! i"] ea eb by simp
  qed
  also have "\<dots> = (\<Sum>p \<in> (SIGMA i : {..< length sz}. {..< sz ! i}). a ! fst p ! snd p * b ! fst p ! snd p)"
    by (simp add: sum.Sigma case_prod_unfold)
  finally show ?thesis by (simp add: bsum_def entries_def)
qed

lemma out_entries_all:
  assumes o: "outputs_ok alg osz"
  shows "out_entries alg = entries osz"
proof (rule set_eqI)
  fix p :: "nat \<times> nat"
  show "p \<in> out_entries alg \<longleftrightarrow> p \<in> entries osz"
  proof
    assume "p \<in> out_entries alg"
    then obtain e where e: "e \<in> set alg" "op e = OP_OUTPUT" "p = (res e, arg_i1 e)"
      unfolding out_entries_def by blast
    then obtain q where q: "q < length alg" "alg ! q = e" by (auto simp: in_set_conv_nth)
    have "res e < length osz" "arg_i1 e < osz ! res e"
      using outputs_okD [OF o q(1)] q(2) e(2) by simp_all
    then show "p \<in> entries osz" using e(3) by (simp add: entries_def)
  next
    assume "p \<in> entries osz"
    then have a: "fst p < length osz" "snd p < osz ! fst p" by (auto simp: entries_def)
    obtain q where q: "q < length alg" "op (alg ! q) = OP_OUTPUT" "res (alg ! q) = fst p"
        "arg_i1 (alg ! q) = snd p"
      using o a unfolding outputs_ok_def by blast
    have "alg ! q \<in> {e \<in> set alg. op e = OP_OUTPUT}" using q by simp
    moreover have "(\<lambda>e. (res e, arg_i1 e)) (alg ! q) = p" using q by simp
    ultimately show "p \<in> out_entries alg" unfolding out_entries_def by (metis (no_types, lifting) image_eqI)
  qed
qed

lemma in_entries_all:
  assumes i: "inputs_ok alg isz"
  shows "in_entries alg = entries isz"
proof (rule set_eqI)
  fix p :: "nat \<times> nat"
  show "p \<in> in_entries alg \<longleftrightarrow> p \<in> entries isz"
  proof
    assume "p \<in> in_entries alg"
    then obtain e where e: "e \<in> set alg" "op e = OP_INPUT" "p = (arg_i0 e, arg_i1 e)"
      unfolding in_entries_def by blast
    then obtain q where q: "q < length alg" "alg ! q = e" by (auto simp: in_set_conv_nth)
    have "arg_i0 e < length isz" "arg_i1 e < isz ! arg_i0 e"
      using inputs_okD [OF i q(1)] q(2) e(2) by simp_all
    then show "p \<in> entries isz" using e(3) by (simp add: entries_def)
  next
    assume "p \<in> entries isz"
    then have a: "fst p < length isz" "snd p < isz ! fst p" by (auto simp: entries_def)
    obtain q where q: "q < length alg" "op (alg ! q) = OP_INPUT" "arg_i0 (alg ! q) = fst p"
        "arg_i1 (alg ! q) = snd p"
      using i a unfolding inputs_ok_def by blast
    have "alg ! q \<in> {e \<in> set alg. op e = OP_INPUT}" using q by simp
    moreover have "(\<lambda>e. (arg_i0 e, arg_i1 e)) (alg ! q) = p" using q by simp
    ultimately show "p \<in> in_entries alg" unfolding in_entries_def by (metis (no_types, lifting) image_eqI)
  qed
qed

lemma n_builtin_simps [simp]:
  "n_builtin [] = 0"
  "n_builtin (e # L) = (if is_builtin (op e) then 1 else 0) + n_builtin L"
  "n_builtin (L @ M) = n_builtin L + n_builtin M"
  "n_builtin (rev L) = n_builtin L"
proof -
  show "n_builtin [] = 0" by (simp add: n_builtin_def)
  show "n_builtin (e # L) = (if is_builtin (op e) then 1 else 0) + n_builtin L"
    by (simp add: n_builtin_def)
  show "n_builtin (L @ M) = n_builtin L + n_builtin M" by (simp add: n_builtin_def)
  have "filter (\<lambda>e. is_builtin (op e)) (rev L) = rev (filter (\<lambda>e. is_builtin (op e)) L)"
    by (simp add: rev_filter)
  then show "n_builtin (rev L) = n_builtin L" by (simp add: n_builtin_def)
qed

lemma finite_entries [simp]: "finite (out_entries L)" "finite (in_entries L)"
  by (simp_all add: out_entries_def in_entries_def)

lemma out_entries_Cons:
  "out_entries (e # L) = (if op e = OP_OUTPUT then insert (res e, arg_i1 e) (out_entries L) else out_entries L)"
  by (auto simp: out_entries_def)

lemma in_entries_Cons:
  "in_entries (e # L) = (if op e = OP_INPUT then insert (arg_i0 e, arg_i1 e) (in_entries L) else in_entries L)"
  by (auto simp: in_entries_def)

lemma entries_Nil [simp]: "out_entries [] = {}" "in_entries [] = {}"
  by (simp_all add: out_entries_def in_entries_def)

lemma bsum_empty [simp]: "bsum {} a b = 0"
  by (simp add: bsum_def)

lemma bsum_insert:
  assumes "finite S" and "p \<notin> S"
  shows "bsum (insert p S) a b = a ! fst p ! snd p * b ! fst p ! snd p + bsum S a b"
  using assms by (simp add: bsum_def)

lemma bsum_cong_right:
  assumes "\<forall>p \<in> S. b ! fst p ! snd p = c ! fst p ! snd p"
  shows "bsum S a b = bsum S a c"
  unfolding bsum_def using assms by (intro sum.cong) simp_all

lemma adj_dir_step_const:
  "op e = OP_CONST \<Longrightarrow> adj_dir_step tape seed e (w, s, n) = (w[res e := 0], s, n)"
  by (simp add: adj_dir_step_def)

lemma adj_dir_step_output:
  "op e = OP_OUTPUT \<Longrightarrow>
   adj_dir_step tape seed e (w, s, n) = (w[arg_i0 e := w ! arg_i0 e + seed ! res e ! arg_i1 e], s, n)"
  by (simp add: adj_dir_step_def)

lemma adj_dir_step_builtin:
  "is_builtin (op e) \<Longrightarrow>
   adj_dir_step tape seed e (w, s, n) =
     (let sd = w ! res e;
          w0 = w[res e := 0];
          w1 = w0[arg_i0 e := w0 ! arg_i0 e + fst (rev tape ! n) * sd];
          w2 = w1[arg_i1 e := w1 ! arg_i1 e + snd (rev tape ! n) * sd]
      in (w2, s, Suc n))"
  by (cases "op e") (simp_all add: adj_dir_step_def)

lemma fwd_dir_step_const:
  "op e = OP_CONST \<Longrightarrow> fwd_dir_step tape seed e (w, s, n) = (w[res e := 0], s, n)"
  by (simp add: fwd_dir_step_def)

lemma fwd_dir_step_input:
  "op e = OP_INPUT \<Longrightarrow>
   fwd_dir_step tape seed e (w, s, n) = (w[res e := seed ! arg_i0 e ! arg_i1 e], s, n)"
  by (simp add: fwd_dir_step_def)

lemma fwd_dir_step_output:
  "op e = OP_OUTPUT \<Longrightarrow>
   fwd_dir_step tape seed e (w, s, n) = (w, upd2 s (res e) (arg_i1 e) (w ! arg_i0 e), n)"
  by (simp add: fwd_dir_step_def)

lemma adj_dir_step_shape:
  "length (fst (adj_dir_step tape seed e (w, s, n))) = length w"
  "map length (fst (snd (adj_dir_step tape seed e (w, s, n)))) = map length s"
  by (cases "op e"; simp add: adj_dir_step_def Let_def)+

lemma adj_dir_fold_shape:
  "length (fst (fold (adj_dir_step tape seed) L (w, s, n))) = length w
   \<and> map length (fst (snd (fold (adj_dir_step tape seed) L (w, s, n)))) = map length s"
proof (induction L arbitrary: w s n)
  case Nil
  then show ?case by simp
next
  case (Cons e L)
  obtain w' s' n' where r: "adj_dir_step tape seed e (w, s, n) = (w', s', n')"
    by (cases "adj_dir_step tape seed e (w, s, n)")
  have "length w' = length w" "map length s' = map length s"
    using adj_dir_step_shape [of tape seed e w s n] r by simp_all
  then show ?case using Cons.IH [of w' s' n'] r by simp
qed

lemma adj_dir_step_count:
  "op e \<noteq> OP_PARAMETER \<Longrightarrow>
   snd (snd (adj_dir_step tape seed e (w, s, n))) = n + (if is_builtin (op e) then 1 else 0)"
  by (cases "op e") (simp_all add: adj_dir_step_def Let_def)

lemma adj_dir_fold_count:
  "\<forall>e \<in> set L. op e \<noteq> OP_PARAMETER \<Longrightarrow>
   snd (snd (fold (adj_dir_step tape seed) L (w, s, n))) = n + n_builtin L"
proof (induction L arbitrary: w s n)
  case Nil
  then show ?case by simp
next
  case (Cons e L)
  obtain w' s' n' where r: "adj_dir_step tape seed e (w, s, n) = (w', s', n')"
    by (cases "adj_dir_step tape seed e (w, s, n)")
  have "n' = n + (if is_builtin (op e) then 1 else 0)"
    using adj_dir_step_count [of e tape seed w s n] Cons.prems r by simp
  then show ?case using Cons.IH [of w' s' n'] Cons.prems r by simp
qed

lemma fwd_dir_step_frame:
  assumes "op e = OP_OUTPUT \<longrightarrow> (res e, arg_i1 e) \<noteq> (i, j)"
  shows "fst (snd (fwd_dir_step tape seed e (w, s, n))) ! i ! j = s ! i ! j"
  using assms by (cases "op e") (auto simp add: fwd_dir_step_def upd2_nth)

lemma fwd_dir_fold_frame:
  "(i, j) \<notin> out_entries L \<Longrightarrow>
   fst (snd (fold (fwd_dir_step tape seed) L (w, s, n))) ! i ! j = s ! i ! j"
proof (induction L arbitrary: w s n)
  case Nil
  then show ?case by simp
next
  case (Cons e L)
  obtain w' s' n' where r: "fwd_dir_step tape seed e (w, s, n) = (w', s', n')"
    by (cases "fwd_dir_step tape seed e (w, s, n)")
  have a: "op e = OP_OUTPUT \<longrightarrow> (res e, arg_i1 e) \<noteq> (i, j)"
    and b: "(i, j) \<notin> out_entries L"
    using Cons.prems by (auto simp: out_entries_Cons split: if_splits)
  have "s' ! i ! j = s ! i ! j" using fwd_dir_step_frame [OF a, of tape seed w s n] r by simp
  then show ?case using Cons.IH [OF b, of w' s' n'] r by simp
qed

lemma fwd_dir_step_shape:
  "length (fst (fwd_dir_step tape seed e (w, s, n))) = length w"
  "map length (fst (snd (fwd_dir_step tape seed e (w, s, n)))) = map length s"
  by (cases "op e"; simp add: fwd_dir_step_def)+

lemma fwd_dir_step_count:
  "op e \<noteq> OP_PARAMETER \<Longrightarrow>
   snd (snd (fwd_dir_step tape seed e (w, s, n))) = n + (if is_builtin (op e) then 1 else 0)"
  by (cases "op e") (simp_all add: fwd_dir_step_def)

lemma suffix_nth:
  assumes "alg = pre @ e # suf" and "e' \<in> set suf"
  shows "\<exists>q. length pre < q \<and> q < length alg \<and> alg ! q = e'"
proof -
  obtain m where m: "m < length suf" "suf ! m = e'" using assms(2) by (auto simp: in_set_conv_nth)
  have "alg ! (length pre + Suc m) = e'" using assms(1) m by (simp add: nth_append)
  moreover have "length pre < length pre + Suc m" "length pre + Suc m < length alg"
    using assms(1) m by simp_all
  ultimately show ?thesis by blast
qed

lemma out_entry_fresh:
  assumes o: "outputs_ok alg osz" and alg: "alg = pre @ e # suf" and oe: "op e = OP_OUTPUT"
  shows "(res e, arg_i1 e) \<notin> out_entries suf"
proof
  assume "(res e, arg_i1 e) \<in> out_entries suf"
  then obtain e' where e': "e' \<in> set suf" "op e' = OP_OUTPUT" "res e' = res e" "arg_i1 e' = arg_i1 e"
    unfolding out_entries_def by auto
  obtain q where q: "length pre < q" "q < length alg" "alg ! q = e'"
    using suffix_nth [OF alg e'(1)] by blast
  have p: "length pre < length alg" "alg ! length pre = e" using alg by simp_all
  have "\<forall>p < length alg. \<forall>q < length alg.
            op (alg ! p) = OP_OUTPUT \<and> op (alg ! q) = OP_OUTPUT
            \<and> res (alg ! p) = res (alg ! q) \<and> arg_i1 (alg ! p) = arg_i1 (alg ! q) \<longrightarrow> p = q"
    using o unfolding outputs_ok_def by blast
  then have "length pre = q" using p q e' oe by metis
  then show False using q(1) by simp
qed

lemma in_entry_fresh:
  assumes i: "inputs_ok alg isz" and alg: "alg = pre @ e # suf" and oe: "op e = OP_INPUT"
  shows "(arg_i0 e, arg_i1 e) \<notin> in_entries suf"
proof
  assume "(arg_i0 e, arg_i1 e) \<in> in_entries suf"
  then obtain e' where e': "e' \<in> set suf" "op e' = OP_INPUT" "arg_i0 e' = arg_i0 e" "arg_i1 e' = arg_i1 e"
    unfolding in_entries_def by auto
  obtain q where q: "length pre < q" "q < length alg" "alg ! q = e'"
    using suffix_nth [OF alg e'(1)] by blast
  have p: "length pre < length alg" "alg ! length pre = e" using alg by simp_all
  have "\<forall>p < length alg. \<forall>q < length alg.
            op (alg ! p) = OP_INPUT \<and> op (alg ! q) = OP_INPUT
            \<and> arg_i0 (alg ! p) = arg_i0 (alg ! q) \<and> arg_i1 (alg ! p) = arg_i1 (alg ! q) \<longrightarrow> p = q"
    using i unfolding inputs_ok_def by blast
  then have "length pre = q" using p q e' oe by metis
  then show False using q(1) by simp
qed

lemma operand_in_work:
  assumes w: "alg_wf alg ws" and p: "p < length alg"
  shows "is_builtin (op (alg ! p)) \<or> op (alg ! p) = OP_OUTPUT \<Longrightarrow> arg_i0 (alg ! p) < ws"
    and "is_builtin (op (alg ! p)) \<Longrightarrow> arg_i1 (alg ! p) < ws"
proof -
  {
    assume "is_builtin (op (alg ! p)) \<or> op (alg ! p) = OP_OUTPUT"
    then obtain q where q: "q < p" "op (alg ! q) \<noteq> OP_OUTPUT" "res (alg ! q) = arg_i0 (alg ! p)"
      using alg_wf_operands(1) [OF w p] by blast
    have "q < length alg" using q(1) p by simp
    then show "arg_i0 (alg ! p) < ws" using alg_wf_operands(3) [OF w] q by metis
  next
    assume "is_builtin (op (alg ! p))"
    then obtain q where q: "q < p" "op (alg ! q) \<noteq> OP_OUTPUT" "res (alg ! q) = arg_i1 (alg ! p)"
      using alg_wf_operands(2) [OF w p] by blast
    have "q < length alg" using q(1) p by simp
    then show "arg_i1 (alg ! p) < ws" using alg_wf_operands(3) [OF w] q by metis
  }
qed

text \<open>
  One instruction as a linear map on the work vector, forward, against its transpose,
  adjoint.
\<close>

lemma vdot_builtin_transpose:
  fixes a wv :: "'a::comm_semiring_0 list"
  assumes r: "r < ws" and a0: "a0 < ws" and a1: "a1 < ws"
      and la: "length a = ws" and lw: "length wv = ws"
  shows "vdot ws a (wv[r := d0 * wv ! a0 + d1 * wv ! a1])
         = vdot ws (let sd = a ! r; t0 = a[r := 0];
                        t1 = t0[a0 := t0 ! a0 + d0 * sd]
                    in t1[a1 := t1 ! a1 + d1 * sd]) wv"
proof -
  let ?sd = "a ! r"
  let ?t0 = "a[r := 0]"
  let ?t1 = "?t0[a0 := ?t0 ! a0 + d0 * ?sd]"
  let ?t2 = "?t1[a1 := ?t1 ! a1 + d1 * ?sd]"
  have l0: "length ?t0 = ws" and l1: "length ?t1 = ws" using la by simp_all
  have e1: "vdot ws a (wv[r := d0 * wv ! a0 + d1 * wv ! a1])
            = vdot ws ?t0 wv + ?sd * (d0 * wv ! a0 + d1 * wv ! a1)"
    using r la lw by (rule vdot_write_clear)
  have e2: "vdot ws ?t1 wv = vdot ws ?t0 wv + (d0 * ?sd) * wv ! a0"
    using a0 l0 by (rule vdot_add_left)
  have e3: "vdot ws ?t2 wv = vdot ws ?t1 wv + (d1 * ?sd) * wv ! a1"
    using a1 l1 by (rule vdot_add_left)
  have "vdot ws ?t2 wv = vdot ws a (wv[r := d0 * wv ! a0 + d1 * wv ! a1])"
    unfolding e1 e2 e3 by (simp add: algebra_simps)
  then show ?thesis by (simp add: Let_def)
qed

lemma duality_suffix:
  fixes alg :: "'a::comm_semiring_0 SXAlgEl list"
  assumes w: "alg_wf alg ws" and nopar: "\<forall>p < length alg. op (alg ! p) \<noteq> OP_PARAMETER"
      and o: "outputs_ok alg osz" and i: "inputs_ok alg isz"
      and lt: "length tape = n_builtin alg"
  shows "alg = pre @ suf \<Longrightarrow> length wv = ws \<Longrightarrow> map length y = osz \<Longrightarrow>
      bsum (out_entries suf) ybar
        (fst (snd (fold (fwd_dir_step tape x) suf (wv, y, n_builtin pre))))
      = vdot ws (fst (fold (adj_dir_step tape ybar) (rev suf) (replicate ws 0, zero_bundle isz, 0))) wv
        + bsum (in_entries suf) x
            (fst (snd (fold (adj_dir_step tape ybar) (rev suf) (replicate ws 0, zero_bundle isz, 0))))"
proof (induction suf arbitrary: pre wv y)
  case Nil
  then show ?case by simp
next
  case (Cons e suf)
  let ?p = "length pre"
  let ?j = "n_builtin pre"
  let ?init = "(replicate ws (0::'a), zero_bundle isz :: 'a list list, 0::nat)"
  have alg: "alg = pre @ e # suf" using Cons.prems(1) .
  have alg': "alg = (pre @ [e]) @ suf" using alg by simp
  have p: "?p < length alg" and ep: "alg ! ?p = e" using alg by simp_all
  have np: "op e \<noteq> OP_PARAMETER" using nopar p ep by blast
  have lw: "length wv = ws" using Cons.prems(2) .
  have shy: "map length y = osz" using Cons.prems(3) .
  \<comment> \<open>the adjoint sweep of the instructions after \<open>e\<close>\<close>
  obtain a' xb' k' where ad: "fold (adj_dir_step tape ybar) (rev suf) ?init = (a', xb', k')"
    by (cases "fold (adj_dir_step tape ybar) (rev suf) ?init")
  have la: "length a' = ws" and shx: "map length xb' = isz"
    using adj_dir_fold_shape [of tape ybar "rev suf" "replicate ws 0" "zero_bundle isz" 0] ad by simp_all
  have nps: "\<forall>e' \<in> set (rev suf). op e' \<noteq> OP_PARAMETER"
  proof
    fix e' assume "e' \<in> set (rev suf)"
    then have "e' \<in> set suf" by simp
    then obtain q where "q < length alg" "alg ! q = e'" using suffix_nth [OF alg] by blast
    then show "op e' \<noteq> OP_PARAMETER" using nopar by blast
  qed
  have k': "k' = n_builtin suf"
    using adj_dir_fold_count [OF nps, of tape ybar "replicate ws 0" "zero_bundle isz" 0] ad by simp
  have ade: "fold (adj_dir_step tape ybar) (rev (e # suf)) ?init = adj_dir_step tape ybar e (a', xb', k')"
    using ad by simp
  \<comment> \<open>the forward step of \<open>e\<close>\<close>
  obtain w1 y1 j1 where fs: "fwd_dir_step tape x e (wv, y, ?j) = (w1, y1, j1)"
    by (cases "fwd_dir_step tape x e (wv, y, ?j)")
  have lw1: "length w1 = ws" and shy1: "map length y1 = osz"
    using fwd_dir_step_shape [of tape x e wv y ?j] fs lw shy by simp_all
  have j1: "j1 = n_builtin (pre @ [e])"
    using fwd_dir_step_count [OF np, of tape x wv y ?j] fs by simp
  let ?Y = "fst (snd (fold (fwd_dir_step tape x) suf (w1, y1, n_builtin (pre @ [e]))))"
  have fwe: "fold (fwd_dir_step tape x) (e # suf) (wv, y, ?j)
             = fold (fwd_dir_step tape x) suf (w1, y1, n_builtin (pre @ [e]))"
    using fs j1 by simp
  have ih: "bsum (out_entries suf) ybar ?Y = vdot ws a' w1 + bsum (in_entries suf) x xb'"
    using Cons.IH [OF alg' lw1 shy1] ad by simp
  consider (c) "op e = OP_CONST" | (i) "op e = OP_INPUT" | (ou) "op e = OP_OUTPUT" | (b) "is_builtin (op e)"
    using opcode_kinds [of "op e"] np by blast
  then have "bsum (out_entries (e # suf)) ybar ?Y
      = vdot ws (fst (adj_dir_step tape ybar e (a', xb', k'))) wv
        + bsum (in_entries (e # suf)) x (fst (snd (adj_dir_step tape ybar e (a', xb', k'))))"
  proof cases
    case c
    have r: "res e < ws" using alg_wf_operands(3) [OF w p] ep c by simp
    have f1: "w1 = wv[res e := 0]" using fs c by (simp add: fwd_dir_step_const)
    have a1: "adj_dir_step tape ybar e (a', xb', k') = (a'[res e := 0], xb', k')"
      using c by (rule adj_dir_step_const)
    have "vdot ws a' (wv[res e := 0]) = vdot ws (a'[res e := 0]) wv + a' ! res e * 0"
      using r la lw by (rule vdot_write_clear)
    then have v: "vdot ws a' w1 = vdot ws (a'[res e := 0]) wv" using f1 by simp
    show ?thesis unfolding a1 using ih v c by (simp add: out_entries_Cons in_entries_Cons)
  next
    case i
    have r: "res e < ws" using alg_wf_operands(3) [OF w p] ep i by simp
    have b: "arg_i0 e < length isz" "arg_i1 e < isz ! arg_i0 e"
      using inputs_okD [OF \<open>inputs_ok alg isz\<close> p] ep i by simp_all
    let ?v = "x ! arg_i0 e ! arg_i1 e"
    let ?xb = "upd2 xb' (arg_i0 e) (arg_i1 e) (a' ! res e)"
    have f1: "w1 = wv[res e := ?v]" using fs i by (simp add: fwd_dir_step_input)
    have a1: "adj_dir_step tape ybar e (a', xb', k') = (a'[res e := 0], ?xb, k')"
      using i by (rule adj_dir_step_input)
    have "vdot ws a' (wv[res e := ?v]) = vdot ws (a'[res e := 0]) wv + a' ! res e * ?v"
      using r la lw by (rule vdot_write_clear)
    then have v: "vdot ws a' w1 = vdot ws (a'[res e := 0]) wv + a' ! res e * ?v" using f1 by simp
    have fresh: "(arg_i0 e, arg_i1 e) \<notin> in_entries suf"
      using \<open>inputs_ok alg isz\<close> alg i by (rule in_entry_fresh)
    have inb: "arg_i0 e < length xb' \<and> arg_i1 e < length (xb' ! arg_i0 e)"
      using shape_nth [OF shx b(1)] b by simp
    have new: "?xb ! arg_i0 e ! arg_i1 e = a' ! res e" using inb by (simp add: upd2_nth)
    have old: "\<forall>q \<in> in_entries suf. ?xb ! fst q ! snd q = xb' ! fst q ! snd q"
    proof
      fix q assume "q \<in> in_entries suf"
      then have "q \<noteq> (arg_i0 e, arg_i1 e)" using fresh by auto
      then have "\<not> (arg_i0 e = fst q \<and> arg_i1 e = snd q)" by (cases q) auto
      then show "?xb ! fst q ! snd q = xb' ! fst q ! snd q" by (auto simp add: upd2_nth)
    qed
    have "bsum (insert (arg_i0 e, arg_i1 e) (in_entries suf)) x ?xb
          = x ! fst (arg_i0 e, arg_i1 e) ! snd (arg_i0 e, arg_i1 e)
              * ?xb ! fst (arg_i0 e, arg_i1 e) ! snd (arg_i0 e, arg_i1 e)
            + bsum (in_entries suf) x ?xb"
      using finite_entries(2) fresh by (rule bsum_insert)
    also have "\<dots> = ?v * a' ! res e + bsum (in_entries suf) x xb'"
      using new bsum_cong_right [OF old, of x] by simp
    finally have s: "bsum (in_entries (e # suf)) x ?xb = ?v * a' ! res e + bsum (in_entries suf) x xb'"
      using i by (simp add: in_entries_Cons)
    have oe: "out_entries (e # suf) = out_entries suf" using i by (simp add: out_entries_Cons)
    show ?thesis unfolding a1 oe fst_conv snd_conv s using ih v by (simp add: algebra_simps)
  next
    case ou
    have b: "res e < length osz" "arg_i1 e < osz ! res e"
      using outputs_okD [OF o p] ep ou by simp_all
    have a0: "arg_i0 e < ws" using operand_in_work(1) [OF w p] ep ou by simp
    let ?s = "ybar ! res e ! arg_i1 e"
    have fo: "fwd_dir_step tape x e (wv, y, ?j) = (wv, upd2 y (res e) (arg_i1 e) (wv ! arg_i0 e), ?j)"
      using ou by (rule fwd_dir_step_output)
    have "(w1, y1, j1) = (wv, upd2 y (res e) (arg_i1 e) (wv ! arg_i0 e), ?j)"
      using fs [symmetric] fo by (rule trans)
    then have f1: "w1 = wv" and f2: "y1 = upd2 y (res e) (arg_i1 e) (wv ! arg_i0 e)"
      by simp_all
    have a1: "adj_dir_step tape ybar e (a', xb', k') = (a'[arg_i0 e := a' ! arg_i0 e + ?s], xb', k')"
      using ou by (rule adj_dir_step_output)
    have v: "vdot ws (a'[arg_i0 e := a' ! arg_i0 e + ?s]) wv = vdot ws a' wv + ?s * wv ! arg_i0 e"
      using a0 la by (rule vdot_add_left)
    have fresh: "(res e, arg_i1 e) \<notin> out_entries suf" using o alg ou by (rule out_entry_fresh)
    have inb: "res e < length y \<and> arg_i1 e < length (y ! res e)"
      using shape_nth [OF shy b(1)] b by simp
    have "?Y ! res e ! arg_i1 e = y1 ! res e ! arg_i1 e" using fresh by (rule fwd_dir_fold_frame)
    then have new: "?Y ! res e ! arg_i1 e = wv ! arg_i0 e" using f2 inb by (simp add: upd2_nth)
    have "bsum (insert (res e, arg_i1 e) (out_entries suf)) ybar ?Y
          = ybar ! fst (res e, arg_i1 e) ! snd (res e, arg_i1 e)
              * ?Y ! fst (res e, arg_i1 e) ! snd (res e, arg_i1 e)
            + bsum (out_entries suf) ybar ?Y"
      using finite_entries(1) fresh by (rule bsum_insert)
    then have s: "bsum (out_entries (e # suf)) ybar ?Y = ?s * wv ! arg_i0 e + bsum (out_entries suf) ybar ?Y"
      using new ou by (simp add: out_entries_Cons)
    have ie: "in_entries (e # suf) = in_entries suf" using ou by (simp add: in_entries_Cons)
    show ?thesis unfolding a1 ie fst_conv snd_conv s v using ih f1 by (simp add: algebra_simps)
  next
    case b
    have nx: "op e \<noteq> OP_OUTPUT" "op e \<noteq> OP_INPUT" using is_builtin_simps2 [OF b] by simp_all
    have r: "res e < ws" using alg_wf_operands(3) [OF w p] ep nx by simp
    have a0: "arg_i0 e < ws" using operand_in_work(1) [OF w p] ep b by simp
    have a1: "arg_i1 e < ws" using operand_in_work(2) [OF w p] ep b by simp
    have "n_builtin alg = ?j + 1 + k'" using alg b k' by simp
    then have kl: "k' < length tape" and idx: "length tape - Suc k' = ?j" using lt by simp_all
    have rt: "rev tape ! k' = tape ! ?j" using rev_nth [OF kl] idx by simp
    let ?d0 = "fst (tape ! ?j)" and ?d1 = "snd (tape ! ?j)"
    have f1: "w1 = wv[res e := ?d0 * wv ! arg_i0 e + ?d1 * wv ! arg_i1 e]"
      using fs fwd_dir_step_builtin [OF b, of tape x wv y ?j] by simp
    let ?a = "let sd = a' ! res e; t0 = a'[res e := 0];
                  t1 = t0[arg_i0 e := t0 ! arg_i0 e + ?d0 * sd]
              in t1[arg_i1 e := t1 ! arg_i1 e + ?d1 * sd]"
    have ast: "adj_dir_step tape ybar e (a', xb', k') = (?a, xb', Suc k')"
      using adj_dir_step_builtin [OF b, of tape ybar a' xb' k'] rt by (simp add: Let_def)
    have v: "vdot ws a' w1 = vdot ws ?a wv"
      unfolding f1 using r a0 a1 la lw by (rule vdot_builtin_transpose)
    have oe: "out_entries (e # suf) = out_entries suf" using nx by (simp add: out_entries_Cons)
    have ie: "in_entries (e # suf) = in_entries suf" using nx by (simp add: in_entries_Cons)
    show ?thesis unfolding ast oe ie fst_conv snd_conv using ih v by simp
  qed
  then show ?case unfolding fwe ade .
qed


section \<open>Sweeps of a direction with all-zero seeds\<close>

text \<open>
  The laws of arithmetic used here are hypotheses on the values met: \<open>0 + 0 = 0\<close>, and
  \<open>p * 0 = 0\<close> for the local partials \<open>p\<close> on the tape.
\<close>

lemma n_builtin_index:
  assumes "alg = xs @ x # suf" and "is_builtin (op x)" and "n_builtin alg \<le> length tape"
  shows "n_builtin xs < length tape"
  using assms by simp

lemma list_update_zero_vec:
  fixes w :: "'a::zero list"
  assumes "\<forall>s < length w. w ! s = 0" and "k < length w \<longrightarrow> v = 0"
  shows "w[k := v] = w"
proof (cases "k < length w")
  case True
  then show ?thesis using assms list_update_zero_id [of w k] by simp
next
  case False
  then show ?thesis by (simp add: list_update_beyond)
qed

lemma fwd_dir_prefix_zero:
  fixes alg :: "'a::{zero,plus,times} SXAlgEl list"
  assumes w: "alg_wf alg ws" and nopar: "\<forall>p < length alg. op (alg ! p) \<noteq> OP_PARAMETER"
      and o: "outputs_ok alg osz" and i: "inputs_ok alg isz"
      and l1: "length w1 = ws" and s1: "map length s1 = osz"
      and z: "\<forall>i < length isz. \<forall>j < isz ! i. seed ! i ! j = 0"
      and z1: "(0::'a) + 0 = 0"
      and z2: "\<forall>d \<in> set tape. fst d * 0 = 0 \<and> snd d * 0 = 0"
      and lt: "n_builtin alg \<le> length tape"
  shows "alg = pre @ suf \<Longrightarrow>
     (\<exists>wa sa.
        fold (fwd_dir_step tape seed) pre (w1, s1, 0) = (wa, sa, n_builtin pre)
        \<and> length wa = ws \<and> map length sa = osz
        \<and> (\<forall>q < length pre. op (alg ! q) \<noteq> OP_OUTPUT \<longrightarrow> wa ! res (alg ! q) = 0)
        \<and> (\<forall>q < length pre. op (alg ! q) = OP_OUTPUT \<longrightarrow> sa ! res (alg ! q) ! arg_i1 (alg ! q) = 0))"
proof (induction pre arbitrary: suf rule: rev_induct)
  case Nil
  then show ?case using l1 s1 by simp
next
  case (snoc x xs)
  let ?k = "length xs"
  let ?na = "n_builtin xs"
  have alg: "alg = xs @ x # suf" using snoc.prems by simp
  have k: "?k < length alg" and xk: "alg ! ?k = x" using alg by simp_all
  obtain wa sa where
    ra: "fold (fwd_dir_step tape seed) xs (w1, s1, 0) = (wa, sa, ?na)"
    and la: "length wa = ws"
    and sha: "map length sa = osz"
    and agw: "\<forall>q < ?k. op (alg ! q) \<noteq> OP_OUTPUT \<longrightarrow> wa ! res (alg ! q) = 0"
    and ags: "\<forall>q < ?k. op (alg ! q) = OP_OUTPUT \<longrightarrow> sa ! res (alg ! q) ! arg_i1 (alg ! q) = 0"
    using snoc.IH [OF alg] by blast
  have wr: "op x \<noteq> OP_OUTPUT \<Longrightarrow>
     (\<forall>q < Suc ?k. op (alg ! q) \<noteq> OP_OUTPUT \<longrightarrow> wa[res x := 0] ! res (alg ! q) = 0)
     \<and> (\<forall>q < Suc ?k. op (alg ! q) = OP_OUTPUT \<longrightarrow> sa ! res (alg ! q) ! arg_i1 (alg ! q) = 0)"
  proof (intro conjI allI impI)
    fix q assume nx: "op x \<noteq> OP_OUTPUT" and q: "q < Suc ?k" and nq: "op (alg ! q) \<noteq> OP_OUTPUT"
    have r: "res x < ws" using alg_wf_operands(3) [OF w k] xk nx by simp
    show "wa[res x := 0] ! res (alg ! q) = 0"
    proof (cases "res (alg ! q) = res x")
      case True
      then show ?thesis using r la by simp
    next
      case False
      then have "q < ?k" using q xk by (cases "q = ?k") simp_all
      then show ?thesis using agw nq False by simp
    qed
  next
    fix q assume nx: "op x \<noteq> OP_OUTPUT" and q: "q < Suc ?k" and oq: "op (alg ! q) = OP_OUTPUT"
    have "q < ?k" using q xk nx oq by (cases "q = ?k") simp_all
    then show "sa ! res (alg ! q) ! arg_i1 (alg ! q) = 0" using ags oq by blast
  qed
  have fa: "fold (fwd_dir_step tape seed) (xs @ [x]) (w1, s1, 0) = fwd_dir_step tape seed x (wa, sa, ?na)"
    using ra by simp
  have np: "op x \<noteq> OP_PARAMETER" using nopar k xk by blast
  consider (c) "op x = OP_CONST" | (i) "op x = OP_INPUT" | (ou) "op x = OP_OUTPUT" | (b) "is_builtin (op x)"
    using opcode_kinds [of "op x"] np by blast
  then show ?case
  proof cases
    case c
    have sa': "fwd_dir_step tape seed x (wa, sa, ?na) = (wa[res x := 0], sa, n_builtin (xs @ [x]))"
      using c by (simp add: fwd_dir_step_def)
    show ?thesis unfolding fa sa' using wr c la sha by simp
  next
    case i
    have "arg_i0 x < length isz" "arg_i1 x < isz ! arg_i0 x"
      using inputs_okD [OF \<open>inputs_ok alg isz\<close> k] i xk by simp_all
    then have v: "seed ! arg_i0 x ! arg_i1 x = 0" using z by blast
    have sa': "fwd_dir_step tape seed x (wa, sa, ?na) = (wa[res x := 0], sa, n_builtin (xs @ [x]))"
      using i v by (simp add: fwd_dir_step_def)
    show ?thesis unfolding fa sa' using wr i la sha by simp
  next
    case b
    have nx: "op x \<noteq> OP_OUTPUT" using is_builtin_simps2 [OF b] by simp
    have "\<exists>q < ?k. op (alg ! q) \<noteq> OP_OUTPUT \<and> res (alg ! q) = arg_i0 x"
      using alg_wf_operands(1) [OF w k] b xk by simp
    then have e0: "wa ! arg_i0 x = 0" using agw by metis
    have "\<exists>q < ?k. op (alg ! q) \<noteq> OP_OUTPUT \<and> res (alg ! q) = arg_i1 x"
      using alg_wf_operands(2) [OF w k] b xk by simp
    then have e1: "wa ! arg_i1 x = 0" using agw by metis
    have "?na < length tape" using alg b lt by (rule n_builtin_index)
    then have "tape ! ?na \<in> set tape" by simp
    then have p: "fst (tape ! ?na) * 0 = 0" "snd (tape ! ?na) * 0 = 0" using z2 by blast+
    have v: "fst (tape ! ?na) * (wa ! arg_i0 x) + snd (tape ! ?na) * (wa ! arg_i1 x) = 0"
      unfolding e0 e1 p using z1 .
    have sa': "fwd_dir_step tape seed x (wa, sa, ?na) = (wa[res x := 0], sa, n_builtin (xs @ [x]))"
      using fwd_dir_step_builtin [OF b, of tape seed wa sa ?na] v b by simp
    show ?thesis unfolding fa sa' using wr nx la sha by simp
  next
    case ou
    have "\<exists>q < ?k. op (alg ! q) \<noteq> OP_OUTPUT \<and> res (alg ! q) = arg_i0 x"
      using alg_wf_operands(1) [OF w k] ou xk by simp
    then have e0: "wa ! arg_i0 x = 0" using agw by metis
    have sa': "fwd_dir_step tape seed x (wa, sa, ?na)
               = (wa, upd2 sa (res x) (arg_i1 x) 0, n_builtin (xs @ [x]))"
      using ou e0 by (simp add: fwd_dir_step_def)
    have c1: "\<forall>q < Suc ?k. op (alg ! q) \<noteq> OP_OUTPUT \<longrightarrow> wa ! res (alg ! q) = 0"
    proof (intro allI impI)
      fix q assume q: "q < Suc ?k" and nq: "op (alg ! q) \<noteq> OP_OUTPUT"
      have "q < ?k" using q xk ou nq by (cases "q = ?k") simp_all
      then show "wa ! res (alg ! q) = 0" using agw nq by blast
    qed
    have ro: "res x < length osz" and zo: "arg_i1 x < osz ! res x"
      using outputs_okD [OF o k] ou xk by simp_all
    have ina: "res x < length sa \<and> arg_i1 x < length (sa ! res x)"
      using shape_nth [OF sha ro] ro zo by simp
    have c2: "\<forall>q < Suc ?k. op (alg ! q) = OP_OUTPUT \<longrightarrow>
              upd2 sa (res x) (arg_i1 x) 0 ! res (alg ! q) ! arg_i1 (alg ! q) = 0"
    proof (intro allI impI)
      fix q assume q: "q < Suc ?k" and oq: "op (alg ! q) = OP_OUTPUT"
      show "upd2 sa (res x) (arg_i1 x) 0 ! res (alg ! q) ! arg_i1 (alg ! q) = 0"
      proof (cases "res x = res (alg ! q) \<and> arg_i1 x = arg_i1 (alg ! q)")
        case True
        then show ?thesis using ina by (simp add: upd2_nth)
      next
        case False
        then have "q \<noteq> ?k" using xk by auto
        then have "q < ?k" using q by simp
        then have "sa ! res (alg ! q) ! arg_i1 (alg ! q) = 0" using ags oq by blast
        then show ?thesis using False by (auto simp add: upd2_nth)
      qed
    qed
    show ?thesis unfolding fa sa' using c1 c2 la sha by simp
  qed
qed

lemma fwd_dir_zero:
  fixes alg :: "'a::{zero,plus,times} SXAlgEl list"
  assumes w: "alg_wf alg ws" and nopar: "\<forall>p < length alg. op (alg ! p) \<noteq> OP_PARAMETER"
      and o: "outputs_ok alg osz" and i: "inputs_ok alg isz"
      and l1: "length w1 = ws" and s1: "map length s1 = osz"
      and z: "\<forall>i < length isz. \<forall>j < isz ! i. seed ! i ! j = 0"
      and z1: "(0::'a) + 0 = 0"
      and z2: "\<forall>d \<in> set tape. fst d * 0 = 0 \<and> snd d * 0 = 0"
      and lt: "n_builtin alg \<le> length tape"
  shows "fst (snd (fold (fwd_dir_step tape seed) alg (w1, s1, 0))) = zero_bundle osz"
proof -
  obtain wa sa where
    ra: "fold (fwd_dir_step tape seed) alg (w1, s1, 0) = (wa, sa, n_builtin alg)"
    and sha: "map length sa = osz"
    and ags: "\<forall>q < length alg. op (alg ! q) = OP_OUTPUT \<longrightarrow> sa ! res (alg ! q) ! arg_i1 (alg ! q) = 0"
    using fwd_dir_prefix_zero [OF w nopar o i l1 s1 z z1 z2 lt, of alg "[]"] by auto
  have "\<forall>i < length osz. \<forall>j < osz ! i. sa ! i ! j = 0"
  proof (intro allI impI)
    fix i j assume i: "i < length osz" and j: "j < osz ! i"
    obtain p where "p < length alg" "op (alg ! p) = OP_OUTPUT" "res (alg ! p) = i" "arg_i1 (alg ! p) = j"
      using o i j unfolding outputs_ok_def by blast
    then show "sa ! i ! j = 0" using ags by blast
  qed
  then have "sa = zero_bundle osz" using zero_bundle_eqI [OF sha] by blast
  then show ?thesis using ra by simp
qed

lemma adj_dir_step_zero:
  fixes e :: "'a::{zero,plus,times} SXAlgEl"
  assumes z: "\<forall>s < length w. w ! s = 0"
      and r: "op e \<noteq> OP_OUTPUT \<longrightarrow> res e < length w"
      and sz: "op e = OP_OUTPUT \<longrightarrow> seed ! res e ! arg_i1 e = 0"
      and np: "op e \<noteq> OP_PARAMETER"
      and z1: "(0::'a) + 0 = 0"
      and z2: "is_builtin (op e) \<longrightarrow> fst (rev tape ! n) * 0 = 0 \<and> snd (rev tape ! n) * 0 = 0"
  shows "adj_dir_step tape seed e (w, s, n)
           = (w, (if op e = OP_INPUT then upd2 s (arg_i0 e) (arg_i1 e) 0 else s),
              n + (if is_builtin (op e) then 1 else 0))"
proof -
  have id0: "\<And>k. w[k := 0] = w" using z by (rule list_update_zero_id)
  consider (c) "op e = OP_CONST" | (i) "op e = OP_INPUT" | (ou) "op e = OP_OUTPUT" | (b) "is_builtin (op e)"
    using opcode_kinds [of "op e"] np by blast
  then show ?thesis
  proof cases
    case c
    then show ?thesis by (simp add: adj_dir_step_def id0)
  next
    case i
    then have "w ! res e = 0" using r z by simp
    then show ?thesis using i by (simp add: adj_dir_step_def id0)
  next
    case ou
    have "arg_i0 e < length w \<longrightarrow> w ! arg_i0 e + seed ! res e ! arg_i1 e = 0"
      using z sz ou z1 by simp
    then have "w[arg_i0 e := w ! arg_i0 e + seed ! res e ! arg_i1 e] = w"
      using z by (intro list_update_zero_vec) simp_all
    then show ?thesis using ou by (simp add: adj_dir_step_def)
  next
    case b
    have nx: "op e \<noteq> OP_OUTPUT" "op e \<noteq> OP_INPUT" using is_builtin_simps2 [OF b] by simp_all
    have sd: "w ! res e = 0" using r z nx by simp
    have p: "fst (rev tape ! n) * 0 = 0" "snd (rev tape ! n) * 0 = 0" using z2 b by simp_all
    have u0: "w[arg_i0 e := w ! arg_i0 e + fst (rev tape ! n) * 0] = w"
    proof (rule list_update_zero_vec [OF z])
      show "arg_i0 e < length w \<longrightarrow> w ! arg_i0 e + fst (rev tape ! n) * 0 = 0"
        using z p z1 by simp
    qed
    have u1: "w[arg_i1 e := w ! arg_i1 e + snd (rev tape ! n) * 0] = w"
    proof (rule list_update_zero_vec [OF z])
      show "arg_i1 e < length w \<longrightarrow> w ! arg_i1 e + snd (rev tape ! n) * 0 = 0"
        using z p z1 by simp
    qed
    show ?thesis
      using adj_dir_step_builtin [OF b, of tape seed w s n] b nx sd
      by (simp add: Let_def id0 u0 u1)
  qed
qed

lemma adj_dir_zero_run:
  fixes L :: "'a::{zero,plus,times} SXAlgEl list"
  assumes z: "\<forall>s < length w. w ! s = 0"
      and z1: "(0::'a) + 0 = 0"
      and z2: "\<forall>d \<in> set tape. fst d * 0 = 0 \<and> snd d * 0 = 0"
  shows "\<forall>e \<in> set L. op e \<noteq> OP_OUTPUT \<longrightarrow> res e < length w \<Longrightarrow>
         \<forall>e \<in> set L. op e = OP_OUTPUT \<longrightarrow> seed ! res e ! arg_i1 e = 0 \<Longrightarrow>
         \<forall>e \<in> set L. op e = OP_INPUT \<longrightarrow> arg_i0 e < length isz \<and> arg_i1 e < isz ! arg_i0 e \<Longrightarrow>
         \<forall>e \<in> set L. op e \<noteq> OP_PARAMETER \<Longrightarrow>
         map length s1 = isz \<Longrightarrow> n + n_builtin L \<le> length tape \<Longrightarrow>
         \<exists>sa na.
           fold (adj_dir_step tape seed) L (w, s1, n) = (w, sa, na)
           \<and> map length sa = isz
           \<and> (\<forall>i < length isz. \<forall>j < isz ! i.
                 (s1 ! i ! j = 0 \<or> (\<exists>e \<in> set L. op e = OP_INPUT \<and> arg_i0 e = i \<and> arg_i1 e = j))
                 \<longrightarrow> sa ! i ! j = 0)"
proof (induction L arbitrary: s1 n)
  case Nil
  then show ?case by simp
next
  case (Cons e L)
  let ?t = "if op e = OP_INPUT then upd2 s1 (arg_i0 e) (arg_i1 e) 0 else s1"
  let ?n = "n + (if is_builtin (op e) then 1 else 0)"
  have pz: "is_builtin (op e) \<longrightarrow> fst (rev tape ! n) * 0 = 0 \<and> snd (rev tape ! n) * 0 = 0"
  proof
    assume "is_builtin (op e)"
    then have "n < length (rev tape)" using Cons.prems(6) by simp
    then have "rev tape ! n \<in> set (rev tape)" by (rule nth_mem)
    then show "fst (rev tape ! n) * 0 = 0 \<and> snd (rev tape ! n) * 0 = 0" using z2 by simp
  qed
  have st: "adj_dir_step tape seed e (w, s1, n) = (w, ?t, ?n)"
  proof (rule adj_dir_step_zero [OF z _ _ _ z1 pz])
    show "op e \<noteq> OP_OUTPUT \<longrightarrow> res e < length w" using Cons.prems(1) by simp
    show "op e = OP_OUTPUT \<longrightarrow> seed ! res e ! arg_i1 e = 0" using Cons.prems(2) by simp
    show "op e \<noteq> OP_PARAMETER" using Cons.prems(4) by simp
  qed
  have sh: "map length ?t = isz" using Cons.prems(5) by simp
  have ag: "\<forall>i < length isz. \<forall>j < isz ! i.
              (s1 ! i ! j = 0 \<or> (op e = OP_INPUT \<and> arg_i0 e = i \<and> arg_i1 e = j))
              \<longrightarrow> ?t ! i ! j = 0"
  proof (cases "op e = OP_INPUT")
    case True
    have b: "arg_i0 e < length isz" "arg_i1 e < isz ! arg_i0 e" using Cons.prems(3) True by simp_all
    have in1: "arg_i0 e < length s1 \<and> arg_i1 e < length (s1 ! arg_i0 e)"
      using shape_nth [OF Cons.prems(5) b(1)] b by simp
    show ?thesis using True in1 by (auto simp add: upd2_nth)
  next
    case False
    then show ?thesis by simp
  qed
  have p1: "\<forall>e \<in> set L. op e \<noteq> OP_OUTPUT \<longrightarrow> res e < length w" using Cons.prems(1) by simp
  have p2: "\<forall>e \<in> set L. op e = OP_OUTPUT \<longrightarrow> seed ! res e ! arg_i1 e = 0" using Cons.prems(2) by simp
  have p3: "\<forall>e \<in> set L. op e = OP_INPUT \<longrightarrow> arg_i0 e < length isz \<and> arg_i1 e < isz ! arg_i0 e"
    using Cons.prems(3) by simp
  have p4: "\<forall>e \<in> set L. op e \<noteq> OP_PARAMETER" using Cons.prems(4) by simp
  have p6: "?n + n_builtin L \<le> length tape" using Cons.prems(6) by simp
  obtain sa na where
    ra: "fold (adj_dir_step tape seed) L (w, ?t, ?n) = (w, sa, na)"
    and sha: "map length sa = isz"
    and ag2: "\<forall>i < length isz. \<forall>j < isz ! i.
              (?t ! i ! j = 0 \<or> (\<exists>e \<in> set L. op e = OP_INPUT \<and> arg_i0 e = i \<and> arg_i1 e = j))
              \<longrightarrow> sa ! i ! j = 0"
    using Cons.IH [OF p1 p2 p3 p4 sh p6] by blast
  have "\<forall>i < length isz. \<forall>j < isz ! i.
              (s1 ! i ! j = 0 \<or> (\<exists>e' \<in> set (e # L). op e' = OP_INPUT \<and> arg_i0 e' = i \<and> arg_i1 e' = j))
              \<longrightarrow> sa ! i ! j = 0"
  proof (intro allI impI)
    fix i j assume i: "i < length isz" and j: "j < isz ! i"
      and h: "s1 ! i ! j = 0 \<or> (\<exists>e' \<in> set (e # L). op e' = OP_INPUT \<and> arg_i0 e' = i \<and> arg_i1 e' = j)"
    have "?t ! i ! j = 0 \<or> (\<exists>e \<in> set L. op e = OP_INPUT \<and> arg_i0 e = i \<and> arg_i1 e = j)"
      using h ag i j by auto
    then show "sa ! i ! j = 0" using ag2 i j by blast
  qed
  then show ?case using ra sha st by simp
qed

lemma all_zero_entries:
  fixes seed :: "'a::zero list list"
  assumes "map length seed = sz" and "all_zero (length sz) seed"
  shows "\<forall>i < length sz. \<forall>j < sz ! i. seed ! i ! j = 0"
  using assms(2) assms(1) refl by (rule all_zeroD)

lemma fwd_sens_of_zero:
  fixes alg :: "'a::{zero,plus,times} SXAlgEl list"
  assumes w: "alg_wf alg ws" and nopar: "\<forall>p < length alg. op (alg ! p) \<noteq> OP_PARAMETER"
      and o: "outputs_ok alg osz" and i: "inputs_ok alg isz"
      and sh: "map length seed = isz" and z: "all_zero (length isz) seed"
      and z1: "(0::'a) + 0 = 0"
      and z2: "\<forall>d \<in> set tape. fst d * 0 = 0 \<and> snd d * 0 = 0"
      and lt: "n_builtin alg \<le> length tape"
  shows "fwd_sens_of alg ws osz tape seed = zero_bundle osz"
proof -
  have z': "\<forall>i < length isz. \<forall>j < isz ! i. seed ! i ! j = 0" using sh z by (rule all_zero_entries)
  have l0: "length (replicate ws (0::'a)) = ws" by simp
  show ?thesis unfolding fwd_sens_of_def
    using w nopar o i l0 zero_bundle_shape z' z1 z2 lt by (rule fwd_dir_zero)
qed

lemma adj_sens_of_zero:
  fixes alg :: "'a::{zero,plus,times} SXAlgEl list"
  assumes w: "alg_wf alg ws" and nopar: "\<forall>p < length alg. op (alg ! p) \<noteq> OP_PARAMETER"
      and o: "outputs_ok alg osz" and i: "inputs_ok alg isz"
      and sh: "map length seed = osz" and z: "all_zero (length osz) seed"
      and z1: "(0::'a) + 0 = 0"
      and z2: "\<forall>d \<in> set tape. fst d * 0 = 0 \<and> snd d * 0 = 0"
      and lt: "n_builtin alg \<le> length tape"
  shows "adj_sens_of alg ws isz tape seed = zero_bundle isz"
proof -
  let ?w = "replicate ws (0::'a)"
  have z': "\<forall>i < length osz. \<forall>j < osz ! i. seed ! i ! j = 0" using sh z by (rule all_zero_entries)
  have zw: "\<forall>s < length ?w. ?w ! s = 0" by simp
  have mem: "\<And>e. e \<in> set (rev alg) \<Longrightarrow> \<exists>p < length alg. alg ! p = e"
    by (auto simp: in_set_conv_nth)
  have r: "\<forall>e \<in> set (rev alg). op e \<noteq> OP_OUTPUT \<longrightarrow> res e < length ?w"
  proof (intro ballI impI)
    fix e assume "e \<in> set (rev alg)" and ne: "op e \<noteq> OP_OUTPUT"
    then obtain p where p: "p < length alg" "alg ! p = e" using mem by blast
    show "res e < length ?w" using alg_wf_operands(3) [OF w p(1)] p(2) ne by simp
  qed
  have sz: "\<forall>e \<in> set (rev alg). op e = OP_OUTPUT \<longrightarrow> seed ! res e ! arg_i1 e = 0"
  proof (intro ballI impI)
    fix e assume "e \<in> set (rev alg)" and oe: "op e = OP_OUTPUT"
    then obtain p where p: "p < length alg" "alg ! p = e" using mem by blast
    have "res e < length osz" "arg_i1 e < osz ! res e" using outputs_okD [OF o p(1)] p(2) oe by simp_all
    then show "seed ! res e ! arg_i1 e = 0" using z' by blast
  qed
  have inb: "\<forall>e \<in> set (rev alg). op e = OP_INPUT \<longrightarrow> arg_i0 e < length isz \<and> arg_i1 e < isz ! arg_i0 e"
  proof (intro ballI impI)
    fix e assume "e \<in> set (rev alg)" and oe: "op e = OP_INPUT"
    then obtain p where p: "p < length alg" "alg ! p = e" using mem by blast
    show "arg_i0 e < length isz \<and> arg_i1 e < isz ! arg_i0 e"
      using inputs_okD [OF i p(1)] oe p(2) by simp
  qed
  have npa: "\<forall>e \<in> set (rev alg). op e \<noteq> OP_PARAMETER"
  proof
    fix e assume "e \<in> set (rev alg)"
    then obtain p where p: "p < length alg" "alg ! p = e" using mem by blast
    then show "op e \<noteq> OP_PARAMETER" using nopar by blast
  qed
  have lt': "0 + n_builtin (rev alg) \<le> length tape" using lt by simp
  obtain sa na where
    ra: "fold (adj_dir_step tape seed) (rev alg) (?w, zero_bundle isz, 0) = (?w, sa, na)"
    and sha: "map length sa = isz"
    and ag: "\<forall>i < length isz. \<forall>j < isz ! i.
              (zero_bundle isz ! i ! j = (0::'a)
                \<or> (\<exists>e \<in> set (rev alg). op e = OP_INPUT \<and> arg_i0 e = i \<and> arg_i1 e = j))
              \<longrightarrow> sa ! i ! j = 0"
    using adj_dir_zero_run [OF zw z1 z2 r sz inb npa zero_bundle_shape lt'] by blast
  have "\<forall>i < length isz. \<forall>j < isz ! i. sa ! i ! j = 0"
    using ag by (simp add: zero_bundle_nth)
  then have "sa = zero_bundle isz" using zero_bundle_eqI [OF sha] by blast
  then show ?thesis using ra by (simp add: adj_sens_of_def)
qed


section \<open>The tape has one entry for each operation\<close>

lemma is_builtin_getOp: "is_builtin (getOp nd) \<longleftrightarrow> \<not> isConstant nd \<and> \<not> isSymbolic nd"
  by (cases nd) simp_all

lemma length_filter_pointwise:
  assumes l: "length xs = length ys" and e: "\<forall>i < length xs. P (xs ! i) = Q (ys ! i)"
  shows "length (filter P xs) = length (filter Q ys)"
  using l e
proof (induction xs ys rule: list_induct2)
  case Nil
  then show ?case by simp
next
  case (Cons x xs y ys)
  have "P ((x # xs) ! 0) = Q ((y # ys) ! 0)" using Cons.prems by blast
  then have h: "P x = Q y" by simp
  have t: "\<forall>i < length xs. P (xs ! i) = Q (ys ! i)"
  proof (intro allI impI)
    fix i assume "i < length xs"
    then have "Suc i < length (x # xs)" by simp
    then have "P ((x # xs) ! Suc i) = Q ((y # ys) ! Suc i)" using Cons.prems by blast
    then show "P (xs ! i) = Q (ys ! i)" by simp
  qed
  show ?case using Cons.IH [OF t] h by simp
qed

lemma nodes_of_filter_length:
  "length (filter R (nodes_of nodes))
   = length (filter (\<lambda>t. case t of None \<Rightarrow> False | Some n \<Rightarrow> R n) nodes)"
proof (induction nodes)
  case Nil
  then show ?case by (simp add: nodes_of_def)
next
  case (Cons a nodes)
  have "nodes_of (a # nodes) = nodes_of [a] @ nodes_of nodes" by (simp add: nodes_of_def)
  then show ?case using Cons by (cases a) simp_all
qed

lemma init_operations_count:
  fixes g :: "'a::zero graph"
  assumes fok: "function_ok g inputv outputv" and t0: "\<forall>n < length g. temp0 n = 0"
      and f: "init g inputv outputv live temp0 = Some f"
  shows "length (operations f) = n_builtin (algorithm f)"
proof -
  obtain nodes temp2 bs alg1 st alg2 temp4 fv temp5 where
    nok: "nodes_ok g nodes"
    and opl: "outputs_placed nodes (concat outputv)"
    and memo: "\<forall>x \<in> set (concat outputv). Some x \<in> set nodes"
    and memi: "\<forall>x \<in> set (concat inputv). Some x \<in> set nodes"
    and tp: "temp_pos nodes temp2"
    and bi: "build_inv g outputv nodes nodes bs"
    and pos: "pos_ok (bs_algorithm bs)"
    and ai: "alloc_inv (bs_algorithm bs) (length (bs_algorithm bs)) alg1 st"
    and slok: "symb_loc_ok (bs_symb_loc bs) alg1"
    and mi: "mark_inv (length g) (bs_symb_loc bs) alg1 alg2 temp4"
    and ii: "input_instructions 0 inputv
       (alg1, mark_symb_loc (bs_symb_loc bs) (reset_temp nodes temp2)) = (alg2, temp4)"
    and t3: "\<forall>i n. (i, n) \<in> set (bs_symb_loc bs)
       \<longrightarrow> mark_symb_loc (bs_symb_loc bs) (reset_temp nodes temp2) n = int i + 1"
    and lf: "locate_free (bs_symb_loc bs) ([], temp4) = (fv, temp5)"
    and res: "init g inputv outputv live temp0 =
       Some \<lparr>algorithm = alg2, worksize = as_worksize st, free_vars = fv,
             constants = filter (\<lambda>n. isConstant (g ! n)) (nodes_of nodes),
             operations = filter (\<lambda>n. \<not> isConstant (g ! n) \<and> \<not> isSymbolic (g ! n)) (nodes_of nodes),
             temp_after = temp5\<rparr>"
    by (rule init_run [OF fok t0])
  let ?alg0 = "bs_algorithm bs"
  let ?R = "\<lambda>n. \<not> isConstant (g ! n) \<and> \<not> isSymbolic (g ! n)"
  have fa: "algorithm f = alg2" and fo: "operations f = filter ?R (nodes_of nodes)"
    using f res by auto
  have len0: "length ?alg0 = length nodes"
    and ins: "\<forall>p < length nodes. instr_ok g outputv nodes p (?alg0 ! p)"
    using bi unfolding build_inv_def by blast+
  have len1: "length alg1 = length nodes"
    and a_op: "\<forall>q < length nodes. op (alg1 ! q) = op (?alg0 ! q)"
    using ai len0 unfolding alloc_inv_def by simp_all
  have len2: "length alg2 = length nodes"
    and m2: "\<forall>p < length nodes. alg2 ! p = alg1 ! p
            \<or> (op (alg1 ! p) = OP_PARAMETER \<and> op (alg2 ! p) = OP_INPUT
                \<and> res (alg2 ! p) = res (alg1 ! p))"
    using mi len1 unfolding mark_inv_def by simp_all
  have pw: "\<forall>p < length alg2. is_builtin (op (alg2 ! p))
              = (case nodes ! p of None \<Rightarrow> False | Some n \<Rightarrow> ?R n)"
  proof (intro allI impI)
    fix p assume "p < length alg2"
    then have p: "p < length nodes" using len2 by simp
    have "alg2 ! p = alg1 ! p
            \<or> (op (alg1 ! p) = OP_PARAMETER \<and> op (alg2 ! p) = OP_INPUT
                \<and> res (alg2 ! p) = res (alg1 ! p))" using m2 p by blast
    then have e1: "is_builtin (op (alg2 ! p)) = is_builtin (op (alg1 ! p))" by auto
    have e2: "op (alg1 ! p) = op (?alg0 ! p)" using a_op p by blast
    have io: "instr_ok g outputv nodes p (?alg0 ! p)" using ins p by blast
    show "is_builtin (op (alg2 ! p)) = (case nodes ! p of None \<Rightarrow> False | Some n \<Rightarrow> ?R n)"
    proof (cases "nodes ! p")
      case None
      then have "op (?alg0 ! p) = OP_OUTPUT" using io unfolding instr_ok_def by simp
      then show ?thesis using e1 e2 None by simp
    next
      case (Some n)
      then have "op (?alg0 ! p) = getOp (g ! n)" using io unfolding instr_ok_def by simp
      then show ?thesis using e1 e2 Some by (simp add: is_builtin_getOp)
    qed
  qed
  have "n_builtin alg2 = length (filter (\<lambda>t. case t of None \<Rightarrow> False | Some n \<Rightarrow> ?R n) nodes)"
    unfolding n_builtin_def using len2 pw by (rule length_filter_pointwise)
  then show ?thesis unfolding fa fo by (simp add: nodes_of_filter_length)
qed

lemma eval_step_pdwork [simp]: "pdwork (eval_step fcn it st) = pdwork st"
  by (cases "op it") (simp_all add: eval_step_def)

lemma tape_fold_pdwork_length:
  "length (pdwork (fst (fold (tape_step fcn der) alg sti))) = length (pdwork (fst sti))"
proof (induction alg arbitrary: sti)
  case Nil
  then show ?case by simp
next
  case (Cons it alg)
  have "length (pdwork (fst (tape_step fcn der it sti))) = length (pdwork (fst sti))"
    by (simp add: tape_step_def Let_def)
  then show ?case using Cons [of "tape_step fcn der it sti"] by simp
qed

section \<open>Compressed evaluation against evaluation over all directions\<close>

text \<open>
  Claim C5 as stated fails for \<^verbatim>\<open>double\<close> entries.  For \<open>x * y\<close> at \<open>x = 2\<close>,
  \<open>y = \<infinity>\<close> the tape holds the partials \<open>(\<infinity>, 2)\<close>.  \<^verbatim>\<open>evaluate\<close> sweeps the
  directions with all-zero seeds and forms \<open>\<infinity> * 0\<close>, which is NaN: the second forward
  direction and the adjoint direction get NaN.  \<^verbatim>\<open>evaluateCompressed\<close> skips these
  directions and writes zero.
\<close>

theorem evaluateCompressed_differs_on_infinite_partial:
  "function_ok graph_prod [[0], [1]] [[2]]
   \<and> map_option (\<lambda>f. (worksize f, free_vars f, length (operations f)))
        (init graph_prod [[0], [1]] [[2]] True (\<lambda>n. 0)) = Some (2, [], 1)
   \<and> buffers_ok [1, 1] [1] 2 2 1 (state_prod PInf)
   \<and> all_zero 2 (fwdSeed (state_prod PInf) ! 1) \<and> all_zero 1 (adjSeed (state_prod PInf) ! 0)
   \<and> map_option (\<lambda>f. map_sum id (\<lambda>s. (fwdSens s, adjSens s))
          (evaluate fcn_prod der_prod f 2 1 (state_prod PInf)))
        (init graph_prod [[0], [1]] [[2]] True (\<lambda>n. 0))
      = Some (Inr ([[[PInf]], [[NaN]]], [[[NaN], [Fin 0]]]))
   \<and> map_option (\<lambda>f. map_sum id (\<lambda>s. (fwdSens s, adjSens s))
          (evaluateCompressed (evaluate fcn_prod der_prod f) 2 1 (state_prod PInf)))
        (init graph_prod [[0], [1]] [[2]] True (\<lambda>n. 0))
      = Some (Inr ([[[PInf]], [[Fin 0]]], [[[Fin 0], [Fin 0]]]))"
  by code_simp

text \<open>
  Claim C5 (as amended).  For every declared function and all buffers of its shapes
  (the tape having one entry for each operation, as \<^verbatim>\<open>init\<close> allocates it), with any
  number of forward and adjoint directions and any seeds: if \<open>0 + 0 = 0\<close> and every local
  partial \<open>p\<close> the value pass records on the tape satisfies \<open>p * 0 = 0\<close>, as every finite
  \<^verbatim>\<open>double\<close> does, then \<^verbatim>\<open>evaluateCompressed\<close> and \<^verbatim>\<open>evaluate\<close> over all directions end
  with the same forward and the same adjoint sensitivity bundles (and raise the same
  error when the function has free variables).  No other law of arithmetic is used:
  the entries are of any type with \<open>0\<close>, \<open>+\<close> and \<open>*\<close>.
\<close>

theorem evaluateCompressed_same_sensitivities:
  fixes g :: "'a::{zero,plus,times} graph"
  assumes fok: "function_ok g inputv outputv" and t0: "\<forall>n < length g. temp0 n = 0"
      and f: "init g inputv outputv live_variables temp0 = Some f"
      and b: "buffers_ok (map length inputv) (map length outputv) (worksize f) nfdir nadir st"
      and tl: "length (pdwork st) = length (operations f)"
      and z1: "(0::'a) + 0 = 0"
      and z2: "\<forall>p \<in> set (pdwork (fst (fold (tape_step fcn der) (algorithm f) (st, 0)))).
                 fst p * 0 = 0 \<and> snd p * 0 = 0"
  shows "map_sum id (\<lambda>s. (fwdSens s, adjSens s))
           (evaluateCompressed (evaluate fcn der f) nfdir nadir st)
         = map_sum id (\<lambda>s. (fwdSens s, adjSens s)) (evaluate fcn der f nfdir nadir st)"
proof (cases "free_vars f = []")
  case False
  have "\<And>a c s. evaluate fcn der f a c s = Inl (FreeVariables (free_vars f))"
    using False by (simp add: evaluate_def)
  then show ?thesis by (simp add: evaluateCompressed_def split: prod.splits)
next
  case fv: True
  let ?isz = "map length inputv" and ?osz = "map length outputv"
  let ?alg = "algorithm f" and ?ws = "worksize f"
  obtain f' where f': "init g inputv outputv live_variables temp0 = Some f'"
    and w': "alg_wf (algorithm f') (worksize f')"
    and np': "free_vars f' = [] \<longrightarrow> (\<forall>p < length (algorithm f'). op (algorithm f' ! p) \<noteq> OP_PARAMETER)"
    and o': "outputs_ok (algorithm f') ?osz" and i': "inputs_ok (algorithm f') ?isz"
    using init_sweeps_ok [OF fok t0, of live_variables] by blast
  have e: "f' = f" using f f' by simp
  have w: "alg_wf ?alg ?ws" and o: "outputs_ok ?alg ?osz" and i: "inputs_ok ?alg ?isz"
    and np: "\<forall>p < length ?alg. op (?alg ! p) \<noteq> OP_PARAMETER"
    using w' o' i' np' e fv by simp_all
  have l: "length (work st) = ?ws"
    and li: "length (input_data st) = length ?isz" and lo: "length (output_data st) = length ?osz"
    and nfs: "nfdir \<le> length (fwdSeed st)" and nf: "nfdir \<le> length (fwdSens st)"
    and nas: "nadir \<le> length (adjSeed st)" and na: "nadir \<le> length (adjSens st)"
    and shfs: "\<forall>d < nfdir. map length (fwdSeed st ! d) = ?isz"
    and shf: "\<forall>d < nfdir. map length (fwdSens st ! d) = ?osz"
    and shas: "\<forall>d < nadir. map length (adjSeed st ! d) = ?osz"
    and sha: "\<forall>d < nadir. map length (adjSens st ! d) = ?isz"
    using buffers_okD [OF b] by blast+
  let ?tape = "pdwork (fst (fold (tape_step fcn der) ?alg (st, 0)))"
  let ?F = "fwd_sens_of ?alg ?ws ?osz ?tape"
  let ?A = "adj_sens_of ?alg ?ws ?isz ?tape"
  have "length ?tape = length (pdwork st)" using tape_fold_pdwork_length [of fcn der ?alg "(st, 0)"] by simp
  then have lt: "n_builtin ?alg \<le> length ?tape"
    using tl init_operations_count [OF fok t0 f] by simp
  obtain fseed cf flf where
    crf: "fold (compress_step (getNumInputs st)) [0 ..< nfdir] (fwdSeed st, 0, replicate nfdir False)
          = (fseed, cf, flf)"
    by (cases "fold (compress_step (getNumInputs st)) [0 ..< nfdir] (fwdSeed st, 0, replicate nfdir False)")
  obtain aseed ca fla where
    cra: "fold (compress_step (getNumOutputs st)) [0 ..< nadir] (adjSeed st, 0, replicate nadir False)
          = (aseed, ca, fla)"
    by (cases "fold (compress_step (getNumOutputs st)) [0 ..< nadir] (adjSeed st, 0, replicate nadir False)")
  have crf': "fold (compress_step (length ?isz)) [0 ..< nfdir] (fwdSeed st, 0, replicate nfdir False)
          = (fseed, cf, flf)" using crf li by (simp add: getNumInputs_def)
  have cra': "fold (compress_step (length ?osz)) [0 ..< nadir] (adjSeed st, 0, replicate nadir False)
          = (aseed, ca, fla)" using cra lo by (simp add: getNumOutputs_def)
  have Fsh: "\<And>seed. map length (?F seed) = ?osz" using w np o by (rule fwd_sens_of_shape)
  have Ash: "\<And>seed. map length (?A seed) = ?isz" using i by (rule adj_sens_of_shape)
  have Fz: "\<forall>d < nfdir. all_zero (length ?isz) (fwdSeed st ! d) \<longrightarrow> ?F (fwdSeed st ! d) = zero_bundle ?osz"
  proof (intro allI impI)
    fix d assume d: "d < nfdir" and z: "all_zero (length ?isz) (fwdSeed st ! d)"
    have s: "map length (fwdSeed st ! d) = ?isz" using shfs d by blast
    show "?F (fwdSeed st ! d) = zero_bundle ?osz"
      using w np o i s z z1 z2 lt by (rule fwd_sens_of_zero)
  qed
  have Az: "\<forall>d < nadir. all_zero (length ?osz) (adjSeed st ! d) \<longrightarrow> ?A (adjSeed st ! d) = zero_bundle ?isz"
  proof (intro allI impI)
    fix d assume d: "d < nadir" and z: "all_zero (length ?osz) (adjSeed st ! d)"
    have s: "map length (adjSeed st ! d) = ?osz" using shas d by blast
    show "?A (adjSeed st ! d) = zero_bundle ?isz"
      using w np o i s z z1 z2 lt by (rule adj_sens_of_zero)
  qed
  have cfN: "cf \<le> nfdir" using nfs shfs nf shf Fsh Fz crf' by (rule compress_decompress(1))
  have df: "fst (fold (decompress_step (length ?osz) flf) (rev [0 ..< nfdir])
                (map (\<lambda>k. if k < cf then ?F (fseed ! k) else fwdSens st ! k) [0 ..< length (fwdSens st)], cf))
         = map (\<lambda>d. if d < nfdir then ?F (fwdSeed st ! d) else fwdSens st ! d) [0 ..< length (fwdSens st)]"
    using nfs shfs nf shf Fsh Fz crf' by (rule compress_decompress(2))
  have caN: "ca \<le> nadir" using nas shas na sha Ash Az cra' by (rule compress_decompress(1))
  have da: "fst (fold (decompress_step (length ?isz) fla) (rev [0 ..< nadir])
                (map (\<lambda>k. if k < ca then ?A (aseed ! k) else adjSens st ! k) [0 ..< length (adjSens st)], ca))
         = map (\<lambda>d. if d < nadir then ?A (adjSeed st ! d) else adjSens st ! d) [0 ..< length (adjSens st)]"
    using nas shas na sha Ash Az cra' by (rule compress_decompress(2))
  obtain stU where
    evU: "evaluate fcn der f nfdir nadir st = Inr stU"
    and fU: "fwdSens stU = map (\<lambda>d. if d < nfdir then ?F (fwdSeed st ! d) else fwdSens st ! d)
                              [0 ..< length (fwdSens st)]"
    and aU: "adjSens stU = map (\<lambda>d. if d < nadir then ?A (adjSeed st ! d) else adjSens st ! d)
                              [0 ..< length (adjSens st)]"
    using evaluate_sens [OF w np o i fv l nf na shf sha, of fcn der] by (elim exE conjE)
  let ?stc = "st\<lparr>fwdSeed := fseed, adjSeed := aseed\<rparr>"
  have tc: "pdwork (fst (fold (tape_step fcn der) ?alg (?stc, 0))) = ?tape"
    by (simp add: tape_fold_seeds)
  have lc: "length (work ?stc) = ?ws" using l by simp
  have nfc: "cf \<le> length (fwdSens ?stc)" using cfN nf by simp
  have nac: "ca \<le> length (adjSens ?stc)" using caN na by simp
  have shfc: "\<forall>d < cf. map length (fwdSens ?stc ! d) = ?osz" using shf cfN by simp
  have shac: "\<forall>d < ca. map length (adjSens ?stc ! d) = ?isz" using sha caN by simp
  obtain stC where
    evC: "evaluate fcn der f cf ca ?stc = Inr stC"
    and fC: "fwdSens stC = map (\<lambda>k. if k < cf then ?F (fseed ! k) else fwdSens st ! k)
                              [0 ..< length (fwdSens st)]"
    and aC: "adjSens stC = map (\<lambda>k. if k < ca then ?A (aseed ! k) else adjSens st ! k)
                              [0 ..< length (adjSens st)]"
    and iC: "length (input_data stC) = length (input_data st)"
    and oC: "length (output_data stC) = length (output_data st)"
    using evaluate_sens [OF w np o i fv lc nfc nac shfc shac, of fcn der] unfolding tc
    by (elim exE conjE) simp
  have gi: "getNumInputs stC = length ?isz" using iC li by (simp add: getNumInputs_def)
  have go: "getNumOutputs stC = length ?osz" using oC lo by (simp add: getNumOutputs_def)
  have "evaluateCompressed (evaluate fcn der f) nfdir nadir st
        = Inr (stC\<lparr>fwdSens := fst (fold (decompress_step (length ?osz) flf) (rev [0 ..< nfdir])
                                      (fwdSens stC, cf)),
                   adjSens := fst (fold (decompress_step (length ?isz) fla) (rev [0 ..< nadir])
                                      (adjSens stC, ca))\<rparr>)"
    by (simp add: evaluateCompressed_def crf cra evC gi go)
  then show ?thesis unfolding evU using fC aC df da fU aU by simp
qed

lemma init_graph_prod:
  "map_option (\<lambda>f. (worksize f, length (operations f)))
        (init graph_prod [[0], [1]] [[2]] True (\<lambda>n. 0)) = Some (2, 1)"
  "map_option (\<lambda>f. pdwork (fst (fold (tape_step fcn_prod der_prod) (algorithm f) (state_prod (Fin 3), 0))))
       (init graph_prod [[0], [1]] [[2]] True (\<lambda>n. 0)) = Some [(Fin 3, Fin 2)]"
  "map_option (\<lambda>f. map_sum id (\<lambda>s. (fwdSens s, adjSens s))
         (evaluate fcn_prod der_prod f 2 1 (state_prod (Fin 3))))
       (init graph_prod [[0], [1]] [[2]] True (\<lambda>n. 0))
     = Some (Inr ([[[Fin 3]], [[Fin 0]]], [[[Fin 0], [Fin 0]]]))"
  by code_simp+

lemma buffers_ok_state_prod:
  "buffers_ok (map length [[0::nat], [1]]) (map length [[2::nat]]) 2 2 1 (state_prod (Fin 3))"
  "all_zero 2 (fwdSeed (state_prod (Fin 3)) ! 1)" "all_zero 1 (adjSeed (state_prod (Fin 3)) ! 0)"
  by code_simp+

theorem evaluateCompressed_same_sensitivities_witness:
  "function_ok graph_prod [[0], [1]] [[2]]
   \<and> (\<exists>f. init graph_prod [[0], [1]] [[2]] True (\<lambda>n. 0) = Some f
          \<and> buffers_ok [1, 1] [1] (worksize f) 2 1 (state_prod (Fin 3))
          \<and> length (pdwork (state_prod (Fin 3))) = length (operations f)
          \<and> pdwork (fst (fold (tape_step fcn_prod der_prod) (algorithm f) (state_prod (Fin 3), 0)))
              = [(Fin 3, Fin 2)]
          \<and> all_zero 2 (fwdSeed (state_prod (Fin 3)) ! 1)
          \<and> all_zero 1 (adjSeed (state_prod (Fin 3)) ! 0)
          \<and> map_sum id (\<lambda>s. (fwdSens s, adjSens s))
               (evaluateCompressed (evaluate fcn_prod der_prod f) 2 1 (state_prod (Fin 3)))
             = map_sum id (\<lambda>s. (fwdSens s, adjSens s))
                 (evaluate fcn_prod der_prod f 2 1 (state_prod (Fin 3)))
          \<and> map_sum id (\<lambda>s. (fwdSens s, adjSens s))
               (evaluate fcn_prod der_prod f 2 1 (state_prod (Fin 3)))
             = Inr ([[[Fin 3]], [[Fin 0]]], [[[Fin 0], [Fin 0]]]))"
proof -
  have h1: "function_ok graph_prod [[0], [1]] [[2]]" by code_simp
  have h2: "\<forall>n < length graph_prod. (\<lambda>n. 0 :: int) n = 0" by simp
  obtain f where f: "init graph_prod [[0], [1]] [[2]] True (\<lambda>n. 0) = Some f"
    using init_graph_prod(1) by (cases "init graph_prod [[0], [1]] [[2]] True (\<lambda>n. 0)") auto
  have ws: "worksize f = 2" and ops: "length (operations f) = 1"
    using init_graph_prod(1) f by simp_all
  have tp: "pdwork (fst (fold (tape_step fcn_prod der_prod) (algorithm f) (state_prod (Fin 3), 0)))
              = [(Fin 3, Fin 2)]"
    using init_graph_prod(2) f by simp
  have b: "buffers_ok (map length [[0::nat], [1]]) (map length [[2::nat]]) (worksize f) 2 1
             (state_prod (Fin 3))"
    using buffers_ok_state_prod(1) ws by simp
  have tl: "length (pdwork (state_prod (Fin 3))) = length (operations f)"
    using ops by (simp add: state_prod_def)
  have z1: "(0::ieee) + 0 = 0" by (simp add: zero_ieee_def)
  have z2: "\<forall>p \<in> set (pdwork (fst (fold (tape_step fcn_prod der_prod) (algorithm f)
                (state_prod (Fin 3), 0)))). fst p * 0 = 0 \<and> snd p * 0 = 0"
    unfolding tp by (simp add: zero_ieee_def)
  have e: "map_sum id (\<lambda>s. (fwdSens s, adjSens s))
               (evaluateCompressed (evaluate fcn_prod der_prod f) 2 1 (state_prod (Fin 3)))
             = map_sum id (\<lambda>s. (fwdSens s, adjSens s))
                 (evaluate fcn_prod der_prod f 2 1 (state_prod (Fin 3)))"
    using evaluateCompressed_same_sensitivities [OF h1 h2 f b tl z1 z2] .
  have v: "map_sum id (\<lambda>s. (fwdSens s, adjSens s))
               (evaluate fcn_prod der_prod f 2 1 (state_prod (Fin 3)))
             = Inr ([[[Fin 3]], [[Fin 0]]], [[[Fin 0], [Fin 0]]])"
    using init_graph_prod(3) f by simp
  have b': "buffers_ok [1, 1] [1] (worksize f) 2 1 (state_prod (Fin 3))" using b by simp
  show ?thesis using h1 f b' tl tp buffers_ok_state_prod(2,3) e v by blast
qed


lemma duality_core:
  fixes alg :: "'a::comm_semiring_0 SXAlgEl list"
  assumes w: "alg_wf alg ws" and nopar: "\<forall>p < length alg. op (alg ! p) \<noteq> OP_PARAMETER"
      and o: "outputs_ok alg osz" and i: "inputs_ok alg isz"
      and lt: "length tape = n_builtin alg"
      and shx: "map length x = isz" and shy: "map length ybar = osz"
  shows "dot2 ybar (fwd_sens_of alg ws osz tape x) = dot2 x (adj_sens_of alg ws isz tape ybar)"
proof -
  have "bsum (out_entries alg) ybar
          (fst (snd (fold (fwd_dir_step tape x) alg (replicate ws 0, zero_bundle osz, n_builtin []))))
        = vdot ws (fst (fold (adj_dir_step tape ybar) (rev alg) (replicate ws 0, zero_bundle isz, 0)))
            (replicate ws 0)
          + bsum (in_entries alg) x
              (fst (snd (fold (adj_dir_step tape ybar) (rev alg) (replicate ws 0, zero_bundle isz, 0))))"
    using duality_suffix [OF w nopar o i lt, where pre = "[]" and suf = alg
        and wv = "replicate ws 0" and y = "zero_bundle osz" and ybar = ybar and x = x]
    by simp
  then have e: "bsum (out_entries alg) ybar (fwd_sens_of alg ws osz tape x)
                = bsum (in_entries alg) x (adj_sens_of alg ws isz tape ybar)"
    by (simp add: fwd_sens_of_def adj_sens_of_def vdot_zero_right)
  have f: "map length (fwd_sens_of alg ws osz tape x) = osz" using w nopar o by (rule fwd_sens_of_shape)
  have g: "map length (adj_sens_of alg ws isz tape ybar) = isz" using i by (rule adj_sens_of_shape)
  have "dot2 ybar (fwd_sens_of alg ws osz tape x) = bsum (entries osz) ybar (fwd_sens_of alg ws osz tape x)"
    using shy f by (rule dot2_entries)
  moreover have "dot2 x (adj_sens_of alg ws isz tape ybar) = bsum (entries isz) x (adj_sens_of alg ws isz tape ybar)"
    using shx g by (rule dot2_entries)
  ultimately show ?thesis using e out_entries_all [OF o] in_entries_all [OF i] by simp
qed

section \<open>The duality of the forward and the adjoint sweep\<close>

text \<open>
  Claim C3 as stated fails for \<^verbatim>\<open>double\<close> entries.  For \<open>(x1 * x2) * z\<close> at
  \<open>x1 = -1\<close>, \<open>x2 = 2\<close>, \<open>z = \<infinity>\<close>, with the forward seeds \<open>(1, 1, 0)\<close> and the adjoint
  seed \<open>1\<close>, the forward sensitivity of the output is \<open>\<infinity>\<close> and the adjoint
  sensitivities of the inputs are \<open>(\<infinity>, -\<infinity>, -2)\<close>: the first inner product is \<open>\<infinity>\<close>,
  the second is \<open>\<infinity> - \<infinity>\<close>, which is NaN.
\<close>

theorem duality_fails_on_infinite_partial:
  "function_ok graph_prod3 [[0], [1], [2]] [[4]]
   \<and> map_option (\<lambda>f. (worksize f, free_vars f, length (operations f)))
        (init graph_prod3 [[0], [1], [2]] [[4]] True (\<lambda>n. 0)) = Some (2, [], 2)
   \<and> buffers_ok [1, 1, 1] [1] 2 1 1 (state_prod3 PInf)
   \<and> map_option (\<lambda>f. map_sum id (\<lambda>s. (fwdSens s, adjSens s,
          dot2 (adjSeed (state_prod3 PInf) ! 0) (fwdSens s ! 0),
          dot2 (fwdSeed (state_prod3 PInf) ! 0) (adjSens s ! 0)))
         (evaluate fcn_prod der_prod f 1 1 (state_prod3 PInf)))
       (init graph_prod3 [[0], [1], [2]] [[4]] True (\<lambda>n. 0))
     = Some (Inr ([[[PInf]]], [[[PInf], [NInf], [Fin (- 2)]]], PInf, NaN))"
  by code_simp

text \<open>
  Claim C3 (as amended).  In exact arithmetic, that is for entries of a commutative
  semiring: for every declared function without free variables, all buffers of its
  shapes (the tape having one entry for each operation, as \<^verbatim>\<open>init\<close> allocates it), every
  input valuation, every forward direction \<open>fd\<close> and every adjoint direction \<open>ad\<close> of a
  call of \<^verbatim>\<open>evaluate\<close>, the call returns, and the inner product of the adjoint seeds of
  \<open>ad\<close> with the forward sensitivities of \<open>fd\<close> equals the inner product of the forward
  seeds of \<open>fd\<close> with the adjoint sensitivities of \<open>ad\<close>.  Both sweeps read the tape the
  value pass of this call has recorded.
\<close>

theorem forward_adjoint_duality:
  fixes g :: "'a::comm_semiring_0 graph"
  assumes fok: "function_ok g inputv outputv" and t0: "\<forall>n < length g. temp0 n = 0"
      and f: "init g inputv outputv live_variables temp0 = Some f"
      and fv: "free_vars f = []"
      and b: "buffers_ok (map length inputv) (map length outputv) (worksize f) nfdir nadir st"
      and tl: "length (pdwork st) = length (operations f)"
      and fd: "fd < nfdir" and ad: "ad < nadir"
  shows "\<exists>st'. evaluate fcn der f nfdir nadir st = Inr st'
           \<and> dot2 (adjSeed st ! ad) (fwdSens st' ! fd) = dot2 (fwdSeed st ! fd) (adjSens st' ! ad)"
proof -
  let ?isz = "map length inputv" and ?osz = "map length outputv"
  let ?alg = "algorithm f" and ?ws = "worksize f"
  obtain f' where f': "init g inputv outputv live_variables temp0 = Some f'"
    and w': "alg_wf (algorithm f') (worksize f')"
    and np': "free_vars f' = [] \<longrightarrow> (\<forall>p < length (algorithm f'). op (algorithm f' ! p) \<noteq> OP_PARAMETER)"
    and o': "outputs_ok (algorithm f') ?osz" and i': "inputs_ok (algorithm f') ?isz"
    using init_sweeps_ok [OF fok t0, of live_variables] by blast
  have e: "f' = f" using f f' by simp
  have w: "alg_wf ?alg ?ws" and o: "outputs_ok ?alg ?osz" and i: "inputs_ok ?alg ?isz"
    and np: "\<forall>p < length ?alg. op (?alg ! p) \<noteq> OP_PARAMETER"
    using w' o' i' np' e fv by simp_all
  have l: "length (work st) = ?ws"
    and nf: "nfdir \<le> length (fwdSens st)" and na: "nadir \<le> length (adjSens st)"
    and shfs: "\<forall>d < nfdir. map length (fwdSeed st ! d) = ?isz"
    and shf: "\<forall>d < nfdir. map length (fwdSens st ! d) = ?osz"
    and shas: "\<forall>d < nadir. map length (adjSeed st ! d) = ?osz"
    and sha: "\<forall>d < nadir. map length (adjSens st ! d) = ?isz"
    using buffers_okD [OF b] by blast+
  let ?tape = "pdwork (fst (fold (tape_step fcn der) ?alg (st, 0)))"
  have "length ?tape = length (pdwork st)" using tape_fold_pdwork_length [of fcn der ?alg "(st, 0)"] by simp
  then have lt: "length ?tape = n_builtin ?alg"
    using tl init_operations_count [OF fok t0 f] by simp
  obtain stU where
    evU: "evaluate fcn der f nfdir nadir st = Inr stU"
    and fU: "fwdSens stU = map (\<lambda>d. if d < nfdir
                 then fwd_sens_of ?alg ?ws ?osz ?tape (fwdSeed st ! d) else fwdSens st ! d)
               [0 ..< length (fwdSens st)]"
    and aU: "adjSens stU = map (\<lambda>d. if d < nadir
                 then adj_sens_of ?alg ?ws ?isz ?tape (adjSeed st ! d) else adjSens st ! d)
               [0 ..< length (adjSens st)]"
    using evaluate_sens [OF w np o i fv l nf na shf sha, of fcn der] by (elim exE conjE)
  have fl: "fd < length (fwdSens st)" and al: "ad < length (adjSens st)" using fd ad nf na by simp_all
  have f1: "fwdSens stU ! fd = fwd_sens_of ?alg ?ws ?osz ?tape (fwdSeed st ! fd)"
    unfolding fU using fl fd by simp
  have a1: "adjSens stU ! ad = adj_sens_of ?alg ?ws ?isz ?tape (adjSeed st ! ad)"
    unfolding aU using al ad by simp
  have shx: "map length (fwdSeed st ! fd) = ?isz" using shfs fd by blast
  have shy: "map length (adjSeed st ! ad) = ?osz" using shas ad by blast
  have "dot2 (adjSeed st ! ad) (fwd_sens_of ?alg ?ws ?osz ?tape (fwdSeed st ! fd))
        = dot2 (fwdSeed st ! fd) (adj_sens_of ?alg ?ws ?isz ?tape (adjSeed st ! ad))"
    using w np o i lt shx shy by (rule duality_core)
  then show ?thesis using evU f1 a1 by simp
qed

lemma init_graph_xy_operations:
  "map_option (\<lambda>f. length (operations f)) (init graph_xy [[0], [1]] [[4]] True (\<lambda>n. 0)) = Some 3"
  by code_simp

lemma buffers_ok_state_xy:
  "buffers_ok (map length [[0::nat], [1]]) (map length [[4::nat]]) 2 2 2 state_xy"
  by code_simp

theorem forward_adjoint_duality_witness:
  "function_ok graph_xy [[0], [1]] [[4]]
   \<and> (\<exists>f st'. init graph_xy [[0], [1]] [[4]] True (\<lambda>n. 0) = Some f
          \<and> free_vars f = []
          \<and> buffers_ok [1, 1] [1] (worksize f) 2 2 state_xy
          \<and> length (pdwork state_xy) = length (operations f)
          \<and> evaluate (\<lambda>opc x y. x * y) (\<lambda>opc x y. (y, x)) f 2 2 state_xy = Inr st'
          \<and> dot2 (adjSeed state_xy ! 0) (fwdSens st' ! 0) = dot2 (fwdSeed state_xy ! 0) (adjSens st' ! 0))"
proof -
  have h1: "function_ok graph_xy [[0], [1]] [[4]]" by code_simp
  have h2: "\<forall>n < length graph_xy. (\<lambda>n. 0 :: int) n = 0" by simp
  obtain f where f: "init graph_xy [[0], [1]] [[4]] True (\<lambda>n. 0) = Some f"
    using init_graph_xy_algorithm by (cases "init graph_xy [[0], [1]] [[4]] True (\<lambda>n. 0)") auto
  have fv: "free_vars f = []" and ws: "worksize f = 2"
    using init_graph_xy_fields f by simp_all
  have ops: "length (operations f) = 3" using init_graph_xy_operations f by simp
  have b: "buffers_ok (map length [[0::nat], [1]]) (map length [[4::nat]]) (worksize f) 2 2 state_xy"
    using buffers_ok_state_xy ws by simp
  have tl: "length (pdwork state_xy) = length (operations f)" using ops by (simp add: state_xy_def)
  have d: "(0::nat) < 2" by simp
  obtain st' where
    ev: "evaluate (\<lambda>opc x y. x * y) (\<lambda>opc x y. (y, x)) f 2 2 state_xy = Inr st'"
    and eq: "dot2 (adjSeed state_xy ! 0) (fwdSens st' ! 0) = dot2 (fwdSeed state_xy ! 0) (adjSens st' ! 0)"
    using forward_adjoint_duality [OF h1 h2 f fv b tl d d] by blast
  have b': "buffers_ok [1, 1] [1] (worksize f) 2 2 state_xy" using b by simp
  show ?thesis using h1 f fv b' tl ev eq by blast
qed

end
